(* ===== verification/Prelude.thy ===== *)
theory Prelude
  imports Main "HOL-Library.Word" "HOL-Library.Code_Target_Nat"
begin

unbundle bit_operations_syntax

text \<open>
  Shared vocabulary of the development: the machine integers of the code, the ways a C++
  operation can fail (as values), the arithmetic of \<open>size_t\<close>, and the few facts on lists
  and words that several components use.
\<close>

section \<open>Machine types\<close>

type_synonym byte = "8 word"
type_synonym u8 = "8 word"
type_synonym u16 = "16 word"
type_synonym u32 = "32 word"
type_synonym u64 = "64 word"

section \<open>Failures as values\<close>

text \<open>
  What a statement of the code can do besides completing: \<open>ASSERT(x)\<close> of
  \<^verbatim>\<open>include/Utils.hpp\<close> aborts the process, the standard library throws, and the
  language leaves some operations undefined (access outside an object, an over-wide shift, a
  dereferenced null or past-the-end pointer).
\<close>

datatype fault =
    AssertFail          \<comment> \<open>\<open>assert(x)\<close> failed\<close>
  | OutOfBounds         \<comment> \<open>a read or write outside the allocated object\<close>
  | BadShift            \<comment> \<open>a shift whose count or result does not fit the type\<close>
  | NullDeref           \<comment> \<open>a null pointer or past-the-end iterator dereferenced\<close>
  | BadFunctionCall     \<comment> \<open>an empty \<open>std::function\<close> called\<close>
  | LengthError         \<comment> \<open>a vector asked to grow beyond \<open>max_size()\<close>\<close>
  | DivByZero           \<comment> \<open>an integer division by zero\<close>
  | Deadlock            \<comment> \<open>a thread locks a mutex it already holds\<close>
  | UseAfterFree        \<comment> \<open>an object used after it was destroyed\<close>

type_synonym 'a res = "fault + 'a"

text \<open>Sequencing: the first failure ends the computation.\<close>

fun bind_res :: "'a res \<Rightarrow> ('a \<Rightarrow> 'b res) \<Rightarrow> 'b res" where
  "bind_res (Inl e) f = Inl e"
| "bind_res (Inr x) f = f x"

text \<open>\<open>ASSERT(b)\<close> followed by the rest of the block.\<close>

definition assert_then :: "bool \<Rightarrow> 'a res \<Rightarrow> 'a res" where
  "assert_then b k = (if b then k else Inl AssertFail)"

lemma assert_then_simps [simp]:
  "assert_then True k = k"
  "assert_then False k = Inl AssertFail"
  by (simp_all add: assert_then_def)

lemma assert_then_Inr [simp]: "assert_then b k = Inr x \<longleftrightarrow> b \<and> k = Inr x"
  by (simp add: assert_then_def)

lemma bind_res_Inr [simp]: "bind_res r f = Inr y \<longleftrightarrow> (\<exists>x. r = Inr x \<and> f x = Inr y)"
  by (cases r) auto

lemma bind_res_assoc: "bind_res (bind_res r f) g = bind_res r (\<lambda>x. bind_res (f x) g)"
  by (cases r) simp_all

lemma bind_res_cong [fundef_cong]:
  "r = r' \<Longrightarrow> (\<And>x. r' = Inr x \<Longrightarrow> f x = g x) \<Longrightarrow> bind_res r f = bind_res r' g"
  by (cases r') auto


lemma not_isl_Inr: "\<not> isl r \<Longrightarrow> \<exists>x. r = Inr x"
  by (cases r) auto

text \<open>Definitions that evaluate the construction and registration of channels on concrete input.\<close>

named_theorems channel_eval

section \<open>The arithmetic of \<open>size_t\<close>\<close>

text \<open>
  Sizes and offsets are natural numbers below \<open>2 ^ 64\<close>; the sum and the difference wrap as
  they do in C++.
\<close>

abbreviation two64 :: nat where
  "two64 \<equiv> 18446744073709551616"

definition sz_add :: "nat \<Rightarrow> nat \<Rightarrow> nat" where
  "sz_add a b = (a + b) mod two64"

definition sz_sub :: "nat \<Rightarrow> nat \<Rightarrow> nat" where
  "sz_sub a b = (if b \<le> a then a - b else two64 - (b - a))"

lemma two64_eq: "two64 = 2 ^ 64"
  by simp

lemma sz_add_exact [simp]: "a + b < two64 \<Longrightarrow> sz_add a b = a + b"
  by (simp add: sz_add_def)

lemma sz_sub_exact [simp]: "b \<le> a \<Longrightarrow> sz_sub a b = a - b"
  by (simp add: sz_sub_def)

lemma sz_sub_wraps: "a < b \<Longrightarrow> sz_sub a b = two64 - (b - a)"
  by (simp add: sz_sub_def)

text \<open>In an association list with distinct keys, the entries of a key are determined by
  membership alone.\<close>

lemma filter_key:
  assumes "distinct (map fst xs)" and "\<And>v. (a, v) \<in> set xs \<longleftrightarrow> v = b \<and> P"
  shows "filter (\<lambda>p. fst p = a) xs = (if P then [(a, b)] else [])"
proof (cases P)
  case True
  then have "(a, b) \<in> set xs" using assms(2) by blast
  then obtain ys zs where xs: "xs = ys @ (a, b) # zs" by (meson split_list)
  have "\<forall>p \<in> set ys \<union> set zs. fst p \<noteq> a" using assms(1) unfolding xs by auto
  then have "filter (\<lambda>p. fst p = a) ys = []" "filter (\<lambda>p. fst p = a) zs = []"
    by (auto simp: filter_empty_conv)
  then show ?thesis using True unfolding xs by simp
next
  case False
  then show ?thesis using assms(2) by (auto simp: filter_empty_conv)
qed

end
