(* ===== verification/Endian.thy ===== *)
theory Endian
  imports Prelude
begin

text \<open>
  Byte order: \<^verbatim>\<open>include/Endian.hpp\<close> on a little-endian host (the sources assume
  gcc on x86-64, see the \<open>static_assert\<close> of \<^verbatim>\<open>BitmapTree.cpp\<close>). A value in
  memory is its bytes, least significant first; \<open>htobe\<close> and \<open>betoh\<close> reverse them.
  The contract \<open>byte_order\<close> (the two directions undo each other) is all that the header
  codec and the addresses rely on.
\<close>

section \<open>Values in memory\<close>

definition store_le :: "nat \<Rightarrow> 'a::len word \<Rightarrow> byte list" where
  "store_le k x = map (\<lambda>i. ucast (drop_bit (8 * i) x)) [0..<k]"

fun load_le :: "byte list \<Rightarrow> 'a::len word" where
  "load_le [] = 0"
| "load_le (b # bs) = ucast b OR push_bit 8 (load_le bs)"

lemma length_store_le [simp]: "length (store_le k x) = k"
  by (simp add: store_le_def)

lemma bit_store_le: "i < k \<Longrightarrow> bit (store_le k x ! i) j \<longleftrightarrow> j < 8 \<and> bit x (8 * i + j)"
  by (auto simp: store_le_def bit_simps)

lemma bit_load_le:
  "bit (load_le bs :: 'a::len word) n \<longleftrightarrow>
     n < LENGTH('a) \<and> n div 8 < length bs \<and> bit (bs ! (n div 8)) (n mod 8)"
proof (induction bs arbitrary: n)
  case Nil
  then show ?case by simp
next
  case (Cons b bs)
  show ?case
  proof (cases "n < 8")
    case True
    then show ?thesis by (auto simp: bit_simps)
  next
    case False
    then obtain m where n: "n = m + 8"
      by (metis add.commute le_add_diff_inverse not_less)
    have "\<not> bit b (m + 8)"
      by (simp add: bit_word.rep_eq)
    moreover have "(m + 8) div 8 = Suc (m div 8)"
      by simp
    ultimately show ?thesis
      using Cons.IH [of m] by (auto simp: n bit_simps)
  qed
qed

lemma load_store_le:
  "LENGTH('a) = 8 * k \<Longrightarrow> load_le (store_le k x) = (x :: 'a::len word)"
  by (rule bit_word_eqI) (auto simp: bit_load_le bit_store_le)

lemma store_load_le:
  assumes "length bs = k" and "LENGTH('a) = 8 * k"
  shows "store_le k (load_le bs :: 'a::len word) = bs"
proof (rule nth_equalityI)
  show "length (store_le k (load_le bs :: 'a word)) = length bs"
    using assms by simp
next
  fix i
  assume "i < length (store_le k (load_le bs :: 'a word))"
  then have i: "i < k" by simp
  show "store_le k (load_le bs :: 'a word) ! i = bs ! i"
    by (rule bit_word_eqI) (use assms i in \<open>auto simp: bit_store_le bit_load_le\<close>)
qed

section \<open>Conversions\<close>

definition byte_swap :: "nat \<Rightarrow> 'a::len word \<Rightarrow> 'a word" where
  "byte_swap k x = load_le (rev (store_le k x))"

definition hton16 :: "u16 \<Rightarrow> u16" where
  "hton16 x = byte_swap 2 x"

definition hton32 :: "u32 \<Rightarrow> u32" where
  "hton32 x = byte_swap 4 x"

definition hton64 :: "u64 \<Rightarrow> u64" where
  "hton64 x = byte_swap 8 x"

definition ntoh16 :: "u16 \<Rightarrow> u16" where
  "ntoh16 x = byte_swap 2 x"

definition ntoh32 :: "u32 \<Rightarrow> u32" where
  "ntoh32 x = byte_swap 4 x"

definition ntoh64 :: "u64 \<Rightarrow> u64" where
  "ntoh64 x = byte_swap 8 x"

lemma byte_swap_swap:
  "LENGTH('a) = 8 * k \<Longrightarrow> byte_swap k (byte_swap k x) = (x :: 'a::len word)"
  by (simp add: byte_swap_def store_load_le load_store_le)

text \<open>A value converted to network order lies in memory most significant byte first.\<close>

lemma store_byte_swap:
  "LENGTH('a) = 8 * k \<Longrightarrow> store_le k (byte_swap k (x :: 'a::len word)) = rev (store_le k x)"
  by (simp add: byte_swap_def store_load_le)

section \<open>The contract of a conversion pair\<close>

locale byte_order =
  fixes hton :: "'a::len word \<Rightarrow> 'a word"
    and ntoh :: "'a word \<Rightarrow> 'a word"
  assumes ntoh_hton: "ntoh (hton x) = x"
    and hton_ntoh: "hton (ntoh x) = x"
begin

lemma hton_inject: "hton x = hton y \<longleftrightarrow> x = y"
  by (metis ntoh_hton)

lemma ntoh_eq_iff: "ntoh x = y \<longleftrightarrow> x = hton y"
  by (metis ntoh_hton hton_ntoh)

end

interpretation net16: byte_order hton16 ntoh16
  by unfold_locales (simp_all add: hton16_def ntoh16_def byte_swap_swap)

interpretation net32: byte_order hton32 ntoh32
  by unfold_locales (simp_all add: hton32_def ntoh32_def byte_swap_swap)

interpretation net64: byte_order hton64 ntoh64
  by unfold_locales (simp_all add: hton64_def ntoh64_def byte_swap_swap)

end
