(* ===== verification/VecBuffer.thy ===== *)
theory VecBuffer
  imports Endian
begin

text \<open>
  \<^verbatim>\<open>include/VecBuffer.hpp\<close>. A \<open>VecBuffer\<close> is a window (\<open>_offset\<close>, \<open>_len\<close>) on
  a \<open>vector<char>\<close> that it shares through \<open>shared_ptr\<close>: \<open>split\<close> hands out a second
  window on the same vector. Both the vectors and the buffer objects live in an explicit
  store (\<open>mem\<close>), an object's address being its index, so that aliasing is visible.
\<close>

section \<open>State\<close>

record vecbuffer =
  vb_offset :: nat   \<comment> \<open>\<open>off_t _offset\<close>\<close>
  vb_len :: nat      \<comment> \<open>\<open>size_t _len\<close>\<close>
  vb_buffer :: nat   \<comment> \<open>\<open>SpVecData _buffer\<close>, the address of the shared vector\<close>

record mem =
  vecs :: "byte list list"
  bufs :: "vecbuffer list"

abbreviation vb :: "mem \<Rightarrow> nat \<Rightarrow> vecbuffer" where
  "vb m p \<equiv> bufs m ! p"

abbreviation data_of :: "mem \<Rightarrow> nat \<Rightarrow> byte list" where
  "data_of m p \<equiv> vecs m ! vb_buffer (vb m p)"

definition put_vb :: "mem \<Rightarrow> nat \<Rightarrow> vecbuffer \<Rightarrow> mem" where
  "put_vb m p b = m\<lparr>bufs := (bufs m)[p := b]\<rparr>"

definition put_vec :: "mem \<Rightarrow> nat \<Rightarrow> byte list \<Rightarrow> mem" where
  "put_vec m a v = m\<lparr>vecs := (vecs m)[a := v]\<rparr>"

text \<open>\<open>vector<char>::max_size()\<close>; \<open>resize\<close> and the constructor throw beyond it.\<close>

definition max_vec :: nat where
  "max_vec = 9223372036854775807"

definition resize_vec :: "mem \<Rightarrow> nat \<Rightarrow> nat \<Rightarrow> mem res" where
  "resize_vec m a n =
     (if n \<le> max_vec
      then Inr (put_vec m a (take n (vecs m ! a) @ replicate (n - length (vecs m ! a)) 0))
      else Inl LengthError)"

text \<open>\<open>memcpy\<close> from and to a vector, at an index.\<close>

definition mem_read :: "mem \<Rightarrow> nat \<Rightarrow> nat \<Rightarrow> nat \<Rightarrow> byte list res" where
  "mem_read m a pos n =
     (if pos + n \<le> length (vecs m ! a) then Inr (take n (drop pos (vecs m ! a)))
      else Inl OutOfBounds)"

definition mem_write :: "mem \<Rightarrow> nat \<Rightarrow> nat \<Rightarrow> byte list \<Rightarrow> mem res" where
  "mem_write m a pos bs =
     (if pos + length bs \<le> length (vecs m ! a)
      then Inr (put_vec m a (take pos (vecs m ! a) @ bs @ drop (pos + length bs) (vecs m ! a)))
      else Inl OutOfBounds)"

section \<open>Operations\<close>

definition new_VecBuffer :: "mem \<Rightarrow> nat \<Rightarrow> (mem \<times> nat) res" where
  "new_VecBuffer m sz =
     (if sz \<le> max_vec
      then Inr (m\<lparr>vecs := vecs m @ [replicate sz 0],
                  bufs := bufs m @ [\<lparr>vb_offset = 0, vb_len = 0, vb_buffer = length (vecs m)\<rparr>]\<rparr>,
                length (bufs m))
      else Inl LengthError)"

definition new_VecBuffer_from :: "mem \<Rightarrow> nat \<Rightarrow> nat \<Rightarrow> nat \<Rightarrow> (mem \<times> nat) res" where
  "new_VecBuffer_from m buffer offset len =
     assert_then (sz_add offset len \<le> length (vecs m ! buffer))
       (Inr (m\<lparr>bufs := bufs m @ [\<lparr>vb_offset = offset, vb_len = len, vb_buffer = buffer\<rparr>]\<rparr>,
             length (bufs m)))"

definition writtableSize :: "mem \<Rightarrow> nat \<Rightarrow> nat" where
  "writtableSize m p =
     sz_sub (length (data_of m p)) (sz_add (vb_offset (vb m p)) (vb_len (vb m p)))"

definition readableSize :: "mem \<Rightarrow> nat \<Rightarrow> nat" where
  "readableSize m p = vb_len (vb m p)"

definition getOffset :: "mem \<Rightarrow> nat \<Rightarrow> nat" where
  "getOffset m p = vb_offset (vb m p)"

definition fixPrepend :: "mem \<Rightarrow> nat \<Rightarrow> mem" where
  "fixPrepend m p =
     put_vb m p ((vb m p)\<lparr>vb_len := sz_add (vb_len (vb m p)) (vb_offset (vb m p)), vb_offset := 0\<rparr>)"

text \<open>Pointers into the vector are indices.\<close>

definition writtablePtr :: "mem \<Rightarrow> nat \<Rightarrow> nat" where
  "writtablePtr m p = vb_offset (vb m p) + vb_len (vb m p)"

definition readablePtr :: "mem \<Rightarrow> nat \<Rightarrow> nat" where
  "readablePtr m p = vb_offset (vb m p)"

definition markRead :: "mem \<Rightarrow> nat \<Rightarrow> nat \<Rightarrow> mem res" where
  "markRead m p sz =
     assert_then (sz \<le> readableSize m p)
       (Inr (put_vb m p ((vb m p)\<lparr>vb_offset := sz_add (vb_offset (vb m p)) sz,
                                  vb_len := sz_sub (vb_len (vb m p)) sz\<rparr>)))"

definition markWrite :: "mem \<Rightarrow> nat \<Rightarrow> nat \<Rightarrow> mem res" where
  "markWrite m p sz =
     assert_then (sz \<le> writtableSize m p)
       (Inr (put_vb m p ((vb m p)\<lparr>vb_len := sz_add (vb_len (vb m p)) sz\<rparr>)))"

definition capacity :: "mem \<Rightarrow> nat \<Rightarrow> nat" where
  "capacity m p = length (data_of m p)"

definition enlarge :: "mem \<Rightarrow> nat \<Rightarrow> nat \<Rightarrow> mem res" where
  "enlarge m p sz = resize_vec m (vb_buffer (vb m p)) (sz_add (length (data_of m p)) sz)"

definition ensure :: "mem \<Rightarrow> nat \<Rightarrow> nat \<Rightarrow> mem res" where
  "ensure m p sz =
     (if sz_add sz (vb_offset (vb m p)) > length (data_of m p)
      then resize_vec m (vb_buffer (vb m p)) (sz_add sz (vb_offset (vb m p)))
      else Inr m)"

definition peekInt8 :: "mem \<Rightarrow> nat \<Rightarrow> u8 res" where
  "peekInt8 m p =
     assert_then (readableSize m p \<ge> 1)
       (bind_res (mem_read m (vb_buffer (vb m p)) (readablePtr m p) 1) (\<lambda>bs. Inr (load_le bs)))"

definition peekInt16 :: "mem \<Rightarrow> nat \<Rightarrow> u16 res" where
  "peekInt16 m p =
     assert_then (readableSize m p \<ge> 2)
       (bind_res (mem_read m (vb_buffer (vb m p)) (readablePtr m p) 2)
          (\<lambda>bs. Inr (ntoh16 (load_le bs))))"

definition peekInt32 :: "mem \<Rightarrow> nat \<Rightarrow> u32 res" where
  "peekInt32 m p =
     assert_then (readableSize m p \<ge> 4)
       (bind_res (mem_read m (vb_buffer (vb m p)) (readablePtr m p) 4)
          (\<lambda>bs. Inr (ntoh32 (load_le bs))))"

definition readInt8 :: "mem \<Rightarrow> nat \<Rightarrow> (mem \<times> u8) res" where
  "readInt8 m p =
     bind_res (peekInt8 m p) (\<lambda>x. bind_res (markRead m p 1) (\<lambda>m'. Inr (m', x)))"

definition readInt16 :: "mem \<Rightarrow> nat \<Rightarrow> (mem \<times> u16) res" where
  "readInt16 m p =
     bind_res (peekInt16 m p) (\<lambda>x. bind_res (markRead m p 2) (\<lambda>m'. Inr (m', x)))"

definition readint32 :: "mem \<Rightarrow> nat \<Rightarrow> (mem \<times> u32) res" where
  "readint32 m p =
     bind_res (peekInt32 m p) (\<lambda>x. bind_res (markRead m p 4) (\<lambda>m'. Inr (m', x)))"

definition split_buf :: "mem \<Rightarrow> nat \<Rightarrow> nat \<Rightarrow> (mem \<times> nat option) res" where
  "split_buf m p sz =
     (if vb_len (vb m p) \<ge> sz
      then bind_res (new_VecBuffer_from m (vb_buffer (vb m p)) (vb_offset (vb m p)) sz)
             (\<lambda>(m1, q). bind_res (markRead m1 p sz) (\<lambda>m2. Inr (m2, Some q)))
      else Inr (m, None))"

text \<open>
  The idiom every writer of the library uses: copy bytes to \<open>writtablePtr()\<close>, then
  \<open>markWrite\<close> their number (\<^verbatim>\<open>FieldLenNetPack.hpp\<close> 238-239 and 264-265).
\<close>

definition append_bytes :: "mem \<Rightarrow> nat \<Rightarrow> byte list \<Rightarrow> mem res" where
  "append_bytes m p bs =
     bind_res (mem_write m (vb_buffer (vb m p)) (writtablePtr m p) bs)
       (\<lambda>m'. markWrite m' p (length bs))"

section \<open>What a buffer holds, and when it is well formed\<close>

definition readable :: "mem \<Rightarrow> nat \<Rightarrow> byte list" where
  "readable m p = take (vb_len (vb m p)) (drop (vb_offset (vb m p)) (data_of m p))"

definition vb_ok :: "mem \<Rightarrow> vecbuffer \<Rightarrow> bool" where
  "vb_ok m b \<longleftrightarrow> vb_buffer b < length (vecs m)
     \<and> vb_offset b + vb_len b \<le> length (vecs m ! vb_buffer b)"

definition mem_ok :: "mem \<Rightarrow> bool" where
  "mem_ok m \<longleftrightarrow> (\<forall>b \<in> set (bufs m). vb_ok m b) \<and> (\<forall>v \<in> set (vecs m). length v \<le> max_vec)"

definition valid :: "mem \<Rightarrow> nat \<Rightarrow> bool" where
  "valid m p \<longleftrightarrow> mem_ok m \<and> p < length (bufs m)"


section \<open>Operations on well-formed stores\<close>

lemma valid_bounds:
  assumes "valid m p"
  shows "vb_buffer (vb m p) < length (vecs m)"
    and "vb_offset (vb m p) + vb_len (vb m p) \<le> length (data_of m p)"
    and "length (data_of m p) \<le> max_vec"
  using assms by (auto simp: valid_def mem_ok_def vb_ok_def)

lemma valid_two64:
  assumes "valid m p"
  shows "vb_offset (vb m p) + vb_len (vb m p) < two64" and "length (data_of m p) < two64"
  using valid_bounds [OF assms] by (auto simp: max_vec_def)

lemma length_readable [simp]: "valid m p \<Longrightarrow> length (readable m p) = vb_len (vb m p)"
  using valid_bounds(2) [of m p] by (simp add: readable_def)

lemma writtableSize_eq:
  "valid m p \<Longrightarrow>
    writtableSize m p = length (data_of m p) - (vb_offset (vb m p) + vb_len (vb m p))"
  using valid_bounds(2) [of m p] valid_two64 [of m p] by (simp add: writtableSize_def)

lemma put_vb_simps [simp]:
  "vecs (put_vb m p b) = vecs m"
  "bufs (put_vb m p b) = (bufs m)[p := b]"
  "vecs (put_vec m a v) = (vecs m)[a := v]"
  "bufs (put_vec m a v) = bufs m"
  by (simp_all add: put_vb_def put_vec_def)

text \<open>The two shapes of update: a new window on unchanged vectors, new contents of a vector.\<close>

lemma mem_ok_put_vb:
  assumes "mem_ok m" and "vb_ok m b"
  shows "mem_ok (put_vb m p b)"
proof -
  have "vb_ok (put_vb m p b) c" if "c \<in> set ((bufs m)[p := b])" for c
  proof -
    from that have "c \<in> insert b (set (bufs m))"
      using set_update_subset_insert by fastforce
    with assms show ?thesis by (auto simp: mem_ok_def vb_ok_def)
  qed
  with assms(1) show ?thesis by (simp add: mem_ok_def)
qed

lemma mem_ok_put_vec:
  assumes "mem_ok m" and "length (vecs m ! a) \<le> length v" and "length v \<le> max_vec"
  shows "mem_ok (put_vec m a v)"
proof -
  have "length ((vecs m)[a := v] ! c) \<ge> length (vecs m ! c)" if "c < length (vecs m)" for c
    using assms(2) that by (cases "c = a") auto
  then have "vb_ok (put_vec m a v) b" if "b \<in> set (bufs m)" for b
    using assms(1) that by (fastforce simp: mem_ok_def vb_ok_def intro: order.trans)
  moreover have "length w \<le> max_vec" if "w \<in> set ((vecs m)[a := v])" for w
  proof -
    from that have "w \<in> insert v (set (vecs m))"
      using set_update_subset_insert by fastforce
    with assms show ?thesis by (auto simp: mem_ok_def)
  qed
  ultimately show ?thesis by (simp add: mem_ok_def)
qed

lemma valid_put_vb [simp]:
  "valid m q \<Longrightarrow> vb_ok m b \<Longrightarrow> valid (put_vb m p b) q"
  by (simp add: valid_def mem_ok_put_vb)

lemma valid_put_vec [simp]:
  "valid m q \<Longrightarrow> length (vecs m ! a) \<le> length v \<Longrightarrow> length v \<le> max_vec
    \<Longrightarrow> valid (put_vec m a v) q"
  by (simp add: valid_def mem_ok_put_vec)

subsection \<open>Reading\<close>

lemma markRead_eq:
  assumes "valid m p"
  shows "markRead m p n =
    (if n \<le> vb_len (vb m p)
     then Inr (put_vb m p ((vb m p)\<lparr>vb_offset := vb_offset (vb m p) + n,
                                   vb_len := vb_len (vb m p) - n\<rparr>))
     else Inl AssertFail)"
  using valid_two64 [OF assms] by (simp add: markRead_def readableSize_def)

lemma vb_ok_window:
  assumes "valid m p" and "vb_offset (vb m p) \<le> off"
    and "off + len \<le> length (data_of m p)"
  shows "vb_ok m ((vb m p)\<lparr>vb_offset := off, vb_len := len\<rparr>)"
  using assms valid_bounds(1) [OF assms(1)] by (simp add: vb_ok_def)

lemma markRead_valid:
  assumes "valid m p" and "markRead m p n = Inr m'" and "valid m q"
  shows "valid m' q"
proof -
  have "vb_ok m ((vb m p)\<lparr>vb_offset := vb_offset (vb m p) + n, vb_len := vb_len (vb m p) - n\<rparr>)"
    if "n \<le> vb_len (vb m p)"
    using valid_bounds [OF assms(1)] that by (simp add: vb_ok_def)
  with assms show ?thesis
    by (auto simp: markRead_eq split: if_splits)
qed

lemma markRead_readable:
  assumes "valid m p" and "markRead m p n = Inr m'"
  shows "readable m' p = drop n (readable m p)"
proof -
  from assms(1) have "p < length (bufs m)" by (simp add: valid_def)
  with assms show ?thesis
    by (auto simp: markRead_eq readable_def drop_take add.commute split: if_splits)
qed

lemma readable_put_vb_other [simp]: "q \<noteq> p \<Longrightarrow> readable (put_vb m p b) q = readable m q"
  by (simp add: readable_def)

subsection \<open>Writing\<close>

text \<open>
  Two windows are apart when bytes written behind the first cannot be bytes of the second:
  they are windows of different vectors, or the second ends where the first one's free room
  begins, or earlier.
\<close>

definition apart :: "mem \<Rightarrow> nat \<Rightarrow> nat \<Rightarrow> bool" where
  "apart m p q \<longleftrightarrow> vb_buffer (vb m q) = vb_buffer (vb m p) \<longrightarrow>
     vb_offset (vb m q) + vb_len (vb m q) \<le> vb_offset (vb m p) + vb_len (vb m p)"

lemma append_bytes_eq:
  assumes "valid m p"
  shows "append_bytes m p bs =
    (if length bs \<le> writtableSize m p
     then Inr (put_vb (put_vec m (vb_buffer (vb m p))
                 (take (writtablePtr m p) (data_of m p) @ bs
                   @ drop (writtablePtr m p + length bs) (data_of m p)))
               p ((vb m p)\<lparr>vb_len := vb_len (vb m p) + length bs\<rparr>))
     else Inl OutOfBounds)"
proof (cases "length bs \<le> writtableSize m p")
  case True
  note b = valid_bounds [OF assms] valid_two64 [OF assms]
  from True b(2) have fits: "writtablePtr m p + length bs \<le> length (data_of m p)"
    by (simp add: writtableSize_eq [OF assms] writtablePtr_def)
  let ?v = "take (writtablePtr m p) (data_of m p) @ bs
                   @ drop (writtablePtr m p + length bs) (data_of m p)"
  let ?m = "put_vec m (vb_buffer (vb m p)) ?v"
  have len: "length ?v = length (data_of m p)" using fits by simp
  from assms b len have "valid ?m p" by simp
  then have "writtableSize ?m p = writtableSize m p"
    using b(1) len by (simp add: writtableSize_eq [OF assms] writtableSize_eq)
  with True fits b show ?thesis
    by (simp add: append_bytes_def mem_write_def markWrite_def writtablePtr_def)
next
  case False
  with valid_bounds(2) [OF assms]
  have "\<not> writtablePtr m p + length bs \<le> length (data_of m p)"
    by (simp add: writtableSize_eq [OF assms] writtablePtr_def)
  with False show ?thesis
    by (simp add: append_bytes_def mem_write_def)
qed

lemma append_bytes_valid:
  assumes "valid m p" and "append_bytes m p bs = Inr m'" and "valid m q"
  shows "valid m' q"
proof -
  note b = valid_bounds [OF assms(1)]
  from assms(1,2) have fits: "length bs \<le> writtableSize m p"
    by (simp add: append_bytes_eq split: if_splits)
  with b(2) have fits': "writtablePtr m p + length bs \<le> length (data_of m p)"
    by (simp add: writtableSize_eq [OF assms(1)] writtablePtr_def)
  let ?m = "put_vec m (vb_buffer (vb m p))
      (take (writtablePtr m p) (data_of m p) @ bs
        @ drop (writtablePtr m p + length bs) (data_of m p))"
  have "valid ?m q" using assms(3) b(3) fits' by simp
  moreover have "vb_ok ?m ((vb m p)\<lparr>vb_len := vb_len (vb m p) + length bs\<rparr>)"
    using b fits' by (simp add: vb_ok_def writtablePtr_def)
  ultimately show ?thesis
    using assms(1,2) fits by (auto simp: append_bytes_eq)
qed

lemma append_bytes_readable:
  assumes "valid m p" and "append_bytes m p bs = Inr m'"
  shows "readable m' p = readable m p @ bs"
proof -
  note b = valid_bounds [OF assms(1)]
  from assms(1,2) have fits: "length bs \<le> writtableSize m p"
    by (simp add: append_bytes_eq split: if_splits)
  from assms(1) have "p < length (bufs m)" by (simp add: valid_def)
  with assms fits b show ?thesis
    by (auto simp: append_bytes_eq readable_def writtablePtr_def drop_take)
qed

lemma take_drop_prefix:
  "off + len \<le> w \<Longrightarrow> w \<le> length xs \<Longrightarrow> take len (drop off (take w xs @ ys)) = take len (drop off xs)"
  by (simp add: drop_take)

lemma readable_put_vec:
  "a < length (vecs m) \<Longrightarrow> readable (put_vec m a v) q =
    (if vb_buffer (vb m q) = a then take (vb_len (vb m q)) (drop (vb_offset (vb m q)) v)
     else readable m q)"
  by (simp add: readable_def)

lemma append_bytes_apart:
  assumes "valid m p" and "append_bytes m p bs = Inr m'" and "q \<noteq> p" and "apart m p q"
    and "valid m q"
  shows "readable m' q = readable m q"
proof -
  note b = valid_bounds [OF assms(1)]
  note c = valid_bounds [OF assms(5)]
  from assms(1,2) have m': "readable m' q = readable (put_vec m (vb_buffer (vb m p))
      (take (writtablePtr m p) (data_of m p) @ bs
        @ drop (writtablePtr m p + length bs) (data_of m p))) q"
    using assms(3) by (auto simp: append_bytes_eq split: if_splits)
  have "writtablePtr m p \<le> length (data_of m p)"
    using b(2) by (simp add: writtablePtr_def)
  moreover have "vb_offset (vb m q) + vb_len (vb m q) \<le> writtablePtr m p"
    if "vb_buffer (vb m q) = vb_buffer (vb m p)"
    using that assms(4) by (simp add: apart_def writtablePtr_def)
  ultimately show ?thesis
    unfolding m' readable_put_vec [OF b(1)]
    by (cases "vb_buffer (vb m q) = vb_buffer (vb m p)")
      (simp_all add: take_drop_prefix readable_def del: take_append drop_append)
qed

subsection \<open>Growing\<close>

lemma resize_grow:
  assumes "valid m p" and "length (data_of m p) \<le> n"
    and "resize_vec m (vb_buffer (vb m p)) n = Inr m'" and "valid m q"
  shows "valid m' q" and "readable m' q = readable m q" and "bufs m' = bufs m"
    and "vecs m' = (vecs m)[vb_buffer (vb m p) :=
           data_of m p @ replicate (n - length (data_of m p)) 0]"
proof -
  let ?v = "data_of m p @ replicate (n - length (data_of m p)) 0"
  from assms(2,3) have m': "m' = put_vec m (vb_buffer (vb m p)) ?v" and n: "n \<le> max_vec"
    by (auto simp: resize_vec_def split: if_splits)
  from assms(2,4) n show "valid m' q" by (simp add: m')
  show "bufs m' = bufs m" and "vecs m' = (vecs m)[vb_buffer (vb m p) := ?v]"
    by (simp_all add: m')
  show "readable m' q = readable m q"
    unfolding m' readable_put_vec [OF valid_bounds(1) [OF assms(1)]]
    using valid_bounds(2) [OF assms(4)] by (auto simp: readable_def)
qed

lemma enlarge_Inr:
  assumes "valid m p" and "enlarge m p n = Inr m'" and "n < two64 - max_vec" and "valid m q"
  shows "valid m' q" and "readable m' q = readable m q" and "bufs m' = bufs m"
    and "length (data_of m' p) = length (data_of m p) + n"
proof -
  from valid_bounds(3) [OF assms(1)] assms(3)
  have "sz_add (length (data_of m p)) n = length (data_of m p) + n"
    by simp
  with assms(2) have r: "resize_vec m (vb_buffer (vb m p)) (length (data_of m p) + n) = Inr m'"
    by (simp add: enlarge_def)
  note g = resize_grow [OF assms(1) _ r assms(4), simplified]
  show "valid m' q" and "readable m' q = readable m q" and "bufs m' = bufs m"
    by (rule g)+
  show "length (data_of m' p) = length (data_of m p) + n"
    using g valid_bounds(1) [OF assms(1)] by simp
qed

lemma ensure_Inr:
  assumes "valid m p" and "ensure m p n = Inr m'" and "valid m q"
  shows "valid m' q" and "readable m' q = readable m q" and "bufs m' = bufs m"
    and "sz_add n (vb_offset (vb m p)) \<le> length (data_of m' p)"
    and "length (data_of m p) \<le> length (data_of m' p)"
proof -
  let ?n = "sz_add n (vb_offset (vb m p))"
  have "valid m' q \<and> readable m' q = readable m q \<and> bufs m' = bufs m
    \<and> ?n \<le> length (data_of m' p) \<and> length (data_of m p) \<le> length (data_of m' p)"
  proof (cases "?n > length (data_of m p)")
    case True
    with assms(2) have r: "resize_vec m (vb_buffer (vb m p)) ?n = Inr m'"
      by (simp add: ensure_def)
    from True have le: "length (data_of m p) \<le> ?n" by simp
    from resize_grow [OF assms(1) le r assms(3)] valid_bounds(1) [OF assms(1)] le
    show ?thesis by simp
  next
    case False
    with assms show ?thesis by (simp add: ensure_def)
  qed
  then show "valid m' q" and "readable m' q = readable m q" and "bufs m' = bufs m"
    and "?n \<le> length (data_of m' p)" and "length (data_of m p) \<le> length (data_of m' p)"
    by blast+
qed

lemma ensure_length:
  assumes "valid m p" and "ensure m p n = Inr m'"
  shows "length (data_of m' p) \<le> max (length (data_of m p)) (n + vb_offset (vb m p))"
proof (cases "sz_add n (vb_offset (vb m p)) > length (data_of m p)")
  case True
  with assms(2) have r: "resize_vec m (vb_buffer (vb m p)) (sz_add n (vb_offset (vb m p))) = Inr m'"
    by (simp add: ensure_def)
  from True have le: "length (data_of m p) \<le> sz_add n (vb_offset (vb m p))" by simp
  have "sz_add n (vb_offset (vb m p)) \<le> n + vb_offset (vb m p)" by (simp add: sz_add_def)
  with resize_grow [OF assms(1) le r assms(1)] valid_bounds(1) [OF assms(1)] le True
  show ?thesis by simp
next
  case False
  with assms show ?thesis by (simp add: ensure_def)
qed

subsection \<open>Splitting\<close>

lemma split_buf_eq:
  assumes "valid m p"
  shows "split_buf m p n =
    (if n \<le> vb_len (vb m p)
     then Inr (m\<lparr>bufs := (bufs m)[p := (vb m p)\<lparr>vb_offset := vb_offset (vb m p) + n,
                                            vb_len := vb_len (vb m p) - n\<rparr>]
                 @ [\<lparr>vb_offset = vb_offset (vb m p), vb_len = n, vb_buffer = vb_buffer (vb m p)\<rparr>]\<rparr>,
               Some (length (bufs m)))
     else Inr (m, None))"
proof (cases "n \<le> vb_len (vb m p)")
  case True
  from assms have p: "p < length (bufs m)" by (simp add: valid_def)
  with True valid_bounds(2) [OF assms] valid_two64 [OF assms] show ?thesis
    by (simp add: split_buf_def new_VecBuffer_from_def markRead_def readableSize_def put_vb_def
        nth_append list_update_append)
next
  case False
  then show ?thesis by (simp add: split_buf_def)
qed

lemma split_buf_cases:
  assumes "valid m p"
  obtains (split) m' where "n \<le> vb_len (vb m p)" "split_buf m p n = Inr (m', Some (length (bufs m)))"
  | (short) "vb_len (vb m p) < n" "split_buf m p n = Inr (m, None)"
  using assms by (cases "n \<le> vb_len (vb m p)") (auto simp: split_buf_eq)

lemma split_buf_Some:
  assumes "valid m p" and "split_buf m p n = Inr (m', Some q)"
  shows "n \<le> vb_len (vb m p)" and "q = length (bufs m)" and "valid m' q"
    and "readable m' q = take n (readable m p)"
    and "readable m' p = drop n (readable m p)"
    and "apart m' p q" and "vecs m' = vecs m"
    and "length (bufs m') = Suc (length (bufs m))"
    and "vb m' p = (vb m p)\<lparr>vb_offset := vb_offset (vb m p) + n, vb_len := vb_len (vb m p) - n\<rparr>"
proof -
  note b = valid_bounds [OF assms(1)]
  from assms(1) have p: "p < length (bufs m)" by (simp add: valid_def)
  from assms show n: "n \<le> vb_len (vb m p)" and q: "q = length (bufs m)"
    by (auto simp: split_buf_eq split: if_splits)
  let ?b = "(vb m p)\<lparr>vb_offset := vb_offset (vb m p) + n, vb_len := vb_len (vb m p) - n\<rparr>"
  let ?c = "\<lparr>vb_offset = vb_offset (vb m p), vb_len = n, vb_buffer = vb_buffer (vb m p)\<rparr>"
  from assms n have m': "m' = m\<lparr>bufs := (bufs m)[p := ?b] @ [?c]\<rparr>"
    by (simp add: split_buf_eq)
  have "vb_ok m ?b" and "vb_ok m ?c"
    using b n by (simp_all add: vb_ok_def)
  moreover have "set ((bufs m)[p := ?b] @ [?c]) \<subseteq> insert ?b (insert ?c (set (bufs m)))"
    using set_update_subset_insert by fastforce
  ultimately have "\<forall>x \<in> set (bufs m'). vb_ok m' x"
    using assms(1) m' by (fastforce simp: valid_def mem_ok_def vb_ok_def)
  with assms(1) m' q show "valid m' q" by (simp add: valid_def mem_ok_def)
  from p q m' n show "readable m' q = take n (readable m p)"
    by (simp add: readable_def nth_append)
  from p m' n show "readable m' p = drop n (readable m p)"
    by (simp add: readable_def nth_append drop_take add.commute)
  from p q m' n show "apart m' p q" by (simp add: apart_def nth_append)
  from m' show "vecs m' = vecs m" and "length (bufs m') = Suc (length (bufs m))" by simp_all
  from m' p show "vb m' p = ?b" by (simp add: nth_append)
qed

lemma split_buf_other:
  assumes "valid m p" and "split_buf m p n = Inr (m', Some q)" and "valid m r"
  shows "valid m' r" and "r \<noteq> p \<Longrightarrow> vb m' r = vb m r"
    and "r \<noteq> p \<Longrightarrow> readable m' r = readable m r"
proof -
  from split_buf_Some [OF assms(1,2)] assms(3) show "valid m' r"
    by (simp add: valid_def)
  from assms(3) have r: "r < length (bufs m)" by (simp add: valid_def)
  assume "r \<noteq> p"
  with r assms(1,2) show "vb m' r = vb m r"
    by (auto simp: split_buf_eq nth_append split: if_splits)
  with split_buf_Some(7) [OF assms(1,2)] show "readable m' r = readable m r"
    by (simp add: readable_def)
qed

subsection \<open>Peeking\<close>

lemma mem_read_readable:
  assumes "valid m p" and "n \<le> vb_len (vb m p)"
  shows "mem_read m (vb_buffer (vb m p)) (readablePtr m p) n = Inr (take n (readable m p))"
  using valid_bounds(2) [OF assms(1)] assms(2)
  by (simp add: mem_read_def readablePtr_def readable_def min_def)

lemma peekInt16_eq:
  "valid m p \<Longrightarrow> peekInt16 m p =
    (if 2 \<le> vb_len (vb m p) then Inr (ntoh16 (load_le (take 2 (readable m p)))) else Inl AssertFail)"
  by (simp add: peekInt16_def readableSize_def mem_read_readable)

lemma peekInt32_eq:
  "valid m p \<Longrightarrow> peekInt32 m p =
    (if 4 \<le> vb_len (vb m p) then Inr (ntoh32 (load_le (take 4 (readable m p)))) else Inl AssertFail)"
  by (simp add: peekInt32_def readableSize_def mem_read_readable)

lemma peekInt8_eq:
  "valid m p \<Longrightarrow> peekInt8 m p =
    (if 1 \<le> vb_len (vb m p) then Inr (load_le (take 1 (readable m p))) else Inl AssertFail)"
  by (simp add: peekInt8_def readableSize_def mem_read_readable)

subsection \<open>Creation\<close>

lemma new_VecBuffer_Inr:
  assumes "mem_ok m" and "new_VecBuffer m n = Inr (m', q)"
  shows "valid m' q" and "q = length (bufs m)" and "readable m' q = []"
    and "writtableSize m' q = n" and "vecs m' = vecs m @ [replicate n 0]"
    and "bufs m' = bufs m @ [\<lparr>vb_offset = 0, vb_len = 0, vb_buffer = length (vecs m)\<rparr>]"
proof -
  from assms(2) have n: "n \<le> max_vec"
    and v: "vecs m' = vecs m @ [replicate n 0]"
    and b: "bufs m' = bufs m @ [\<lparr>vb_offset = 0, vb_len = 0, vb_buffer = length (vecs m)\<rparr>]"
    and q: "q = length (bufs m)"
    by (auto simp: new_VecBuffer_def split: if_splits)
  from v b q show "q = length (bufs m)" and "vecs m' = vecs m @ [replicate n 0]"
    and "bufs m' = bufs m @ [\<lparr>vb_offset = 0, vb_len = 0, vb_buffer = length (vecs m)\<rparr>]"
    and "readable m' q = []"
    by (simp_all add: readable_def)
  from assms(1) v b n show "valid m' q"
    by (auto simp: valid_def mem_ok_def vb_ok_def nth_append q)
  then show "writtableSize m' q = n"
    by (simp add: writtableSize_eq v b q)
qed

lemma new_VecBuffer_other:
  assumes "new_VecBuffer m n = Inr (m', q)" and "valid m r"
  shows "valid m' r" and "vb m' r = vb m r" and "readable m' r = readable m r" and "r \<noteq> q"
proof -
  from assms have "mem_ok m" and r: "r < length (bufs m)" by (simp_all add: valid_def)
  from new_VecBuffer_Inr [OF this(1) assms(1)] r valid_bounds(1) [OF assms(2)]
  show "valid m' r" and "vb m' r = vb m r" and "readable m' r = readable m r" and "r \<noteq> q"
    by (simp_all add: valid_def readable_def nth_append)
qed

lemma valid_vb_ok: "valid m p \<Longrightarrow> vb_ok m (vb m p)"
  by (auto simp: valid_def mem_ok_def)

lemma fixPrepend_eq:
  "valid m p \<Longrightarrow> fixPrepend m p =
    put_vb m p ((vb m p)\<lparr>vb_len := vb_offset (vb m p) + vb_len (vb m p), vb_offset := 0\<rparr>)"
  using valid_two64 [of m p] by (simp add: fixPrepend_def add.commute)

lemma fixPrepend_valid: "valid m p \<Longrightarrow> valid m q \<Longrightarrow> valid (fixPrepend m p) q"
  using valid_vb_ok [of m p] by (auto simp: fixPrepend_eq vb_ok_def)

section \<open>Histories of a buffer\<close>

datatype vb_op =
    Append "byte list"
  | Mark_read nat
  | Enlarge nat
  | Ensure nat
  | Fix_prepend
  | Split nat

fun run_op :: "mem \<Rightarrow> nat \<Rightarrow> vb_op \<Rightarrow> mem res" where
  "run_op m p (Append bs) = append_bytes m p bs"
| "run_op m p (Mark_read n) = markRead m p n"
| "run_op m p (Enlarge n) = enlarge m p n"
| "run_op m p (Ensure n) = ensure m p n"
| "run_op m p Fix_prepend = Inr (fixPrepend m p)"
| "run_op m p (Split n) = bind_res (split_buf m p n) (\<lambda>(m', _). Inr m')"

fun run_ops :: "mem \<Rightarrow> nat \<Rightarrow> vb_op list \<Rightarrow> mem res" where
  "run_ops m p [] = Inr m"
| "run_ops m p (x # xs) = bind_res (run_op m p x) (\<lambda>m'. run_ops m' p xs)"

text \<open>\<open>enlarge\<close> adds to the size of the vector: the sum must not wrap.\<close>

fun op_ok :: "vb_op \<Rightarrow> bool" where
  "op_ok (Enlarge n) = (n \<le> max_vec)"
| "op_ok _ = True"

lemma op_ok_enlarge: "n \<le> max_vec \<Longrightarrow> n < two64 - max_vec"
  by (simp add: max_vec_def)

lemma run_op_valid:
  assumes "valid m p" and "op_ok x" and "run_op m p x = Inr m'" and "valid m q"
  shows "valid m' q"
proof (cases x)
  case (Append bs)
  with assms show ?thesis by (auto intro: append_bytes_valid)
next
  case (Mark_read n)
  with assms show ?thesis by (auto intro: markRead_valid)
next
  case (Enlarge n)
  with assms show ?thesis by (auto intro: enlarge_Inr(1) op_ok_enlarge)
next
  case (Ensure n)
  with assms show ?thesis by (auto intro: ensure_Inr(1))
next
  case Fix_prepend
  with assms show ?thesis by (auto intro: fixPrepend_valid)
next
  case (Split n)
  show ?thesis
  proof (cases rule: split_buf_cases [OF assms(1), of n])
    case (1 m1)
    with Split assms split_buf_other(1) [OF assms(1) 1(2) assms(4)] show ?thesis by simp
  next
    case 2
    with Split assms show ?thesis by simp
  qed
qed

text \<open>A window that lies apart from a buffer keeps its bytes and stays apart.\<close>

definition guarded :: "mem \<Rightarrow> nat \<Rightarrow> nat \<Rightarrow> byte list \<Rightarrow> bool" where
  "guarded m p q bs \<longleftrightarrow> valid m p \<and> valid m q \<and> q \<noteq> p \<and> apart m p q \<and> readable m q = bs"

lemma guarded_I:
  assumes "guarded m p q bs" and "valid m' p" and "valid m' q"
    and "readable m' q = readable m q" and "vb m' q = vb m q"
    and "vb_buffer (vb m' p) = vb_buffer (vb m p)"
    and "vb_offset (vb m p) + vb_len (vb m p) \<le> vb_offset (vb m' p) + vb_len (vb m' p)"
  shows "guarded m' p q bs"
  using assms by (auto simp: guarded_def apart_def)

lemma run_op_guarded:
  assumes g: "guarded m p q bs" and "op_ok x" and r: "run_op m p x = Inr m'"
  shows "guarded m' p q bs"
proof -
  from g have p: "valid m p" and q: "valid m q" and qp: "q \<noteq> p" and ap: "apart m p q"
    by (auto simp: guarded_def)
  from p have pl: "p < length (bufs m)" by (simp add: valid_def)
  have v: "valid m' p" "valid m' q"
    using run_op_valid [OF p assms(2) r] p q by auto
  have "readable m' q = readable m q \<and> vb m' q = vb m q
    \<and> vb_buffer (vb m' p) = vb_buffer (vb m p)
    \<and> vb_offset (vb m p) + vb_len (vb m p) \<le> vb_offset (vb m' p) + vb_len (vb m' p)"
  proof (cases x)
    case (Append bs')
    with r have r': "append_bytes m p bs' = Inr m'" by simp
    from append_bytes_apart [OF p r' qp ap q] show ?thesis
      using r' p qp pl by (auto simp: append_bytes_eq split: if_splits)
  next
    case (Mark_read n)
    with r p qp pl show ?thesis
      by (auto simp: markRead_eq split: if_splits)
  next
    case (Enlarge n)
    with r assms(2) have e: "enlarge m p n = Inr m'" "n < two64 - max_vec"
      by (auto intro: op_ok_enlarge)
    from enlarge_Inr [OF p e q] show ?thesis by simp
  next
    case (Ensure n)
    with r have e: "ensure m p n = Inr m'" by simp
    from ensure_Inr [OF p e q] show ?thesis by simp
  next
    case Fix_prepend
    with r p qp pl show ?thesis by (auto simp: fixPrepend_eq)
  next
    case (Split n)
    show ?thesis
    proof (cases rule: split_buf_cases [OF p, of n])
      case (1 m1)
      with Split r have m': "m' = m1" by simp
      show ?thesis
        using split_buf_other [OF p 1(2) q] split_buf_Some [OF p 1(2)] qp
        by (simp add: m')
    next
      case 2
      with Split r show ?thesis by simp
    qed
  qed
  then show ?thesis using guarded_I [OF g v] by blast
qed

lemma run_ops_guarded:
  "guarded m p q bs \<Longrightarrow> \<forall>x \<in> set xs. op_ok x \<Longrightarrow> run_ops m p xs = Inr m' \<Longrightarrow> guarded m' p q bs"
proof (induction xs arbitrary: m)
  case Nil
  then show ?case by simp
next
  case (Cons x xs)
  then show ?case by (auto dest: run_op_guarded)
qed

lemma run_ops_valid:
  "valid m p \<Longrightarrow> \<forall>x \<in> set xs. op_ok x \<Longrightarrow> run_ops m p xs = Inr m' \<Longrightarrow> valid m' p"
proof (induction xs arbitrary: m)
  case Nil
  then show ?case by simp
next
  case (Cons x xs)
  from Cons.prems obtain m1 where m1: "run_op m p x = Inr m1" and r: "run_ops m1 p xs = Inr m'"
    by auto
  from Cons.prems have "op_ok x" by simp
  from run_op_valid [OF Cons.prems(1) this m1 Cons.prems(1)] have "valid m1 p" .
  from Cons.IH [OF this _ r] Cons.prems show ?case by simp
qed

section \<open>Properties\<close>


text \<open>A store with one buffer of 8 bytes, used by the witnesses.\<close>

definition demo_mem :: mem where
  "demo_mem = \<lparr>vecs = [replicate 8 0], bufs = [\<lparr>vb_offset = 0, vb_len = 0, vb_buffer = 0\<rparr>]\<rparr>"

lemma demo_valid: "valid demo_mem 0"
  by (simp add: demo_mem_def valid_def mem_ok_def vb_ok_def max_vec_def)

definition demo_ops :: "vb_op list" where
  "demo_ops = [Append [1, 2, 3], Split 2, Enlarge 4, Mark_read 1]"


text \<open>
  C19: \<open>split\<close> isolates: the bytes handed out by \<open>split\<close> are the first \<open>n\<close> readable bytes,
  and no later operation on the buffer they came from changes them, although both share one
  vector.
\<close>

theorem split_isolation:
  assumes "valid m p" and "split_buf m p n = Inr (m1, Some q)"
    and "\<forall>x \<in> set xs. op_ok x" and "run_ops m1 p xs = Inr m2"
  shows "readable m2 q = take n (readable m p)"
proof -
  note s = split_buf_Some [OF assms(1,2)]
  from assms(1) s(2) have "q \<noteq> p" by (auto simp: valid_def)
  with s split_buf_other(1) [OF assms(1,2,1)] have "guarded m1 p q (take n (readable m p))"
    by (simp add: guarded_def)
  from run_ops_guarded [OF this assms(3,4)] show ?thesis by (simp add: guarded_def)
qed

theorem split_isolation_witness:
  "\<exists>m0 m1 m2. append_bytes demo_mem 0 [1, 2, 3, 4] = Inr m0
     \<and> split_buf m0 0 2 = Inr (m1, Some 1)
     \<and> run_ops m1 0 [Append [7, 8], Mark_read 3, Enlarge 4] = Inr m2
     \<and> readable m2 1 = [1, 2]"
proof -
  have "\<not> isl (append_bytes demo_mem 0 [1, 2, 3, 4])" by code_simp
  then obtain m0 where m0: "append_bytes demo_mem 0 [1, 2, 3, 4] = Inr m0"
    using not_isl_Inr by blast
  have v: "valid m0 0" by (rule append_bytes_valid [OF demo_valid m0 demo_valid])
  have "readable demo_mem 0 = []" by code_simp
  with append_bytes_readable [OF demo_valid m0] have bs: "readable m0 0 = [1, 2, 3, 4]"
    by simp
  have "bind_res (append_bytes demo_mem 0 [1, 2, 3, 4]) (\<lambda>m0. bind_res (split_buf m0 0 2)
      (\<lambda>(m1, q). if q = Some 1 then bind_res (run_ops m1 0 [Append [7, 8], Mark_read 3, Enlarge 4])
         (\<lambda>m2. Inr True) else Inr False)) = Inr True"
    by code_simp
  then obtain m1 m2 where s: "split_buf m0 0 2 = Inr (m1, Some 1)"
    and r: "run_ops m1 0 [Append [7, 8], Mark_read 3, Enlarge 4] = Inr m2"
    by (auto simp: m0 split: if_splits)
  have "\<forall>x \<in> set [Append [7, 8], Mark_read 3, Enlarge 4]. op_ok x"
    by (simp add: max_vec_def)
  from split_isolation [OF v s this r] m0 s r bs show ?thesis by auto
qed

end
