(* ===== verification/Channel.thy ===== *)
theory Channel
  imports Prelude
begin

text \<open>
  \<^verbatim>\<open>include/Channel.hpp\<close> and \<^verbatim>\<open>Channel.cpp\<close>, with the part of
  \<^verbatim>\<open>include/MultiplexLooper.hpp\<close> a channel calls: the events a file descriptor is
  watched for, the callbacks, and the registration with \<open>epoll\<close>. The kernel is outside the
  program: \<open>epoll_ctl\<close> is an argument of every operation that calls it, on a state that says
  what each descriptor is watched for, and \<open>epoll_documented\<close> is what its manual promises.
\<close>

section \<open>Event masks\<close>

definition EPOLLIN :: u32 where "EPOLLIN = 0x001"
definition EPOLLPRI :: u32 where "EPOLLPRI = 0x002"
definition EPOLLOUT :: u32 where "EPOLLOUT = 0x004"
definition EPOLLERR :: u32 where "EPOLLERR = 0x008"
definition EPOLLHUP :: u32 where "EPOLLHUP = 0x010"
definition EPOLLRDHUP :: u32 where "EPOLLRDHUP = 0x2000"
definition EPOLLONESHOT :: u32 where "EPOLLONESHOT = 0x40000000"
definition EPOLLET :: u32 where "EPOLLET = 0x80000000"

definition EVENT_NONE :: u32 where "EVENT_NONE = 0"
definition EVENT_READ :: u32 where "EVENT_READ = EPOLLIN OR EPOLLPRI OR EPOLLRDHUP"
definition EVENT_WRITE :: u32 where "EVENT_WRITE = EPOLLOUT"
definition EDGE_TRIGGER :: u32 where "EDGE_TRIGGER = EPOLLET"
definition ONESHOT :: u32 where "ONESHOT = EPOLLONESHOT"

lemmas event_masks = EPOLLIN_def EPOLLPRI_def EPOLLOUT_def EPOLLERR_def EPOLLHUP_def
  EPOLLRDHUP_def EPOLLONESHOT_def EPOLLET_def EVENT_NONE_def EVENT_READ_def EVENT_WRITE_def
  EDGE_TRIGGER_def ONESHOT_def

section \<open>The kernel\<close>

datatype ctl_op = EPOLL_CTL_ADD | EPOLL_CTL_MOD | EPOLL_CTL_DEL

text \<open>What each descriptor of the epoll instance is watched for.\<close>

type_synonym interest = "int \<Rightarrow> u32 option"
type_synonym epoll_ctl = "ctl_op \<Rightarrow> int \<Rightarrow> u32 \<Rightarrow> interest \<Rightarrow> int \<times> interest"

text \<open>
  \<open>epoll_ctl(2)\<close>, resources not exhausted: a descriptor is added once (\<open>EEXIST\<close>), changed and
  removed only while it is registered (\<open>ENOENT\<close>, or \<open>EBADF\<close> when it has been closed).
\<close>

definition epoll_documented :: "epoll_ctl \<Rightarrow> bool" where
  "epoll_documented ctl \<longleftrightarrow> (\<forall>fd ev k. fd \<ge> 0 \<longrightarrow>
     ctl EPOLL_CTL_ADD fd ev k = (if k fd = None then (0, k(fd \<mapsto> ev)) else (- 1, k))
     \<and> ctl EPOLL_CTL_MOD fd ev k = (if k fd = None then (- 1, k) else (0, k(fd \<mapsto> ev)))
     \<and> ctl EPOLL_CTL_DEL fd ev k = (if k fd = None then (- 1, k) else (0, k(fd := None))))"

text \<open>An instance, for evaluation.\<close>

definition sample_ctl :: epoll_ctl where
  "sample_ctl oper fd ev k = (case oper of
       EPOLL_CTL_ADD \<Rightarrow> (if k fd = None then (0, k(fd \<mapsto> ev)) else (- 1, k))
     | EPOLL_CTL_MOD \<Rightarrow> (if k fd = None then (- 1, k) else (0, k(fd \<mapsto> ev)))
     | EPOLL_CTL_DEL \<Rightarrow> (if k fd = None then (- 1, k) else (0, k(fd := None))))"

lemma sample_ctl_documented: "epoll_documented sample_ctl"
  by (simp add: epoll_documented_def sample_ctl_def)

section \<open>Channels\<close>

text \<open>
  A callback: an empty \<open>std::function\<close>, \<open>DUMMY_HANDLE\<close>, \<open>defaultErrorHandler\<close>, or one that
  the owner of the channel set.
\<close>

datatype 'h callback = Empty_callback | DUMMY_HANDLE | Default_error_handler | User 'h

record 'h channel =
  ch_fd :: int
  ch_events :: u32
  readEventHandler :: "'h callback"
  writeEventHandler :: "'h callback"
  errorHandler :: "'h callback"
  closedHandler :: "'h callback"
  attached :: bool

definition new_Channel :: "int \<Rightarrow> 'h channel" where
  "new_Channel fd =
     \<lparr>ch_fd = fd, ch_events = EVENT_NONE, readEventHandler = DUMMY_HANDLE,
      writeEventHandler = DUMMY_HANDLE, errorHandler = Default_error_handler,
      closedHandler = DUMMY_HANDLE, attached = False\<rparr>"

definition setReadCallback :: "'h callback \<Rightarrow> 'h channel \<Rightarrow> 'h channel" where
  "setReadCallback h ch = ch\<lparr>readEventHandler := h\<rparr>"

definition setWriteCallback :: "'h callback \<Rightarrow> 'h channel \<Rightarrow> 'h channel" where
  "setWriteCallback h ch = ch\<lparr>writeEventHandler := h\<rparr>"

definition setErrorHandler :: "'h callback \<Rightarrow> 'h channel \<Rightarrow> 'h channel" where
  "setErrorHandler h ch = ch\<lparr>errorHandler := h\<rparr>"

definition setCloseHandler :: "'h callback \<Rightarrow> 'h channel \<Rightarrow> 'h channel" where
  "setCloseHandler h ch = ch\<lparr>closedHandler := h\<rparr>"

text \<open>Calling a callback: \<open>run\<close> is what the owner's callbacks do to the state.\<close>

definition invoke :: "('h \<Rightarrow> 's \<Rightarrow> 's res) \<Rightarrow> 'h callback \<Rightarrow> 's \<Rightarrow> 's res" where
  "invoke run cb s = (case cb of
       Empty_callback \<Rightarrow> Inl BadFunctionCall
     | DUMMY_HANDLE \<Rightarrow> Inr s
     | Default_error_handler \<Rightarrow> Inr s
     | User h \<Rightarrow> run h s)"

definition handleRead :: "('h \<Rightarrow> 's \<Rightarrow> 's res) \<Rightarrow> 'h channel \<Rightarrow> 's \<Rightarrow> 's res" where
  "handleRead run ch s = invoke run (readEventHandler ch) s"

definition handleWrite :: "('h \<Rightarrow> 's \<Rightarrow> 's res) \<Rightarrow> 'h channel \<Rightarrow> 's \<Rightarrow> 's res" where
  "handleWrite run ch s = invoke run (writeEventHandler ch) s"

definition handleClosed :: "('h \<Rightarrow> 's \<Rightarrow> 's res) \<Rightarrow> 'h channel \<Rightarrow> 's \<Rightarrow> 's res" where
  "handleClosed run ch s = invoke run (closedHandler ch) s"

text \<open>\<open>defaultErrorHandler\<close> logs and calls the close handler.\<close>

definition handleError :: "('h \<Rightarrow> 's \<Rightarrow> 's res) \<Rightarrow> 'h channel \<Rightarrow> 's \<Rightarrow> 's res" where
  "handleError run ch s =
     (if errorHandler ch = Default_error_handler then handleClosed run ch s
      else invoke run (errorHandler ch) s)"

section \<open>Registration\<close>

text \<open>\<open>MultiplexLooper::updateChannel(int, Channel&)\<close>.\<close>

definition updateChannel :: "epoll_ctl \<Rightarrow> ctl_op \<Rightarrow> 'h channel \<Rightarrow> interest \<Rightarrow> interest res" where
  "updateChannel ctl oper ch k =
     (let (ret, k') = ctl oper (ch_fd ch) (ch_events ch) k in assert_then (ret \<ge> 0) (Inr k'))"

definition attachChannel :: "epoll_ctl \<Rightarrow> 'h channel \<Rightarrow> interest \<Rightarrow> interest res" where
  "attachChannel ctl ch k = updateChannel ctl EPOLL_CTL_ADD ch k"

definition detachChannel :: "epoll_ctl \<Rightarrow> 'h channel \<Rightarrow> interest \<Rightarrow> interest res" where
  "detachChannel ctl ch k = updateChannel ctl EPOLL_CTL_DEL ch k"

definition attach :: "epoll_ctl \<Rightarrow> 'h channel \<times> interest \<Rightarrow> ('h channel \<times> interest) res" where
  "attach ctl = (\<lambda>(ch, k). assert_then (ch_fd ch \<ge> 0)
     (if attached ch then Inr (ch, k)
      else bind_res (attachChannel ctl ch k) (\<lambda>k'. Inr (ch\<lparr>attached := True\<rparr>, k'))))"

definition detach :: "epoll_ctl \<Rightarrow> 'h channel \<times> interest \<Rightarrow> ('h channel \<times> interest) res" where
  "detach ctl = (\<lambda>(ch, k).
     if attached ch
     then bind_res (detachChannel ctl ch k) (\<lambda>k'. Inr (ch\<lparr>attached := False\<rparr>, k'))
     else Inr (ch, k))"

definition apply_channel :: "epoll_ctl \<Rightarrow> 'h channel \<times> interest \<Rightarrow> ('h channel \<times> interest) res" where
  "apply_channel ctl = (\<lambda>(ch, k).
     if attached ch
     then bind_res (updateChannel ctl EPOLL_CTL_MOD ch k) (\<lambda>k'. Inr (ch, k'))
     else Inr (ch, k))"

definition with_edge :: "bool \<Rightarrow> u32 \<Rightarrow> u32" where
  "with_edge edge ev = (if edge then ev OR EDGE_TRIGGER else ev)"

definition enableRead ::
  "epoll_ctl \<Rightarrow> bool \<Rightarrow> 'h channel \<times> interest \<Rightarrow> ('h channel \<times> interest) res" where
  "enableRead ctl edge = (\<lambda>(ch, k).
     apply_channel ctl (ch\<lparr>ch_events := with_edge edge EVENT_READ\<rparr>, k))"

definition enableWrite ::
  "epoll_ctl \<Rightarrow> bool \<Rightarrow> 'h channel \<times> interest \<Rightarrow> ('h channel \<times> interest) res" where
  "enableWrite ctl edge = (\<lambda>(ch, k).
     apply_channel ctl (ch\<lparr>ch_events := with_edge edge EVENT_WRITE\<rparr>, k))"

definition enableWrite_oneShot ::
  "epoll_ctl \<Rightarrow> bool \<Rightarrow> bool \<Rightarrow> 'h channel \<times> interest \<Rightarrow> ('h channel \<times> interest) res" where
  "enableWrite_oneShot ctl edge oneShot = (\<lambda>(ch, k).
     let ev = with_edge edge EVENT_WRITE in
     apply_channel ctl (ch\<lparr>ch_events := (if oneShot then ev OR ONESHOT else ev)\<rparr>, k))"

definition enableAll ::
  "epoll_ctl \<Rightarrow> bool \<Rightarrow> 'h channel \<times> interest \<Rightarrow> ('h channel \<times> interest) res" where
  "enableAll ctl edge = (\<lambda>(ch, k).
     apply_channel ctl (ch\<lparr>ch_events := with_edge edge (EVENT_READ OR EVENT_WRITE)\<rparr>, k))"

lemmas channel_definitions [channel_eval] = new_Channel_def setReadCallback_def setWriteCallback_def
  setErrorHandler_def setCloseHandler_def enableRead_def enableWrite_def enableWrite_oneShot_def
  enableAll_def apply_channel_def attach_def detach_def attachChannel_def detachChannel_def
  updateChannel_def

section \<open>Runs of a channel\<close>

datatype channel_op = EnableRead bool | EnableWrite bool | EnableWriteOnce bool bool
  | EnableAll bool | Attach | Detach

fun channel_step ::
  "epoll_ctl \<Rightarrow> channel_op \<Rightarrow> 'h channel \<times> interest \<Rightarrow> ('h channel \<times> interest) res" where
  "channel_step ctl (EnableRead e) s = enableRead ctl e s"
| "channel_step ctl (EnableWrite e) s = enableWrite ctl e s"
| "channel_step ctl (EnableWriteOnce e once) s = enableWrite_oneShot ctl e once s"
| "channel_step ctl (EnableAll e) s = enableAll ctl e s"
| "channel_step ctl Attach s = attach ctl s"
| "channel_step ctl Detach s = detach ctl s"

fun run_channel ::
  "epoll_ctl \<Rightarrow> channel_op list \<Rightarrow> 'h channel \<times> interest \<Rightarrow> ('h channel \<times> interest) res" where
  "run_channel ctl [] s = Inr s"
| "run_channel ctl (oper # ops) s = bind_res (channel_step ctl oper s) (run_channel ctl ops)"

text \<open>The kernel watches the descriptor for the channel's events, and only while it is attached.\<close>

definition in_sync :: "interest \<Rightarrow> int \<Rightarrow> 'h channel \<times> interest \<Rightarrow> bool" where
  "in_sync k0 fd = (\<lambda>(ch, k). ch_fd ch = fd
     \<and> k = k0(fd := (if attached ch then Some (ch_events ch) else None)))"

lemma channel_step_sync:
  assumes "epoll_documented ctl" and "fd \<ge> 0" and "in_sync k0 fd s"
  shows "\<exists>s'. channel_step ctl oper s = Inr s' \<and> in_sync k0 fd s'"
  using assms(2,3) assms(1) [unfolded epoll_documented_def, rule_format, OF assms(2)]
  by (cases s; cases oper)
    (auto simp: in_sync_def channel_eval Let_def)

lemma run_channel_sync:
  assumes "epoll_documented ctl" and "fd \<ge> 0"
  shows "in_sync k0 fd s \<Longrightarrow> \<exists>s'. run_channel ctl ops s = Inr s' \<and> in_sync k0 fd s'"
proof (induction ops arbitrary: s)
  case Nil
  then show ?case by simp
next
  case (Cons oper ops)
  from channel_step_sync [OF assms Cons.prems, of oper] obtain s1
    where "channel_step ctl oper s = Inr s1" "in_sync k0 fd s1" by blast
  with Cons.IH [of s1] show ?case by simp
qed

section \<open>The registration of one channel\<close>

lemma attach_fresh:
  assumes "epoll_documented ctl" and "ch_fd ch \<ge> 0" and "\<not> attached ch" and "k (ch_fd ch) = None"
  shows "attach ctl (ch, k) = Inr (ch\<lparr>attached := True\<rparr>, k(ch_fd ch \<mapsto> ch_events ch))"
  using assms by (auto simp: attach_def attachChannel_def updateChannel_def epoll_documented_def)

lemma detach_attached:
  assumes "epoll_documented ctl" and "ch_fd ch \<ge> 0" and "attached ch" and "k (ch_fd ch) \<noteq> None"
  shows "detach ctl (ch, k) = Inr (ch\<lparr>attached := False\<rparr>, k(ch_fd ch := None))"
  using assms by (auto simp: detach_def detachChannel_def updateChannel_def epoll_documented_def)

text \<open>
  Closing the descriptor of an attached channel before detaching it (the kernel forgets a
  closed descriptor) makes the later \<open>detach\<close> abort; so does attaching two channels on one
  descriptor.
\<close>

lemma detach_closed:
  assumes "epoll_documented ctl" and "ch_fd ch \<ge> 0" and "attached ch" and "k (ch_fd ch) = None"
  shows "detach ctl (ch, k) = Inl AssertFail"
  using assms by (simp add: detach_def detachChannel_def updateChannel_def epoll_documented_def)

lemma attach_twice:
  assumes "epoll_documented ctl" and "ch_fd ch \<ge> 0" and "\<not> attached ch" and "k (ch_fd ch) \<noteq> None"
  shows "attach ctl (ch, k) = Inl AssertFail"
  using assms by (auto simp: attach_def attachChannel_def updateChannel_def epoll_documented_def)

lemma detach_idle [simp]: "\<not> attached ch \<Longrightarrow> detach ctl (ch, k) = Inr (ch, k)"
  by (simp add: detach_def)

section \<open>Properties\<close>



text \<open>\<open>enableWrite\<close> with one shot, as the connections call it when a send would block,
  replaces the whole event mask: an attached channel is no longer watched for reading.\<close>

theorem enableWrite_drops_read_interest:
  assumes "epoll_documented ctl" and "ch_fd ch \<ge> 0" and "attached ch" and "k (ch_fd ch) \<noteq> None"
  shows "\<exists>ch' k' ev. enableWrite_oneShot ctl edge once (ch, k) = Inr (ch', k')
    \<and> k' (ch_fd ch) = Some ev \<and> ev AND EVENT_READ = 0"
  using assms by (auto simp: enableWrite_oneShot_def apply_channel_def updateChannel_def
      epoll_documented_def with_edge_def Let_def event_masks)

theorem enableWrite_drops_read_interest_witness:
  "\<exists>ch' k' ev. enableWrite_oneShot sample_ctl True True
      ((new_Channel 3)\<lparr>attached := True\<rparr>, Map.empty(3 \<mapsto> EVENT_READ)) = Inr (ch', k')
    \<and> k' 3 = Some ev \<and> ev AND EVENT_READ = 0"
  using enableWrite_drops_read_interest [OF sample_ctl_documented,
      of "(new_Channel 3)\<lparr>attached := True\<rparr>" "Map.empty(3 \<mapsto> EVENT_READ)" True True]
  by (simp add: new_Channel_def)

end
