(* ===== verification/TcpConnection.thy ===== *)
theory TcpConnection
  imports VecBuffer Channel
begin

text \<open>
  \<^verbatim>\<open>include/TcpConnection.hpp\<close> and \<^verbatim>\<open>TcpConnection.cpp\<close>: reading from the
  socket into the receive buffer, the list of buffers waiting to be sent, and the closing of a
  connection. Buffers live in the store of \<^verbatim>\<open>VecBuffer.thy\<close>; a buffer may be queued on
  several connections, the list holds addresses. What the calls to the socket return is given
  to each handler as a list of results; when the list is used up the handler is where it would
  make the next call.
\<close>

section \<open>State\<close>

definition EAGAIN :: int where "EAGAIN = 11"
definition EINTR :: int where "EINTR = 4"

datatype tcp_callback = On_handleRead | On_handleWrite | On_handleClose

text \<open>What the user's handlers are told.\<close>

datatype notice = Message "byte list" | Closed int

text \<open>
  The new-message handler is user code on the receive buffer: it may consume from it, and is
  recorded with the bytes it finds there.
\<close>

type_synonym message_handler = "mem \<Rightarrow> nat \<Rightarrow> mem res"

record connection =
  store :: mem
  sndBufList :: "nat list"
  rcvBuf :: nat
  peerAddr :: "u32 \<times> u16"
  sock_open :: bool
  tcp_channel :: "tcp_callback channel"
  epoll :: interest
  newMessageHandler :: "message_handler option"
  closedHandler_set :: bool
  notices :: "notice list"

definition predMsgLen :: nat where "predMsgLen = 1024"
definition pendingSize :: nat where "pendingSize = 32768"

definition new_TcpConnection ::
  "epoll_ctl \<Rightarrow> interest \<Rightarrow> mem \<Rightarrow> int \<Rightarrow> u32 \<times> u16 \<Rightarrow> connection res" where
  "new_TcpConnection ctl k m fd addr =
     bind_res (new_VecBuffer m predMsgLen) (\<lambda>(m', p).
     assert_then (fd \<ge> 0)
       (let ch = setReadCallback (User On_handleRead) (setWriteCallback (User On_handleWrite)
                   (setCloseHandler (User On_handleClose) (new_Channel fd)))
        in bind_res (enableRead ctl True (ch, k)) (\<lambda>(ch', k').
          Inr \<lparr>store = m', sndBufList = [], rcvBuf = p, peerAddr = addr, sock_open = True,
               tcp_channel = ch', epoll = k', newMessageHandler = None,
               closedHandler_set = False, notices = []\<rparr>)))"

definition setNewMessageHandler :: "message_handler option \<Rightarrow> connection \<Rightarrow> connection" where
  "setNewMessageHandler h c = c\<lparr>newMessageHandler := h\<rparr>"

definition setTcpCloseHandler :: "bool \<Rightarrow> connection \<Rightarrow> connection" where
  "setTcpCloseHandler h c = c\<lparr>closedHandler_set := h\<rparr>"

definition tcp_attach :: "epoll_ctl \<Rightarrow> connection \<Rightarrow> connection res" where
  "tcp_attach ctl c = bind_res (attach ctl (tcp_channel c, epoll c))
     (\<lambda>(ch, k). Inr (c\<lparr>tcp_channel := ch, epoll := k\<rparr>))"

definition tcp_detach :: "epoll_ctl \<Rightarrow> connection \<Rightarrow> connection res" where
  "tcp_detach ctl c = bind_res (detach ctl (tcp_channel c, epoll c))
     (\<lambda>(ch, k). Inr (c\<lparr>tcp_channel := ch, epoll := k\<rparr>))"

text \<open>
  \<open>_sock.close()\<close>: the kernel drops a closed descriptor from every interest list. The socket
  forgets its descriptor (\<open>_fd = -1\<close>), so closing it again closes nothing; the channel keeps the
  number.
\<close>

definition sock_close :: "connection \<Rightarrow> connection" where
  "sock_close c =
     (if sock_open c
      then c\<lparr>sock_open := False, epoll := (epoll c)(ch_fd (tcp_channel c) := None)\<rparr>
      else c)"

definition tcp_handleClose :: "int \<Rightarrow> connection \<Rightarrow> connection" where
  "tcp_handleClose errno c =
     (if closedHandler_set c then c\<lparr>notices := notices c @ [Closed errno]\<rparr> else c)"

definition tcp_destroy :: "connection \<Rightarrow> connection res" where
  "tcp_destroy c = assert_then (\<not> attached (tcp_channel c)) (Inr (sock_close c))"

section \<open>Reading\<close>

text \<open>
  A used-up receive buffer is replaced by a new one.
\<close>

definition refresh_rcvBuf :: "connection \<Rightarrow> connection res" where
  "refresh_rcvBuf c =
     (if readableSize (store c) (rcvBuf c) = 0
         \<and> writtableSize (store c) (rcvBuf c) * 2 mod two64 < predMsgLen
      then bind_res (new_VecBuffer (store c) predMsgLen)
        (\<lambda>(m, p). Inr (c\<lparr>store := m, rcvBuf := p\<rparr>))
      else Inr c)"

text \<open>
  What \<open>handleRead\<close> does with the bytes one \<open>readv\<close> yields: the kernel has filled the free room
  of the buffer, then the pending buffer; pending bytes are copied behind the buffer's
  enlarged vector.
\<close>

definition take_in :: "mem \<Rightarrow> nat \<Rightarrow> byte list \<Rightarrow> mem res" where
  "take_in m p bs =
     (let w = writtableSize m p; pend = drop w bs in
      bind_res (mem_write m (vb_buffer (vb m p)) (writtablePtr m p) (take w bs)) (\<lambda>m1.
      if int (length bs) - int w > 0
      then bind_res (markWrite m1 p (writtableSize m1 p)) (\<lambda>m2.
           bind_res (enlarge m2 p (length pend)) (\<lambda>m3.
           mem_write m3 (vb_buffer (vb m3 p)) (writtablePtr m3 p) pend))
      else markWrite m1 p (length bs)))"

definition deliver :: "connection \<Rightarrow> connection res" where
  "deliver c = (case newMessageHandler c of
       None \<Rightarrow> Inr c
     | Some h \<Rightarrow> bind_res (h (store c) (rcvBuf c))
         (\<lambda>m. Inr (c\<lparr>store := m, notices := notices c @ [Message (readable (store c) (rcvBuf c))]\<rparr>)))"

datatype read_result = Got "byte list" | Read_error int | Eof

definition close_by :: "epoll_ctl \<Rightarrow> int \<Rightarrow> connection \<Rightarrow> connection res" where
  "close_by ctl errno c =
     bind_res (tcp_detach ctl c) (\<lambda>c'. Inr (tcp_handleClose errno (sock_close c')))"

fun tcp_handleRead :: "epoll_ctl \<Rightarrow> read_result list \<Rightarrow> connection \<Rightarrow> connection res" where
  "tcp_handleRead ctl [] c = Inr c"
| "tcp_handleRead ctl (r # rs) c =
     bind_res (refresh_rcvBuf c) (\<lambda>c.
     let readCap = writtableSize (store c) (rcvBuf c) + pendingSize in
     case r of
       Got bs \<Rightarrow>
         bind_res (take_in (store c) (rcvBuf c) bs) (\<lambda>m.
         bind_res (deliver (c\<lparr>store := m\<rparr>)) (\<lambda>c'.
           if length bs < readCap then Inr c' else tcp_handleRead ctl rs c'))
     | Read_error e \<Rightarrow> if e \<noteq> EAGAIN \<and> e \<noteq> EINTR then close_by ctl e c else Inr c
     | Eof \<Rightarrow> close_by ctl 0 c)"

section \<open>Sending\<close>

text \<open>
  \<open>markSended\<close>: after a buffer is erased, the size subtracted is that of the next one.
\<close>

fun markSended :: "mem \<Rightarrow> nat list \<Rightarrow> nat \<Rightarrow> (mem \<times> nat list) res" where
  "markSended m [] sended = Inr (m, [])"
| "markSended m (b # bs) sended =
     (if sended \<ge> readableSize m b
      then (case bs of
          [] \<Rightarrow> Inl NullDeref
        | b' # _ \<Rightarrow> let s = sz_sub sended (readableSize m b') in
            if s = 0 then Inr (m, bs) else markSended m bs s)
      else bind_res (markRead m b sended) (\<lambda>m'. Inr (m', b # bs)))"

text \<open>
  What \<open>writev\<close> returns: bytes written, or -1 with \<open>errno\<close>. The result is kept in a \<open>size_t\<close>.
\<close>

datatype write_result = Wrote nat | Write_error

definition as_size_t :: "write_result \<Rightarrow> nat" where
  "as_size_t r = (case r of Wrote n \<Rightarrow> n | Write_error \<Rightarrow> two64 - 1)"

definition vecMax :: nat where "vecMax = 50"

text \<open>The bytes the next \<open>writev\<close> offers.\<close>

definition offered :: "mem \<Rightarrow> nat list \<Rightarrow> byte list" where
  "offered m bs = concat (map (readable m) (take vecMax bs))"

text \<open>Each result of \<open>writev\<close> comes with the value of \<open>errno\<close> after it.\<close>

fun sendInternal :: "epoll_ctl \<Rightarrow> (write_result \<times> int) list \<Rightarrow> connection \<Rightarrow> connection res" where
  "sendInternal ctl [] c = Inr c"
| "sendInternal ctl ((r, errno) # rs) c =
     (if sndBufList c = [] then Inr c
      else if as_size_t r > 0
      then bind_res (markSended (store c) (sndBufList c) (as_size_t r))
        (\<lambda>(m, bs). sendInternal ctl rs (c\<lparr>store := m, sndBufList := bs\<rparr>))
      else if errno = EAGAIN \<or> errno = EINTR
      then bind_res (enableWrite_oneShot ctl True True (tcp_channel c, epoll c))
        (\<lambda>(ch, k). Inr (c\<lparr>tcp_channel := ch, epoll := k\<rparr>))
      else Inr (tcp_handleClose errno (sock_close c)))"

text \<open>The runnables of \<open>send\<close> and \<open>sendMultiple\<close>, run in the loop thread.\<close>

definition tcp_send ::
  "epoll_ctl \<Rightarrow> (write_result \<times> int) list \<Rightarrow> nat \<Rightarrow> connection \<Rightarrow> connection res" where
  "tcp_send ctl rs b c = sendInternal ctl rs (c\<lparr>sndBufList := sndBufList c @ [b]\<rparr>)"

definition tcp_sendMultiple ::
  "epoll_ctl \<Rightarrow> (write_result \<times> int) list \<Rightarrow> nat list \<Rightarrow> connection \<Rightarrow> connection res" where
  "tcp_sendMultiple ctl rs bs c = sendInternal ctl rs (c\<lparr>sndBufList := sndBufList c @ bs\<rparr>)"

definition tcp_handleWrite ::
  "epoll_ctl \<Rightarrow> (write_result \<times> int) list \<Rightarrow> connection \<Rightarrow> connection res" where
  "tcp_handleWrite ctl rs c = sendInternal ctl rs c"

section \<open>Receiving\<close>

lemma take_in_fits:
  "length bs \<le> writtableSize m p \<Longrightarrow> take_in m p bs = append_bytes m p bs"
  by (simp add: take_in_def append_bytes_def Let_def)

lemma mem_write_behind:
  assumes "valid m p" and "mem_write m (vb_buffer (vb m p)) (writtablePtr m p) bs = Inr m'"
  shows "valid m' p" and "readable m' p = readable m p" and "vb m' p = vb m p"
proof -
  note b = valid_bounds [OF assms(1)]
  let ?v = "take (writtablePtr m p) (data_of m p) @ bs
      @ drop (writtablePtr m p + length bs) (data_of m p)"
  from assms(2) have m': "m' = put_vec m (vb_buffer (vb m p)) ?v"
    and fits: "writtablePtr m p + length bs \<le> length (data_of m p)"
    by (auto simp: mem_write_def split: if_splits)
  show "valid m' p" unfolding m' using assms(1) b(3) fits by simp
  show "vb m' p = vb m p" by (simp add: m')
  have "writtablePtr m p \<le> length (data_of m p)" using fits by simp
  then show "readable m' p = readable m p"
    unfolding m' readable_put_vec [OF b(1)]
    by (simp add: take_drop_prefix writtablePtr_def readable_def del: take_append drop_append)
qed

text \<open>What fits is appended; pending bytes change nothing a reader of the buffer sees.\<close>

lemma take_in_eq:
  assumes "valid m p" and "length (data_of m p) + length bs \<le> max_vec"
  shows "\<exists>m'. take_in m p bs = Inr m' \<and> valid m' p
    \<and> readable m' p = readable m p @ take (writtableSize m p) bs"
proof (cases "length bs \<le> writtableSize m p")
  case True
  then obtain m' where m': "append_bytes m p bs = Inr m'"
    by (simp add: append_bytes_eq [OF assms(1)])
  from append_bytes_valid [OF assms(1) m' assms(1)] append_bytes_readable [OF assms(1) m'] True m'
  show ?thesis by (simp add: take_in_fits)
next
  case False
  let ?w = "writtableSize m p"
  let ?pend = "drop ?w bs"
  have len: "length (take ?w bs) = ?w" using False by simp
  then obtain m2 where m2: "append_bytes m p (take ?w bs) = Inr m2"
    by (simp add: append_bytes_eq [OF assms(1)])
  then obtain m1 where m1: "mem_write m (vb_buffer (vb m p)) (writtablePtr m p) (take ?w bs) = Inr m1"
    "markWrite m1 p ?w = Inr m2" using len by (auto simp: append_bytes_def)
  note v1 = mem_write_behind [OF assms(1) m1(1)]
  have d1: "length (data_of m1 p) = length (data_of m p)"
    using m1(1) valid_bounds(1) [OF assms(1)] v1(3) by (auto simp: mem_write_def split: if_splits)
  then have w1: "writtableSize m1 p = ?w"
    using v1 by (simp add: writtableSize_eq assms(1))
  note v2 = append_bytes_valid [OF assms(1) m2 assms(1)] append_bytes_readable [OF assms(1) m2]
  have b2: "vb_buffer (vb m2 p) = vb_buffer (vb m1 p)" "vecs m2 = vecs m1"
    using m1(2) v1(1) by (auto simp: markWrite_def valid_def)
  have "length (data_of m2 p) + length ?pend \<le> max_vec" using b2 d1 assms(2) by simp
  moreover from this have "sz_add (length (data_of m2 p)) (length ?pend) = length (data_of m2 p) + length ?pend"
    by (intro sz_add_exact) (simp add: max_vec_def)
  ultimately obtain m3 where m3: "enlarge m2 p (length ?pend) = Inr m3"
    by (simp add: enlarge_def resize_vec_def)
  have "length ?pend < two64 - max_vec" using assms(2) by (simp add: max_vec_def)
  note v3 = enlarge_Inr [OF v2(1) m3 this v2(1)]
  have "writtablePtr m3 p + length ?pend \<le> length (data_of m3 p)"
    using v3(3,4) valid_bounds(2) [OF v2(1)] by (simp add: writtablePtr_def)
  then obtain m4 where m4: "mem_write m3 (vb_buffer (vb m3 p)) (writtablePtr m3 p) ?pend = Inr m4"
    by (simp add: mem_write_def)
  note v4 = mem_write_behind [OF v3(1) m4]
  have "take_in m p bs = Inr m4"
    using False m1 w1 m3 m4 unfolding take_in_def Let_def by simp
  then show ?thesis using v4 v3(2) v2(2) by simp
qed

lemma refresh_valid:
  assumes "valid (store c) (rcvBuf c)"
  shows "\<exists>c1. refresh_rcvBuf c = Inr c1 \<and> valid (store c1) (rcvBuf c1)
    \<and> readable (store c1) (rcvBuf c1) = readable (store c) (rcvBuf c)
    \<and> notices c1 = notices c \<and> newMessageHandler c1 = newMessageHandler c
    \<and> (c1 = c \<or> length (data_of (store c1) (rcvBuf c1)) = predMsgLen)"
proof (cases "readableSize (store c) (rcvBuf c) = 0
    \<and> writtableSize (store c) (rcvBuf c) * 2 mod two64 < predMsgLen")
  case True
  from assms have mo: "mem_ok (store c)" by (simp add: valid_def)
  obtain m q where n: "new_VecBuffer (store c) predMsgLen = Inr (m, q)"
    by (auto simp: new_VecBuffer_def predMsgLen_def max_vec_def)
  note N = new_VecBuffer_Inr [OF mo n]
  have "readable (store c) (rcvBuf c) = []" using True by (simp add: readableSize_def readable_def)
  with True n N show ?thesis
    by (intro exI [of _ "c\<lparr>store := m, rcvBuf := q\<rparr>"]) (simp add: refresh_rcvBuf_def)
qed (use assms in \<open>auto simp: refresh_rcvBuf_def\<close>)

definition observe :: message_handler where
  "observe m p = Inr m"

text \<open>One \<open>readv\<close> of a connection whose handler looks at the buffer: the handler is called once,
  with the bytes it had not consumed followed by the new ones, in order, but only by those
  that fit the free room of the buffer; bytes beyond it went to the pending buffer, and are
  lost, since they are copied into the vector and never marked as written.\<close>

theorem read_delivers_what_fits:
  assumes "valid (store c) (rcvBuf c)" and "newMessageHandler c = Some observe"
    and "refresh_rcvBuf c = Inr c1"
    and "length bs < writtableSize (store c1) (rcvBuf c1) + pendingSize"
    and "length (data_of (store c1) (rcvBuf c1)) + length bs \<le> max_vec"
  shows "\<exists>c'. tcp_handleRead ctl (Got bs # rs) c = Inr c'
    \<and> readable (store c') (rcvBuf c')
       = readable (store c) (rcvBuf c) @ take (writtableSize (store c1) (rcvBuf c1)) bs
    \<and> notices c' = notices c @ [Message (readable (store c') (rcvBuf c'))]"
proof -
  from refresh_valid [OF assms(1)] assms(3) have c1: "valid (store c1) (rcvBuf c1)"
    "readable (store c1) (rcvBuf c1) = readable (store c) (rcvBuf c)" "notices c1 = notices c"
    "newMessageHandler c1 = Some observe" using assms(2) by auto
  from take_in_eq [OF c1(1) assms(5)] obtain m where
    "take_in (store c1) (rcvBuf c1) bs = Inr m" "readable m (rcvBuf c1)
      = readable (store c1) (rcvBuf c1) @ take (writtableSize (store c1) (rcvBuf c1)) bs" by blast
  with assms(3,4) c1 show ?thesis
    by (simp add: deliver_def observe_def Let_def)
qed

definition demo_connection :: connection where
  "demo_connection = setNewMessageHandler (Some observe)
     (projr (new_TcpConnection sample_ctl (\<lambda>_. None) \<lparr>vecs = [], bufs = []\<rparr> 5 (0, 0)))"

lemma demo_fields:
  "store demo_connection = \<lparr>vecs = [replicate 1024 0],
     bufs = [\<lparr>vb_offset = 0, vb_len = 0, vb_buffer = 0\<rparr>]\<rparr>"
  "rcvBuf demo_connection = 0" "newMessageHandler demo_connection = Some observe"
  "notices demo_connection = []" "sndBufList demo_connection = []"
  "ch_fd (tcp_channel demo_connection) = 5" "attached (tcp_channel demo_connection) = False"
  "closedHandler_set demo_connection = False" "epoll demo_connection = (\<lambda>_. None)"
  by (simp_all add: demo_connection_def new_TcpConnection_def new_VecBuffer_def predMsgLen_def
      max_vec_def channel_eval setNewMessageHandler_def Let_def)

lemma demo_connection_valid: "valid (store demo_connection) (rcvBuf demo_connection)"
  by (simp add: demo_fields valid_def mem_ok_def vb_ok_def max_vec_def)

lemma demo_room: "writtableSize (store demo_connection) (rcvBuf demo_connection) = 1024"
  by (simp add: writtableSize_eq [OF demo_connection_valid]) (simp add: demo_fields)

lemma demo_refresh: "refresh_rcvBuf demo_connection = Inr demo_connection"
  by (simp add: refresh_rcvBuf_def demo_room predMsgLen_def)

theorem read_delivers_what_fits_witness:
  "\<exists>c'. tcp_handleRead sample_ctl [Got (replicate 1030 7)] demo_connection = Inr c'
    \<and> notices c' = [Message (replicate 1024 7)]"
proof -
  define n :: nat where "n = 1030"
  have r: "readable (store demo_connection) (rcvBuf demo_connection) = []"
    by (simp add: demo_fields readable_def)
  have l: "length (data_of (store demo_connection) (rcvBuf demo_connection)) = 1024"
    by (simp add: demo_fields)
  have p: "length (replicate n (7::byte)) < 1024 + pendingSize" "1024 + length (replicate n (7::byte)) \<le> max_vec"
    by (simp_all add: n_def pendingSize_def max_vec_def)
  from read_delivers_what_fits [OF demo_connection_valid demo_fields(3) demo_refresh, of "replicate n 7",
      unfolded demo_room l r demo_fields(4) append_Nil, OF p, of sample_ctl "[]"]
  obtain c' where c': "tcp_handleRead sample_ctl [Got (replicate n 7)] demo_connection = Inr c'"
    "readable (store c') (rcvBuf c') = take 1024 (replicate n 7)"
    "notices c' = [Message (readable (store c') (rcvBuf c'))]" by blast
  have "take 1024 (replicate n (7::byte)) = replicate 1024 7"
    by (simp only: take_replicate) (simp add: n_def)
  with c' show ?thesis unfolding n_def by metis
qed

section \<open>Closing\<close>

lemma refresh_frame:
  assumes "refresh_rcvBuf c = Inr c1"
  shows "tcp_channel c1 = tcp_channel c" "epoll c1 = epoll c" "sock_open c1 = sock_open c"
    "closedHandler_set c1 = closedHandler_set c" "notices c1 = notices c"
    "sndBufList c1 = sndBufList c"
  using assms by (auto simp: refresh_rcvBuf_def split: if_splits)

definition ends :: "read_result \<Rightarrow> int \<Rightarrow> bool" where
  "ends r e \<longleftrightarrow> r = Eof \<and> e = 0 \<or> r = Read_error e \<and> e \<noteq> EAGAIN \<and> e \<noteq> EINTR"

lemma read_end_eq:
  assumes "epoll_documented ctl" and "valid (store c) (rcvBuf c)"
    and "ch_fd (tcp_channel c) \<ge> 0" and "attached (tcp_channel c)"
    and "epoll c (ch_fd (tcp_channel c)) \<noteq> None" and "ends r e"
  obtains c1 where "refresh_rcvBuf c = Inr c1" and "valid (store c1) (rcvBuf c1)"
    and "tcp_handleRead ctl (r # rs) c = Inr (tcp_handleClose e (sock_close (c1\<lparr>tcp_channel :=
      (tcp_channel c)\<lparr>attached := False\<rparr>, epoll := (epoll c)(ch_fd (tcp_channel c) := None)\<rparr>)))"
proof -
  from refresh_valid [OF assms(2)] obtain c1 where c1: "refresh_rcvBuf c = Inr c1"
    "valid (store c1) (rcvBuf c1)" by blast
  note same = refresh_frame [OF c1(1)]
  have "tcp_detach ctl c1 = Inr (c1\<lparr>tcp_channel := (tcp_channel c)\<lparr>attached := False\<rparr>,
      epoll := (epoll c)(ch_fd (tcp_channel c) := None)\<rparr>)"
    using detach_attached [of ctl "tcp_channel c" "epoll c"] assms(1,3,4,5)
    by (simp add: tcp_detach_def same)
  then have "close_by ctl e c1 = Inr (tcp_handleClose e (sock_close (c1\<lparr>tcp_channel :=
      (tcp_channel c)\<lparr>attached := False\<rparr>, epoll := (epoll c)(ch_fd (tcp_channel c) := None)\<rparr>)))"
    by (simp add: close_by_def)
  with c1 assms(6) that show thesis by (auto simp: ends_def Let_def)
qed

text \<open>End of file, or an error other than \<open>EAGAIN\<close> and \<open>EINTR\<close>, on an attached connection:
  the channel is detached first and the descriptor closed after it, so nothing aborts, the
  kernel forgets the descriptor, and the close handler is called exactly once, with 0 or the
  error; nothing more is read.\<close>

theorem read_end_closes_once:
  assumes "epoll_documented ctl" and "valid (store c) (rcvBuf c)" and "closedHandler_set c"
    and "ch_fd (tcp_channel c) \<ge> 0" and "attached (tcp_channel c)"
    and "epoll c (ch_fd (tcp_channel c)) \<noteq> None" and "ends r e"
  shows "\<exists>c'. tcp_handleRead ctl (r # rs) c = Inr c' \<and> notices c' = notices c @ [Closed e]
    \<and> \<not> attached (tcp_channel c') \<and> \<not> sock_open c' \<and> epoll c' (ch_fd (tcp_channel c)) = None
    \<and> tcp_destroy c' \<noteq> Inl AssertFail"
proof -
  obtain c1 where c1: "refresh_rcvBuf c = Inr c1"
    "tcp_handleRead ctl (r # rs) c = Inr (tcp_handleClose e (sock_close (c1\<lparr>tcp_channel :=
      (tcp_channel c)\<lparr>attached := False\<rparr>, epoll := (epoll c)(ch_fd (tcp_channel c) := None)\<rparr>)))"
    by (rule read_end_eq [OF assms(1,2,4-7)])
  with refresh_frame [OF c1(1)] assms(3) show ?thesis
    by (simp add: tcp_handleClose_def sock_close_def tcp_destroy_def)
qed

definition attached_demo :: connection where
  "attached_demo = setTcpCloseHandler True (projr (tcp_attach sample_ctl demo_connection))"

lemma attached_demo_fields:
  "attached (tcp_channel attached_demo)" "ch_fd (tcp_channel attached_demo) = 5"
  "epoll attached_demo 5 \<noteq> None" "closedHandler_set attached_demo"
  "store attached_demo = store demo_connection" "rcvBuf attached_demo = rcvBuf demo_connection"
  "notices attached_demo = []" "sndBufList attached_demo = []"
  by (simp_all add: attached_demo_def tcp_attach_def attach_def demo_fields attachChannel_def
      updateChannel_def sample_ctl_def setTcpCloseHandler_def)

theorem read_end_closes_once_witness:
  "\<exists>c'. tcp_handleRead sample_ctl [Read_error 104] attached_demo = Inr c'
    \<and> notices c' = [Closed 104]"
  using read_end_closes_once [OF sample_ctl_documented, of attached_demo "Read_error 104" 104 "[]"]
    demo_connection_valid by (auto simp: attached_demo_fields ends_def EAGAIN_def EINTR_def)

section \<open>Sending\<close>

text \<open>The bytes still to be sent.\<close>

definition unsent :: "connection \<Rightarrow> byte list" where
  "unsent c = concat (map (readable (store c)) (sndBufList c))"

definition sizes :: "mem \<Rightarrow> nat list \<Rightarrow> nat" where
  "sizes m bs = sum_list (map (readableSize m) bs)"

lemma markSended_first:
  assumes "valid m b" and "n < readableSize m b"
  shows "\<exists>m'. markSended m (b # bs) n = Inr (m', b # bs) \<and> markRead m b n = Inr m'"
  using assms by (auto simp: markRead_def)

text \<open>
  Partial writes that stay inside the first buffer of the list are accounted for exactly.
\<close>

lemma sendInternal_partial:
  "valid (store c) b \<Longrightarrow> sndBufList c = b # bs \<Longrightarrow> b \<notin> set bs \<Longrightarrow>
    \<forall>(n, e) \<in> set ws. n > 0 \<Longrightarrow> sum_list (map fst ws) < readableSize (store c) b \<Longrightarrow>
    \<exists>c'. sendInternal ctl (map (\<lambda>(n, e). (Wrote n, e)) ws) c = Inr c' \<and> sndBufList c' = b # bs
      \<and> unsent c' = drop (sum_list (map fst ws)) (unsent c)"
proof (induction ws arbitrary: c)
  case Nil
  then show ?case by simp
next
  case (Cons w ws)
  obtain n e where w: "w = (n, e)" by fastforce
  from Cons.prems w have n: "n > 0" "n < readableSize (store c) b" by auto
  from markSended_first [OF Cons.prems(1) n(2)] obtain m where
    m: "markSended (store c) (b # bs) n = Inr (m, b # bs)" "markRead (store c) b n = Inr m" by blast
  note v = markRead_valid [OF Cons.prems(1) m(2) Cons.prems(1)]
    markRead_readable [OF Cons.prems(1) m(2)]
  have o: "readable m q = readable (store c) q" if "q \<in> set bs" for q
  proof -
    from that Cons.prems(3) have "q \<noteq> b" by auto
    with Cons.prems(1) m(2) show ?thesis by (auto simp: markRead_eq split: if_splits)
  qed
  let ?c = "c\<lparr>store := m, sndBufList := b # bs\<rparr>"
  have len: "readableSize m b = readableSize (store c) b - n"
    using length_readable [OF v(1)] length_readable [OF Cons.prems(1)] v(2)
    by (simp add: readableSize_def)
  have u: "unsent ?c = drop n (unsent c)"
    using o v(2) n(2) length_readable [OF Cons.prems(1)] Cons.prems(2)
    by (simp add: unsent_def readableSize_def cong: map_cong)
  have pre: "valid (store ?c) b" "sndBufList ?c = b # bs"
    "\<forall>(n, e) \<in> set ws. n > 0" "sum_list (map fst ws) < readableSize (store ?c) b"
    using v(1) Cons.prems(4,5) len w by auto
  from Cons.IH [OF pre(1,2) Cons.prems(3) pre(3,4)] obtain c' where
    "sendInternal ctl (map (\<lambda>(n, e). (Wrote n, e)) ws) ?c = Inr c'" "sndBufList c' = b # bs"
    "unsent c' = drop (sum_list (map fst ws)) (unsent ?c)" by blast
  with m(1) n w u Cons.prems(2) show ?case
    by (intro exI [of _ c']) (simp add: as_size_t_def add.commute)
qed

text \<open>A size that covers all the buffers, twice over after the first, runs off the list.\<close>

lemma markSended_runs_off:
  "sizes m (b # bs) + sizes m bs \<le> n \<Longrightarrow> sizes m bs < n \<Longrightarrow>
    markSended m (b # bs) n = Inl NullDeref"
proof (induction bs arbitrary: b n)
  case Nil
  then show ?case by (simp add: sizes_def)
next
  case (Cons b' bs)
  let ?s = "n - readableSize m b'"
  have s: "sz_sub n (readableSize m b') = ?s" "?s \<noteq> 0"
    using Cons.prems by (simp_all add: sizes_def)
  have "markSended m (b' # bs) ?s = Inl NullDeref"
    by (rule Cons.IH) (use Cons.prems in \<open>simp_all add: sizes_def\<close>)
  with s Cons.prems show ?case by (simp add: sizes_def Let_def)
qed

text \<open>C31: As long as the kernel takes the first buffer of the list piecemeal, without completing it,
  sending is exact: after any number of such partial writes the unsent bytes are the earlier
  ones less the bytes written, in order.\<close>

theorem partial_writes_exact:
  assumes "valid (store c) b" and "sndBufList c = b # bs" and "b \<notin> set bs"
    and "\<forall>(n, e) \<in> set ws. n > 0" and "sum_list (map fst ws) < readableSize (store c) b"
  shows "\<exists>c'. tcp_handleWrite ctl (map (\<lambda>(n, e). (Wrote n, e)) ws) c = Inr c'
    \<and> sndBufList c' = b # bs \<and> unsent c' = drop (sum_list (map fst ws)) (unsent c)"
  unfolding tcp_handleWrite_def by (rule sendInternal_partial [OF assms])

definition sending_demo :: connection where
  "sending_demo = attached_demo\<lparr>store := \<lparr>vecs = [[1, 2, 3, 4], [5, 6]],
     bufs = [\<lparr>vb_offset = 0, vb_len = 4, vb_buffer = 0\<rparr>, \<lparr>vb_offset = 0, vb_len = 2, vb_buffer = 1\<rparr>]\<rparr>,
     sndBufList := [0, 1]\<rparr>"

lemma sending_demo_valid: "valid (store sending_demo) 0"
  by (simp add: sending_demo_def valid_def mem_ok_def vb_ok_def max_vec_def)

theorem partial_writes_exact_witness:
  "\<exists>c'. tcp_handleWrite sample_ctl [(Wrote 1, 0), (Wrote 2, 0)] sending_demo = Inr c'
    \<and> unsent c' = [4, 5, 6]"
proof -
  have "unsent sending_demo = [1, 2, 3, 4, 5, 6]"
    by (simp add: sending_demo_def unsent_def readable_def)
  with partial_writes_exact [OF sending_demo_valid, of "[1]" "[(1, 0), (2, 0)]" sample_ctl]
  show ?thesis by (auto simp: readableSize_def sending_demo_def)
qed

text \<open>C36: A write that fails, with \<open>EAGAIN\<close> or any other error, is taken for one of \<open>2 ^ 64 - 1\<close>
  bytes: instead of waiting for room, the connection throws its send buffers away and reads
  past the end of the list. So does the ordinary case, a write that completes the only buffer
  of the list: the buffer is erased and the end of the list dereferenced. (The buffers hold less
  than \<open>2 ^ 62\<close> bytes.)\<close>

theorem write_runs_off_the_list:
  assumes "sndBufList c = b # bs" and "sizes (store c) (b # bs) < 2 ^ 62"
  shows "tcp_handleWrite ctl ((Write_error, errno) # rs) c = Inl NullDeref
    \<and> (bs = [] \<longrightarrow> readableSize (store c) b > 0 \<longrightarrow>
        tcp_handleWrite ctl ((Wrote (readableSize (store c) b), errno) # rs) c = Inl NullDeref)"
proof -
  have "markSended (store c) (b # bs) (two64 - 1) = Inl NullDeref"
    by (rule markSended_runs_off) (use assms(2) in \<open>simp_all add: sizes_def\<close>)
  with assms(1) show ?thesis by (simp add: tcp_handleWrite_def as_size_t_def)
qed

theorem write_runs_off_the_list_witness:
  "tcp_handleWrite sample_ctl [(Write_error, EAGAIN)] sending_demo = Inl NullDeref
    \<and> tcp_handleWrite sample_ctl [(Wrote 4, 0)] (sending_demo\<lparr>sndBufList := [0]\<rparr>) = Inl NullDeref"
  using write_runs_off_the_list [of sending_demo 0 "[1]" sample_ctl EAGAIN "[]"]
    write_runs_off_the_list [of "sending_demo\<lparr>sndBufList := [0]\<rparr>" 0 "[]" sample_ctl 0 "[]"]
  by (simp add: sending_demo_def sizes_def readableSize_def)

text \<open>
  Sending an empty buffer on an idle connection (\<open>writev\<close> then returns 0) closes the
  connection unless \<open>errno\<close> happens to be \<open>EAGAIN\<close> or \<open>EINTR\<close>; the channel stays attached to the
  closed descriptor, and detaching it afterwards aborts.
\<close>

lemma empty_send_closes:
  assumes "sndBufList c = []" and "sock_open c" and "errno \<noteq> EAGAIN" and "errno \<noteq> EINTR"
  shows "tcp_send ctl ((Wrote 0, errno) # rs) b c
    = Inr (tcp_handleClose errno (sock_close (c\<lparr>sndBufList := [b]\<rparr>)))"
  using assms by (simp add: tcp_send_def as_size_t_def)

lemma detach_after_close:
  assumes "epoll_documented ctl" and "attached (tcp_channel c)" and "ch_fd (tcp_channel c) \<ge> 0"
    and "epoll c (ch_fd (tcp_channel c)) = None"
  shows "tcp_detach ctl c = Inl AssertFail"
  using assms by (simp add: tcp_detach_def detach_closed)

end
