(* ===== verification/InetSock.thy ===== *)
theory InetSock
  imports Endian
begin

text \<open>
  \<^verbatim>\<open>include/InetAddr.hpp\<close>, \<^verbatim>\<open>InetAddr.cpp\<close>, \<^verbatim>\<open>include/InetSock.hpp\<close> and
  \<^verbatim>\<open>InetSock.cpp\<close>: internet addresses, kept in network byte order and read in host
  order, and the wrappers of the socket calls. The calls themselves (\<open>setsockopt\<close>, \<open>fcntl\<close>,
  \<open>bind\<close>, ...) are arguments; what is modelled is what the code passes to them and does with
  their results.
\<close>

section \<open>Addresses\<close>

record sockaddr_in =
  sin_family :: u16
  sin_port :: u16      \<comment> \<open>network order\<close>
  sin_addr :: u32      \<comment> \<open>network order\<close>

definition AF_INET :: u16 where "AF_INET = 2"
definition INADDR_ANY :: u32 where "INADDR_ANY = 0"

definition InetAddr_ip :: "u32 \<Rightarrow> u16 \<Rightarrow> sockaddr_in" where
  "InetAddr_ip i p = \<lparr>sin_family = AF_INET, sin_port = hton16 p, sin_addr = hton32 i\<rparr>"

definition InetAddr_port :: "u16 \<Rightarrow> sockaddr_in" where
  "InetAddr_port p = \<lparr>sin_family = AF_INET, sin_port = hton16 p, sin_addr = INADDR_ANY\<rparr>"

text \<open>From text: \<open>inet_pton\<close> leaves the address zero when the text is not one.\<close>

definition InetAddr_str :: "(string \<Rightarrow> u32 option) \<Rightarrow> string \<Rightarrow> u16 \<Rightarrow> sockaddr_in" where
  "InetAddr_str inet_pton s p = \<lparr>sin_family = AF_INET, sin_port = hton16 p,
     sin_addr = (case inet_pton s of None \<Rightarrow> 0 | Some a \<Rightarrow> a)\<rparr>"

definition ip :: "sockaddr_in \<Rightarrow> u32" where
  "ip a = ntoh32 (sin_addr a)"

definition port :: "sockaddr_in \<Rightarrow> u16" where
  "port a = ntoh16 (sin_port a)"

definition netEndianIp :: "sockaddr_in \<Rightarrow> u32" where
  "netEndianIp a = sin_addr a"

definition netEndianPort :: "sockaddr_in \<Rightarrow> u32" where
  "netEndianPort a = ucast (sin_port a)"

text \<open>\<open>resolve\<close>: the first address \<open>gethostbyname_r\<close> finds, if any.\<close>

definition resolve :: "(string \<Rightarrow> u32 option) \<Rightarrow> string \<Rightarrow> sockaddr_in \<Rightarrow> bool \<times> sockaddr_in" where
  "resolve lookup host a = (case lookup host of
       None \<Rightarrow> (False, a)
     | Some x \<Rightarrow> (True, a\<lparr>sin_addr := x\<rparr>))"

text \<open>\<open>inet_ntop\<close>: the bytes of the address in memory order, in decimal, with dots.\<close>

fun decimal :: "nat \<Rightarrow> string" where
  "decimal n = (if n < 10 then [char_of (48 + n)] else decimal (n div 10) @ [char_of (48 + n mod 10)])"

declare decimal.simps [simp del]

fun dotted :: "byte list \<Rightarrow> string" where
  "dotted [] = []"
| "dotted [b] = decimal (unat b)"
| "dotted (b # bs) = decimal (unat b) @ ''.'' @ dotted bs"

definition inet_ntop :: "u32 \<Rightarrow> string" where
  "inet_ntop a = dotted (store_le 4 a)"

text \<open>\<open>_ipstr\<close> holds 16 characters, \<open>_ipportstr\<close> 22, terminating zero included.\<close>

definition strIp :: "sockaddr_in \<Rightarrow> string option" where
  "strIp a = (let s = inet_ntop (sin_addr a) in if length s < 16 then Some s else None)"

definition strIpPort :: "sockaddr_in \<Rightarrow> string option" where
  "strIpPort a = map_option
     (\<lambda>s. take 21 (s @ '':'' @ decimal (unat (ntoh16 (sin_port a))))) (strIp a)"

lemma InetAddr_reads: "ip (InetAddr_ip i p) = i" "port (InetAddr_ip i p) = p"
  by (simp_all add: ip_def port_def InetAddr_ip_def net32.ntoh_hton net16.ntoh_hton)

lemma decimal_length: "n < 10 ^ Suc k \<Longrightarrow> length (decimal n) \<le> Suc k"
proof (induction k arbitrary: n)
  case 0
  then show ?case by (subst decimal.simps) simp
next
  case (Suc k)
  show ?case
  proof (cases "n < 10")
    case True
    then show ?thesis by (subst decimal.simps) simp
  next
    case False
    have "n div 10 < 10 ^ Suc k" using Suc.prems by simp
    from Suc.IH [OF this] False show ?thesis by (subst decimal.simps) simp
  qed
qed

lemma decimal_byte: "length (decimal (unat (b :: byte))) \<le> 3"
  using decimal_length [of "unat b" 2] unsigned_less [of b, where 'a = nat] by simp

lemma decimal_port: "length (decimal (unat (p :: u16))) \<le> 5"
  using decimal_length [of "unat p" 4] unsigned_less [of p, where 'a = nat] by simp

lemma store_le_4: "store_le 4 (x :: u32) = [ucast x, ucast (drop_bit 8 x), ucast (drop_bit 16 x), ucast (drop_bit 24 x)]"
  by (simp add: store_le_def upt_rec)

lemma inet_ntop_length: "length (inet_ntop a) \<le> 15"
  using decimal_byte [of "ucast a"] decimal_byte [of "ucast (drop_bit 8 a)"]
    decimal_byte [of "ucast (drop_bit 16 a)"] decimal_byte [of "ucast (drop_bit 24 a)"]
  by (simp add: inet_ntop_def store_le_4 del: ucast_drop_bit_eq)

text \<open>
  The description of a connection that its constructor prints for the log (\<^verbatim>\<open>include/TcpConnection.hpp\<close>):
  \<open>snprintf\<close> of descriptor, address and port into 40 bytes. Descriptors are not negative.
\<close>

definition tcp_strInfo :: "nat \<Rightarrow> sockaddr_in \<Rightarrow> string option" where
  "tcp_strInfo fd a = map_option (\<lambda>s. take 39 (''['' @ decimal fd @ '','' @ s @ '':''
     @ decimal (unat (ntoh16 (sin_port a))) @ '']'' @ [CHR 0x09])) (strIp a)"

text \<open>It is never cut.\<close>

lemma tcp_strInfo_fits:
  assumes "fd < 2 ^ 31"
  shows "tcp_strInfo fd (InetAddr_ip i p) = Some (''['' @ decimal fd @ '',''
    @ dotted (rev (store_le 4 i)) @ '':'' @ decimal (unat p) @ '']'' @ [CHR 0x09])"
proof -
  have s: "inet_ntop (hton32 i) = dotted (rev (store_le 4 i))"
    by (simp add: inet_ntop_def hton32_def store_byte_swap)
  have "length (dotted (rev (store_le 4 i))) \<le> 15" using inet_ntop_length [of "hton32 i"] s by simp
  moreover have "length (decimal (unat p)) \<le> 5" by (rule decimal_port)
  moreover have "length (decimal fd) \<le> 10" using decimal_length [of fd 9] assms by simp
  ultimately show ?thesis
    by (simp add: tcp_strInfo_def strIp_def InetAddr_ip_def s net16.ntoh_hton)
qed

section \<open>Sockets\<close>

definition O_NONBLOCK :: u32 where "O_NONBLOCK = 0x800"

text \<open>The flags \<open>setNonblocking\<close> sets, from those \<open>fcntl\<close> read.\<close>

definition nonblocking_flags :: "bool \<Rightarrow> u32 \<Rightarrow> u32" where
  "nonblocking_flags enable flags = (if enable then flags OR O_NONBLOCK else flags AND NOT O_NONBLOCK)"

text \<open>\<open>setNonblocking\<close> on the flags of the descriptors; \<open>CHKRET\<close> on a descriptor that is not open.\<close>

definition setNonblocking :: "int \<Rightarrow> bool \<Rightarrow> (int \<Rightarrow> u32 option) \<Rightarrow> (int \<Rightarrow> u32 option) res" where
  "setNonblocking fd enable fl = (case fl fd of
       None \<Rightarrow> Inl AssertFail
     | Some flags \<Rightarrow> Inr (fl(fd \<mapsto> nonblocking_flags enable flags)))"

datatype sockopt = SO_REUSEADDR | SO_REUSEPORT | SO_RCVBUF | SO_SNDBUF | SO_SNDTIMEO | SO_RCVTIMEO
  | SO_KEEPALIVE

text \<open>A call of \<open>setsockopt\<close>: descriptor, option, an \<open>int\<close> value and the size passed for it.\<close>

type_synonym setsockopt = "int \<Rightarrow> sockopt \<Rightarrow> int \<Rightarrow> nat \<Rightarrow> int"

definition setBool :: "setsockopt \<Rightarrow> int \<Rightarrow> sockopt \<Rightarrow> bool \<Rightarrow> int" where
  "setBool call fd opt enable = call fd opt (if enable then 1 else 0) 4"

definition enableReuseAddr :: "setsockopt \<Rightarrow> int \<Rightarrow> bool \<Rightarrow> int" where
  "enableReuseAddr call fd enable = setBool call fd SO_REUSEADDR enable"
definition enableReusePort :: "setsockopt \<Rightarrow> int \<Rightarrow> bool \<Rightarrow> int" where
  "enableReusePort call fd enable = setBool call fd SO_REUSEPORT enable"
definition setKeepAlive :: "setsockopt \<Rightarrow> int \<Rightarrow> bool \<Rightarrow> int" where
  "setKeepAlive call fd enable = setBool call fd SO_KEEPALIVE enable"

definition setRecvBufSize :: "setsockopt \<Rightarrow> int \<Rightarrow> int \<Rightarrow> int" where
  "setRecvBufSize call fd n = call fd SO_RCVBUF n 4"

definition setSendBufSize :: "setsockopt \<Rightarrow> int \<Rightarrow> int \<Rightarrow> int" where
  "setSendBufSize call fd n = call fd SO_SNDBUF n 4"

definition setSendTimeout :: "setsockopt \<Rightarrow> int \<Rightarrow> int \<Rightarrow> int" where
  "setSendTimeout call fd msec = call fd SO_SNDTIMEO msec 4"

definition setRecvTimeout :: "setsockopt \<Rightarrow> int \<Rightarrow> int \<Rightarrow> int" where
  "setRecvTimeout call fd msec = call fd SO_RCVTIMEO msec 4"

text \<open>
  \<open>socket(7)\<close>: the timeouts take a \<open>struct timeval\<close> of 16 bytes; a shorter value is \<open>EINVAL\<close>.
\<close>

definition timeouts_need_timeval :: "setsockopt \<Rightarrow> bool" where
  "timeouts_need_timeval call \<longleftrightarrow> (\<forall>fd opt v len. (opt = SO_SNDTIMEO \<or> opt = SO_RCVTIMEO) \<longrightarrow>
     len < 16 \<longrightarrow> call fd opt v len = - 1)"

text \<open>The address \<open>bind(uint16_t)\<close> and \<open>sendto(..., rip, rport)\<close> build.\<close>

definition bind_port_addr :: "u16 \<Rightarrow> sockaddr_in" where
  "bind_port_addr p = \<lparr>sin_family = AF_INET, sin_port = hton16 p, sin_addr = INADDR_ANY\<rparr>"

definition sendto_addr :: "u32 \<Rightarrow> u16 \<Rightarrow> sockaddr_in" where
  "sendto_addr rip rport = \<lparr>sin_family = AF_INET, sin_port = hton16 rport, sin_addr = hton32 rip\<rparr>"

text \<open>
  The constructors of \<open>StreamSocket\<close> and \<open>DGramSocket\<close> from a port: a stream socket on port 0 is
  left to the system; a datagram socket is always bound.
\<close>

definition new_StreamSocket :: "int \<Rightarrow> (sockaddr_in \<Rightarrow> int) \<Rightarrow> u16 \<Rightarrow> int res" where
  "new_StreamSocket fd call_bind p = assert_then (fd \<ge> 0)
     (if p \<noteq> 0 then assert_then (call_bind (bind_port_addr p) \<noteq> - 1) (Inr fd) else Inr fd)"

definition new_DGramSocket :: "int \<Rightarrow> (sockaddr_in \<Rightarrow> int) \<Rightarrow> u16 \<Rightarrow> int res" where
  "new_DGramSocket fd call_bind p = assert_then (fd \<ge> 0)
     (assert_then (call_bind (bind_port_addr p) \<noteq> - 1) (Inr fd))"

text \<open>The constructors from an address, which is always bound.\<close>

definition new_StreamSocket_at :: "int \<Rightarrow> (sockaddr_in \<Rightarrow> int) \<Rightarrow> sockaddr_in \<Rightarrow> int res" where
  "new_StreamSocket_at fd call_bind a =
     assert_then (fd \<ge> 0) (assert_then (call_bind a \<noteq> - 1) (Inr fd))"

definition new_DGramSocket_at :: "int \<Rightarrow> (sockaddr_in \<Rightarrow> int) \<Rightarrow> sockaddr_in \<Rightarrow> int res" where
  "new_DGramSocket_at fd call_bind a =
     assert_then (fd \<ge> 0) (assert_then (call_bind a \<noteq> - 1) (Inr fd))"

text \<open>
  The calls that pass an address pass the size of a \<open>sockaddr_in\<close>, 16 bytes; \<open>accept\<close> gets the
  address to fill in, although it is declared \<open>const\<close>.
\<close>

type_synonym address_call = "int \<Rightarrow> sockaddr_in \<Rightarrow> nat \<Rightarrow> int"

definition sock_bind :: "address_call \<Rightarrow> int \<Rightarrow> sockaddr_in \<Rightarrow> int" where
  "sock_bind call fd a = call fd a 16"

definition sock_bind_port :: "address_call \<Rightarrow> int \<Rightarrow> u16 \<Rightarrow> int" where
  "sock_bind_port call fd p = call fd (bind_port_addr p) 16"

definition sock_connect :: "address_call \<Rightarrow> int \<Rightarrow> sockaddr_in \<Rightarrow> int" where
  "sock_connect call fd remote = call fd remote 16"

definition sock_listen :: "(int \<Rightarrow> int \<Rightarrow> int) \<Rightarrow> int \<Rightarrow> int \<Rightarrow> int" where
  "sock_listen call fd backlog = call fd backlog"

definition sock_accept :: "(int \<Rightarrow> nat \<Rightarrow> int \<times> sockaddr_in) \<Rightarrow> int \<Rightarrow> int \<times> sockaddr_in" where
  "sock_accept call fd = call fd 16"

text \<open>
  The calls that move data: descriptor, data or room, flags. What a call of the kernel that receives
  stores is part of its result. A message of \<open>sendmsg\<close> and \<open>recvmsg\<close> is passed on as it is.
\<close>

definition sock_send :: "(int \<Rightarrow> byte list \<Rightarrow> int \<Rightarrow> int) \<Rightarrow> int \<Rightarrow> byte list \<Rightarrow> int \<Rightarrow> int" where
  "sock_send call fd buf flags = call fd buf flags"

definition sock_recv :: "(int \<Rightarrow> nat \<Rightarrow> int \<Rightarrow> int \<times> byte list) \<Rightarrow> int \<Rightarrow> nat \<Rightarrow> int \<Rightarrow> int \<times> byte list" where
  "sock_recv call fd len flags = call fd len flags"

definition sock_writev :: "(int \<Rightarrow> byte list list \<Rightarrow> int) \<Rightarrow> int \<Rightarrow> byte list list \<Rightarrow> int" where
  "sock_writev call fd iov = call fd iov"

definition sock_readv :: "(int \<Rightarrow> nat list \<Rightarrow> int \<times> byte list) \<Rightarrow> int \<Rightarrow> nat list \<Rightarrow> int \<times> byte list" where
  "sock_readv call fd iov = call fd iov"

definition sock_sendmsg :: "(int \<Rightarrow> 'm \<Rightarrow> int \<Rightarrow> int) \<Rightarrow> int \<Rightarrow> 'm \<Rightarrow> int \<Rightarrow> int" where
  "sock_sendmsg call fd msg flags = call fd msg flags"

definition sock_recvmsg :: "(int \<Rightarrow> 'm \<Rightarrow> int \<Rightarrow> int \<times> 'm) \<Rightarrow> int \<Rightarrow> 'm \<Rightarrow> int \<Rightarrow> int \<times> 'm" where
  "sock_recvmsg call fd msg flags = call fd msg flags"

type_synonym sendto_call = "int \<Rightarrow> byte list \<Rightarrow> int \<Rightarrow> sockaddr_in \<Rightarrow> nat \<Rightarrow> int"

definition sock_sendto :: "sendto_call \<Rightarrow> int \<Rightarrow> byte list \<Rightarrow> int \<Rightarrow> sockaddr_in \<Rightarrow> int" where
  "sock_sendto call fd buf flags addr = call fd buf flags addr 16"

definition sock_sendto_ip :: "sendto_call \<Rightarrow> int \<Rightarrow> byte list \<Rightarrow> int \<Rightarrow> u32 \<Rightarrow> u16 \<Rightarrow> int" where
  "sock_sendto_ip call fd buf flags rip rport = sock_sendto call fd buf flags (sendto_addr rip rport)"

text \<open>\<open>getSocketError\<close>: the pending error, or why it could not be read.\<close>

definition getSocketError :: "(int \<Rightarrow> int \<times> int \<times> int) \<Rightarrow> int \<Rightarrow> int" where
  "getSocketError call fd = (case call fd of (ret, optval, errno) \<Rightarrow> if ret < 0 then errno else optval)"

text \<open>
  The address of a socket's own end, and of its peer: when the call fails (\<open>None\<close>), the message that
  is logged has \<open>%s\<close> for a number, and formatting it reads at that address.
\<close>

definition getLocalAddr :: "(int \<Rightarrow> sockaddr_in option) \<Rightarrow> int \<Rightarrow> sockaddr_in res" where
  "getLocalAddr getsockname fd = (case getsockname fd of None \<Rightarrow> Inl OutOfBounds | Some a \<Rightarrow> Inr a)"

definition getPeerAddr :: "(int \<Rightarrow> sockaddr_in option) \<Rightarrow> int \<Rightarrow> sockaddr_in res" where
  "getPeerAddr getpeername fd = (case getpeername fd of None \<Rightarrow> Inl OutOfBounds | Some a \<Rightarrow> Inr a)"

text \<open>The two ways to make a bound socket agree.\<close>

lemma socket_on_port:
  "p \<noteq> 0 \<Longrightarrow> new_StreamSocket fd call_bind p = new_StreamSocket_at fd call_bind (InetAddr_port p)"
  "new_DGramSocket fd call_bind p = new_DGramSocket_at fd call_bind (InetAddr_port p)"
  by (simp_all add: new_StreamSocket_def new_StreamSocket_at_def new_DGramSocket_def
      new_DGramSocket_at_def bind_port_addr_def InetAddr_port_def)

section \<open>Properties\<close>

text \<open>An address built from a host-order address and port gives both back, lies in memory in
  network order, and is the one \<open>sendto\<close> builds from the same numbers.\<close>

theorem InetAddr_roundtrip:
  "ip (InetAddr_ip i p) = i \<and> port (InetAddr_ip i p) = p
    \<and> store_le 4 (netEndianIp (InetAddr_ip i p)) = rev (store_le 4 i)
    \<and> sendto_addr i p = InetAddr_ip i p \<and> bind_port_addr p = InetAddr_port p"
  by (simp add: ip_def port_def InetAddr_ip_def InetAddr_port_def sendto_addr_def bind_port_addr_def
      netEndianIp_def net32.ntoh_hton net16.ntoh_hton)
    (simp add: hton32_def store_byte_swap)

text \<open>The text of an address always fits its buffers: it is never cut, and reads most
  significant byte first, then the port.\<close>

theorem strIpPort_fits:
  "strIpPort (InetAddr_ip i p) = Some (dotted (rev (store_le 4 i)) @ '':'' @ decimal (unat p))"
proof -
  have s: "inet_ntop (hton32 i) = dotted (rev (store_le 4 i))"
    by (simp add: inet_ntop_def hton32_def store_byte_swap)
  have "length (dotted (rev (store_le 4 i))) \<le> 15" using inet_ntop_length [of "hton32 i"] s by simp
  moreover have "length (decimal (unat p)) \<le> 5" by (rule decimal_port)
  ultimately show ?thesis
    by (simp add: strIpPort_def strIp_def InetAddr_ip_def s net16.ntoh_hton)
qed

text \<open>\<open>setNonblocking\<close> changes that one flag and no other, and undoes itself on a descriptor
  that was blocking.\<close>

theorem setNonblocking_only:
  "nonblocking_flags e fl AND NOT O_NONBLOCK = fl AND NOT O_NONBLOCK
    \<and> (nonblocking_flags e fl AND O_NONBLOCK \<noteq> 0 \<longleftrightarrow> e)
    \<and> (fl AND O_NONBLOCK = 0 \<longrightarrow> nonblocking_flags False (nonblocking_flags True fl) = fl)"
proof -
  have nz: "O_NONBLOCK \<noteq> 0" by (simp add: O_NONBLOCK_def)
  have "(fl OR O_NONBLOCK) AND O_NONBLOCK = O_NONBLOCK"
    by (rule bit_word_eqI) (auto simp: bit_simps)
  moreover have "(fl AND NOT O_NONBLOCK) AND O_NONBLOCK = 0"
    by (rule bit_word_eqI) (auto simp: bit_simps)
  moreover have "(fl OR O_NONBLOCK) AND NOT O_NONBLOCK = fl AND NOT O_NONBLOCK"
    by (rule bit_word_eqI) (auto simp: bit_simps)
  moreover have "fl AND NOT O_NONBLOCK = fl" if "fl AND O_NONBLOCK = 0"
  proof (rule bit_word_eqI)
    fix n
    have "\<not> bit (fl AND O_NONBLOCK) n" using that by simp
    then show "bit (fl AND NOT O_NONBLOCK) n \<longleftrightarrow> bit fl n"
      by (auto simp: bit_and_iff bit_not_iff dest: bit_imp_le_length)
  qed
  ultimately show ?thesis
    using nz by (cases e) (simp_all add: nonblocking_flags_def and.assoc)
qed

text \<open>The socket timeouts never take effect: \<open>setSendTimeout\<close> and \<open>setRecvTimeout\<close> pass an
  \<open>int\<close> where a \<open>timeval\<close> is needed, and the call fails.\<close>

theorem timeouts_fail:
  assumes "timeouts_need_timeval call"
  shows "setSendTimeout call fd msec = - 1 \<and> setRecvTimeout call fd msec = - 1"
  using assms by (simp add: timeouts_need_timeval_def setSendTimeout_def setRecvTimeout_def)

theorem timeouts_fail_witness:
  "setSendTimeout (\<lambda>fd opt v len. if len < 16 then - 1 else 0) 3 500 = - 1"
  using timeouts_fail [of "\<lambda>fd opt v len. if len < 16 then - 1 else 0" 3 500]
  by (simp add: timeouts_need_timeval_def)

end
