(* ===== verification/MessageLooper.thy ===== *)
theory MessageLooper
  imports Prelude
begin

text \<open>
  \<^verbatim>\<open>include/MessageLooper.hpp\<close>, \<^verbatim>\<open>MessageLooper.cpp\<close> and
  \<^verbatim>\<open>include/LooperPool.hpp\<close>: a queue of messages and functors a thread works off, and the
  pool that hands loopers out in turn. What a handler or a functor does is a parameter: its
  effect on the owner's state and whether it posts to the looper that is running it.
\<close>

section \<open>Messages\<close>

definition MSG_TERM :: int where "MSG_TERM = - 1"
definition MSG_FUNC :: int where "MSG_FUNC = 0"

record 'f LoopMessage =
  getFunctor :: "'f option"      \<comment> \<open>\<open>None\<close> is an empty \<open>std::function\<close>\<close>
  what :: int
  lparam :: u64
  rparam :: u64

text \<open>The constructor from a functor by reference, and by move (which does not check it).\<close>

definition LoopMessage_copy :: "'f option \<Rightarrow> 'f LoopMessage res" where
  "LoopMessage_copy func = assert_then (func \<noteq> None)
     (Inr \<lparr>getFunctor = func, what = MSG_FUNC, lparam = 0, rparam = 0\<rparr>)"

definition LoopMessage_move :: "'f option \<Rightarrow> 'f LoopMessage" where
  "LoopMessage_move func = \<lparr>getFunctor = func, what = MSG_FUNC, lparam = 0, rparam = 0\<rparr>"

definition LoopMessage_what :: "int \<Rightarrow> u64 \<Rightarrow> u64 \<Rightarrow> 'f LoopMessage res" where
  "LoopMessage_what w l r = assert_then (MSG_FUNC \<noteq> w)
     (Inr \<lparr>getFunctor = None, what = w, lparam = l, rparam = r\<rparr>)"

section \<open>The looper\<close>

record 'f msg_looper =
  mq :: "'f LoopMessage list"
  has_handler :: bool

definition new_MessageLooper :: "'f msg_looper" where
  "new_MessageLooper = \<lparr>mq = [], has_handler = False\<rparr>"

definition setHandler :: "bool \<Rightarrow> 'f msg_looper \<Rightarrow> 'f msg_looper" where
  "setHandler h l = l\<lparr>has_handler := h\<rparr>"

definition postMessage :: "'f LoopMessage \<Rightarrow> bool \<Rightarrow> 'f msg_looper \<Rightarrow> 'f msg_looper" where
  "postMessage m first l = l\<lparr>mq := (if first then m # mq l else mq l @ [m])\<rparr>"

definition postFunctor :: "'f option \<Rightarrow> bool \<Rightarrow> 'f msg_looper \<Rightarrow> 'f msg_looper res" where
  "postFunctor f first l = bind_res (LoopMessage_copy f) (\<lambda>m. Inr (postMessage m first l))"

definition postFunctor_move :: "'f option \<Rightarrow> bool \<Rightarrow> 'f msg_looper \<Rightarrow> 'f msg_looper" where
  "postFunctor_move f first l = postMessage (LoopMessage_move f) first l"

definition post_what :: "int \<Rightarrow> u64 \<Rightarrow> u64 \<Rightarrow> bool \<Rightarrow> 'f msg_looper \<Rightarrow> 'f msg_looper res" where
  "post_what w lp rp first l =
     bind_res (LoopMessage_what w lp rp) (\<lambda>m. Inr (postMessage m first l))"

definition ml_stopLoop :: "bool \<Rightarrow> 'f msg_looper \<Rightarrow> 'f msg_looper res" where
  "ml_stopLoop immediate l = post_what MSG_TERM 0 0 immediate l"

text \<open>
  The effects of user code: \<open>handle\<close> and \<open>call\<close> yield the new state and whether they posted to
  this looper. The lock of the queue is still held while they run (\<open>lck\<close> lives to the end of
  the loop body), so such a post never returns.
\<close>

record ('f, 's) effects =
  handle :: "'f LoopMessage \<Rightarrow> 's \<Rightarrow> 's \<times> bool"
  call :: "'f \<Rightarrow> 's \<Rightarrow> 's \<times> bool"

definition unless_posts :: "'s \<times> bool \<Rightarrow> 's res" where
  "unless_posts r = (if snd r then Inl Deadlock else Inr (fst r))"

text \<open>One message: \<open>None\<close> when it ends the loop.\<close>

definition process ::
  "('f, 's) effects \<Rightarrow> bool \<Rightarrow> 'f LoopMessage \<Rightarrow> 's \<Rightarrow> 's option res" where
  "process eff hs m s =
     (if what m > 0 then assert_then hs (bind_res (unless_posts (handle eff m s)) (\<lambda>s'. Inr (Some s')))
      else if what m = MSG_FUNC then
        (case getFunctor m of
           None \<Rightarrow> Inl BadFunctionCall
         | Some f \<Rightarrow> bind_res (unless_posts (call eff f s)) (\<lambda>s'. Inr (Some s')))
      else Inr None)"

text \<open>How a run of the loop over the messages present ends: stopped, or waiting for more.\<close>

datatype loop_end = Stopped | Waits

fun work :: "('f, 's) effects \<Rightarrow> bool \<Rightarrow> 'f LoopMessage list \<Rightarrow> 's
    \<Rightarrow> ('s \<times> 'f LoopMessage list \<times> loop_end) res" where
  "work eff hs [] s = Inr (s, [], Waits)"
| "work eff hs (m # ms) s =
     bind_res (process eff hs m s) (\<lambda>r. case r of
         None \<Rightarrow> Inr (s, ms, Stopped)
       | Some s' \<Rightarrow> work eff hs ms s')"

definition ml_startLoop ::
  "('f, 's) effects \<Rightarrow> 'f msg_looper \<Rightarrow> 's \<Rightarrow> ('s \<times> 'f msg_looper \<times> loop_end) res" where
  "ml_startLoop eff l s = bind_res (work eff (has_handler l) (mq l) s)
     (\<lambda>(s', ms, e). Inr (s', l\<lparr>mq := ms\<rparr>, e))"

section \<open>What a run does\<close>

text \<open>A message that user code handles without posting to the looper.\<close>

definition served :: "('f, 's) effects \<Rightarrow> bool \<Rightarrow> 'f LoopMessage \<Rightarrow> bool" where
  "served eff hs m \<longleftrightarrow>
     (what m > 0 \<and> hs \<and> (\<forall>s. \<not> snd (handle eff m s)))
     \<or> (what m = MSG_FUNC \<and> (\<exists>f. getFunctor m = Some f \<and> (\<forall>s. \<not> snd (call eff f s))))"

definition effect_of :: "('f, 's) effects \<Rightarrow> 'f LoopMessage \<Rightarrow> 's \<Rightarrow> 's" where
  "effect_of eff m s = (if what m > 0 then fst (handle eff m s)
     else case getFunctor m of None \<Rightarrow> s | Some f \<Rightarrow> fst (call eff f s))"

lemma process_served: "served eff hs m \<Longrightarrow> process eff hs m s = Inr (Some (effect_of eff m s))"
  by (auto simp: served_def process_def unless_posts_def effect_of_def MSG_FUNC_def
      split: option.splits)

lemma work_served:
  "\<forall>m \<in> set ms. served eff hs m \<Longrightarrow>
    work eff hs (ms @ rest) s = work eff hs rest (fold (effect_of eff) ms s)"
  by (induction ms arbitrary: s) (simp_all add: process_served)

lemma process_term: "what m < 0 \<Longrightarrow> process eff hs m s = Inr None"
  by (simp add: process_def MSG_FUNC_def)

lemma stopLoop_eq:
  "\<exists>m. what m < 0 \<and> ml_stopLoop immediate l = Inr (postMessage m immediate l)"
  by (rule exI [of _ "\<lparr>getFunctor = None, what = MSG_TERM, lparam = 0, rparam = 0\<rparr>"])
    (simp add: ml_stopLoop_def post_what_def LoopMessage_what_def MSG_FUNC_def MSG_TERM_def)

lemma postMessage_fields [simp]:
  "has_handler (postMessage m first l) = has_handler l"
  "mq (postMessage m first l) = (if first then m # mq l else mq l @ [m])"
  by (simp_all add: postMessage_def)

text \<open>Posting a batch: what is posted at the front comes first and in reverse.\<close>

definition post_all :: "(bool \<times> 'f LoopMessage) list \<Rightarrow> 'f msg_looper \<Rightarrow> 'f msg_looper" where
  "post_all ps l = fold (\<lambda>(first, m). postMessage m first) ps l"

lemma post_all_fields:
  "has_handler (post_all ps l) = has_handler l
    \<and> mq (post_all ps l)
      = rev (map snd (filter fst ps)) @ mq l @ map snd (filter (\<lambda>p. \<not> fst p) ps)"
proof (induction ps arbitrary: l)
  case Nil
  show ?case by (simp add: post_all_def)
next
  case (Cons p ps)
  have "post_all (p # ps) l = post_all ps (postMessage (snd p) (fst p) l)"
    by (simp add: post_all_def split_beta)
  with Cons.IH [of "postMessage (snd p) (fst p) l"] show ?case
    by (cases "fst p") simp_all
qed

section \<open>Properties of the looper\<close>

text \<open>Messages posted while the looper is idle are all handled before an orderly \<open>stopLoop()\<close>
  ends the loop: first those posted to the front, the latest first, then the others in posting
  order; the queue is empty afterwards.\<close>

theorem orderly_stop_drains:
  assumes "\<forall>m \<in> snd ` set ps. served eff (has_handler l) m" and "mq l = []"
    and "ml_stopLoop False (post_all ps l) = Inr l'"
  shows "ml_startLoop eff l' s =
    Inr (fold (effect_of eff)
           (rev (map snd (filter fst ps)) @ map snd (filter (\<lambda>p. \<not> fst p) ps)) s,
         l'\<lparr>mq := []\<rparr>, Stopped)"
proof -
  let ?ms = "rev (map snd (filter fst ps)) @ map snd (filter (\<lambda>p. \<not> fst p) ps)"
  from stopLoop_eq [of False "post_all ps l"] assms(3) obtain m where
    m: "what m < 0" "l' = postMessage m False (post_all ps l)" by auto
  have l': "mq l' = ?ms @ [m]" "has_handler l' = has_handler l"
    using m(2) assms(2) by (simp_all add: post_all_fields)
  have "\<forall>m \<in> set ?ms. served eff (has_handler l') m"
    using assms(1) l'(2) by auto
  from work_served [OF this, of "[m]" s] m(1)
  show ?thesis by (simp add: ml_startLoop_def l' process_term)
qed

definition note_effects :: "(nat, nat list) effects" where
  "note_effects = \<lparr>handle = \<lambda>m log. (log @ [nat (what m)], False),
     call = \<lambda>f log. (log @ [f], False)\<rparr>"

theorem orderly_stop_drains_witness:
  "\<exists>l'. ml_stopLoop False (post_all [(False, LoopMessage_move (Some 1)),
        (True, LoopMessage_move (Some 2)), (False, LoopMessage_move (Some 3))] new_MessageLooper)
      = Inr l' \<and> ml_startLoop note_effects l' [] = Inr ([2, 1, 3], l'\<lparr>mq := []\<rparr>, Stopped)"
proof -
  let ?ps = "[(False, LoopMessage_move (Some 1)), (True, LoopMessage_move (Some 2)),
    (False, LoopMessage_move (Some (3::nat)))]"
  obtain l' where l': "ml_stopLoop False (post_all ?ps new_MessageLooper) = Inr l'"
    using stopLoop_eq by blast
  have "\<forall>m \<in> snd ` set ?ps. served note_effects (has_handler new_MessageLooper) m"
    by (auto simp: served_def LoopMessage_move_def note_effects_def)
  from orderly_stop_drains [OF this _ l', of "[]"] l' show ?thesis
    by (intro exI [of _ l'])
      (simp add: new_MessageLooper_def effect_of_def LoopMessage_move_def note_effects_def
        MSG_FUNC_def)
qed

text \<open>\<open>stopLoop(true)\<close> overtakes everything queued: the loop ends without handling any of
  the messages, which stay in the queue.\<close>

theorem immediate_stop_handles_nothing:
  assumes "ml_stopLoop True l = Inr l'"
  shows "ml_startLoop eff l' s = Inr (s, l'\<lparr>mq := mq l\<rparr>, Stopped)"
proof -
  from stopLoop_eq [of True l] assms obtain m where
    m: "what m < 0" "l' = postMessage m True l" by auto
  then show ?thesis by (simp add: ml_startLoop_def process_term)
qed

theorem immediate_stop_handles_nothing_witness:
  "\<exists>l'. ml_stopLoop True (postMessage (LoopMessage_move (Some 5)) False new_MessageLooper) = Inr l'
    \<and> ml_startLoop note_effects l' [] = Inr ([], l'\<lparr>mq := [LoopMessage_move (Some 5)]\<rparr>, Stopped)"
proof -
  let ?l = "postMessage (LoopMessage_move (Some (5::nat))) False new_MessageLooper"
  obtain l' where l': "ml_stopLoop True ?l = Inr l'" using stopLoop_eq by blast
  from immediate_stop_handles_nothing [OF l', of note_effects "[]"] l' show ?thesis
    by (intro exI [of _ l']) (simp add: new_MessageLooper_def)
qed

text \<open>A functor that posts to the looper running it never returns: the loop thread locks the
  queue's mutex while it already holds it.\<close>

theorem posting_functor_deadlocks:
  assumes "mq l = ms @ LoopMessage_move (Some f) # rest" and "\<forall>m \<in> set ms. served eff (has_handler l) m"
    and "snd (call eff f (fold (effect_of eff) ms s))"
  shows "ml_startLoop eff l s = Inl Deadlock"
  using work_served [OF assms(2), of "LoopMessage_move (Some f) # rest" s] assms(3)
  by (simp add: ml_startLoop_def assms(1) process_def LoopMessage_move_def unless_posts_def
      MSG_FUNC_def)

theorem posting_functor_deadlocks_witness:
  "ml_startLoop (note_effects\<lparr>call := \<lambda>f log. (log, f = 9)\<rparr>)
     (postFunctor_move (Some 9) False (postFunctor_move (Some 1) False new_MessageLooper)) []
   = Inl Deadlock"
  by (rule posting_functor_deadlocks [where ms = "[LoopMessage_move (Some 1)]" and f = 9 and rest = "[]"])
    (simp_all add: postFunctor_move_def new_MessageLooper_def served_def LoopMessage_move_def
      MSG_FUNC_def)

section \<open>The pool\<close>

record 'l pool =
  loopers :: "'l list"
  pool_attach :: bool
  lastLooperIdx :: nat

definition new_LooperPool :: "'l list \<Rightarrow> bool \<Rightarrow> 'l pool" where
  "new_LooperPool ls att = \<lparr>loopers = ls, pool_attach = att, lastLooperIdx = 0\<rparr>"

definition getLooper :: "'l pool \<Rightarrow> ('l pool \<times> 'l) res" where
  "getLooper p =
     (if lastLooperIdx p < length (loopers p)
      then Inr (p\<lparr>lastLooperIdx := (lastLooperIdx p + 1) mod length (loopers p)\<rparr>,
                loopers p ! lastLooperIdx p)
      else Inl OutOfBounds)"

text \<open>The destructor, as the calls it makes for each looper and its thread.\<close>

datatype 'l pool_call = Stop_loop 'l | Join_thread 'l | Delete_thread 'l | Delete_looper 'l

definition delete_LooperPool :: "'l pool \<Rightarrow> 'l pool_call list" where
  "delete_LooperPool p = concat (map (\<lambda>l. [Stop_loop l] @ (if pool_attach p then [Join_thread l] else [])
     @ [Delete_thread l, Delete_looper l]) (loopers p))"

text \<open>In a pool of detached threads no looper's thread is waited for before the looper is deleted.\<close>

lemma pool_joins_iff_attached:
  "l \<in> set (loopers p) \<Longrightarrow> Delete_looper l \<in> set (delete_LooperPool p)
    \<and> (Join_thread l \<in> set (delete_LooperPool p) \<longleftrightarrow> pool_attach p)"
  by (auto simp: delete_LooperPool_def)

fun getLoopers :: "nat \<Rightarrow> 'l pool \<Rightarrow> ('l pool \<times> 'l list) res" where
  "getLoopers 0 p = Inr (p, [])"
| "getLoopers (Suc n) p = bind_res (getLooper p)
     (\<lambda>(p', x). bind_res (getLoopers n p') (\<lambda>(p'', xs). Inr (p'', x # xs)))"

lemma getLoopers_from:
  "lastLooperIdx p < length (loopers p) \<Longrightarrow>
    \<exists>p'. getLoopers n p = Inr (p', map (\<lambda>j. loopers p ! ((lastLooperIdx p + j) mod length (loopers p)))
      [0..<n]) \<and> loopers p' = loopers p"
proof (induction n arbitrary: p)
  case 0
  show ?case by simp
next
  case (Suc n)
  let ?q = "p\<lparr>lastLooperIdx := (lastLooperIdx p + 1) mod length (loopers p)\<rparr>"
  have q: "lastLooperIdx ?q < length (loopers ?q)" using Suc.prems
    by (cases "length (loopers p)") simp_all
  let ?f = "\<lambda>j. loopers p ! ((lastLooperIdx p + j) mod length (loopers p))"
  let ?g = "\<lambda>j. loopers ?q ! ((lastLooperIdx ?q + j) mod length (loopers ?q))"
  from Suc.IH [OF q] obtain p' where p': "getLoopers n ?q = Inr (p', map ?g [0..<n])"
    "loopers p' = loopers ?q" by blast
  have g: "?g j = ?f (Suc j)" for j by (simp add: mod_add_left_eq)
  have "map ?f [0..<Suc n] = ?f 0 # map ?g [0..<n]"
    unfolding g by (simp only: upt_conv_Cons [OF zero_less_Suc] map_Suc_upt [symmetric] list.map
        map_map comp_def One_nat_def)
  moreover have "?f 0 = loopers p ! lastLooperIdx p" using Suc.prems by simp
  moreover have "getLooper p = Inr (?q, loopers p ! lastLooperIdx p)"
    using Suc.prems by (simp add: getLooper_def)
  ultimately have "getLoopers (Suc n) p = Inr (p', map ?f [0..<Suc n])"
    by (simp only: getLoopers.simps bind_res.simps prod.case p'(1))
  with p'(2) show ?case by (intro exI [of _ p'] conjI) simp_all
qed

text \<open>The pool hands its loopers out in turn: the first, the second, and so on, starting over
  after the last; a pool of no threads instead reads outside its vector.\<close>

theorem getLooper_round_robin:
  "if ls = [] then getLooper (new_LooperPool ls att) = Inl OutOfBounds
   else \<exists>p. getLoopers n (new_LooperPool ls att)
       = Inr (p, map (\<lambda>j. ls ! (j mod length ls)) [0..<n])"
proof (cases "ls = []")
  case False
  then obtain p where "getLoopers n (new_LooperPool ls att)
      = Inr (p, map (\<lambda>j. ls ! (j mod length ls)) [0..<n])"
    using getLoopers_from [of "new_LooperPool ls att" n] by (auto simp: new_LooperPool_def)
  with False show ?thesis by auto
qed (simp add: new_LooperPool_def getLooper_def)

end
