(* ===== verification/TcpServer.thy ===== *)
theory TcpServer
  imports TcpConnection InetSock MessageLooper
begin

text \<open>
  \<^verbatim>\<open>TcpAcceptor.cpp\<close>, \<^verbatim>\<open>TcpServer.cpp\<close> and their headers: the listening socket, the
  connections built from what it accepts, spread over the loopers of a pool, and the set that
  keeps them alive. A looper is a number, with an epoll instance of its own; a connection is
  its place in the list of all connections built. What destroying a
  connection does is \<open>tcp_destroy\<close>; the references to it are those of \<^verbatim>\<open>ConnectionLife\<close>.
\<close>

section \<open>The acceptor\<close>

datatype acceptor_callback = Acceptor_handleRead

record acceptor =
  acc_channel :: "acceptor_callback channel"
  onNewConn_set :: bool

text \<open>The descriptor \<open>socket\<close> returned, and what \<open>bind\<close> and \<open>listen\<close> return, are given.\<close>

definition new_TcpAcceptor ::
  "epoll_ctl \<Rightarrow> interest \<Rightarrow> int \<Rightarrow> (sockaddr_in \<Rightarrow> int) \<Rightarrow> int \<Rightarrow> u16 \<Rightarrow> (acceptor \<times> interest) res" where
  "new_TcpAcceptor ctl k fd call_bind listen_ret p =
     bind_res (new_StreamSocket fd call_bind p) (\<lambda>fd.
     assert_then (fd \<noteq> 0)
     (assert_then (listen_ret \<ge> 0)
     (bind_res (enableRead ctl False (setReadCallback (User Acceptor_handleRead) (new_Channel fd), k))
       (\<lambda>(ch, k'). Inr (\<lparr>acc_channel = ch, onNewConn_set = False\<rparr>, k')))))"

definition acc_attach :: "epoll_ctl \<Rightarrow> acceptor \<times> interest \<Rightarrow> (acceptor \<times> interest) res" where
  "acc_attach ctl = (\<lambda>(a, k). bind_res (attach ctl (acc_channel a, k))
     (\<lambda>(ch, k'). Inr (a\<lparr>acc_channel := ch\<rparr>, k')))"

definition acc_detach :: "epoll_ctl \<Rightarrow> acceptor \<times> interest \<Rightarrow> (acceptor \<times> interest) res" where
  "acc_detach ctl = (\<lambda>(a, k). bind_res (detach ctl (acc_channel a, k))
     (\<lambda>(ch, k'). Inr (a\<lparr>acc_channel := ch\<rparr>, k')))"

definition delete_TcpAcceptor :: "acceptor \<Rightarrow> unit res" where
  "delete_TcpAcceptor a = assert_then (\<not> attached (acc_channel a)) (Inr ())"

text \<open>
  \<open>handleRead\<close>: \<open>accept\<close> returned \<open>fd\<close>; \<open>onNewConn\<close> is the callback, \<open>close_fd\<close> is \<open>::close\<close>.
\<close>

definition acc_handleRead ::
  "(int \<Rightarrow> sockaddr_in \<Rightarrow> 's \<Rightarrow> 's res) \<Rightarrow> (int \<Rightarrow> 's \<Rightarrow> 's) \<Rightarrow> acceptor \<Rightarrow> int \<Rightarrow> sockaddr_in \<Rightarrow> 's \<Rightarrow> 's res"
where
  "acc_handleRead onNewConn close_fd a fd addr s =
     (if fd \<ge> 0
      then if onNewConn_set a then onNewConn fd addr s else Inr (close_fd fd s)
      else Inr s)"

section \<open>The server\<close>

text \<open>
  The connection handler is user code on the new connection: it sets handlers and attaches it.
  \<open>None\<close> is the dummy handler.
\<close>

record server =
  loopPool :: "nat pool"
  mainLooper :: nat
  sv_acceptor :: acceptor
  epolls :: "nat \<Rightarrow> interest"
  conns :: "(nat \<times> connection) list"
  connSet :: "nat list"
  newConnHandler :: "(connection \<Rightarrow> connection res) option"
  refused :: "int list"

definition new_TcpServer ::
  "epoll_ctl \<Rightarrow> (nat \<Rightarrow> interest) \<Rightarrow> nat pool \<Rightarrow> int \<Rightarrow> (sockaddr_in \<Rightarrow> int) \<Rightarrow> int \<Rightarrow> u16 \<Rightarrow> server res"
where
  "new_TcpServer ctl ks pl fd call_bind listen_ret p =
     bind_res (getLooper pl) (\<lambda>(pl', l).
     bind_res (new_TcpAcceptor ctl (ks l) fd call_bind listen_ret p) (\<lambda>(a, k).
     Inr \<lparr>loopPool = pl', mainLooper = l, sv_acceptor = a, epolls = ks(l := k), conns = [],
          connSet = [], newConnHandler = None, refused = []\<rparr>))"

definition setConnectionHandler ::
  "(connection \<Rightarrow> connection res) option \<Rightarrow> server \<Rightarrow> server" where
  "setConnectionHandler h s = s\<lparr>newConnHandler := h\<rparr>"

text \<open>An operation of the acceptor, on the epoll instance of the main looper.\<close>

definition at_main ::
  "(acceptor \<times> interest \<Rightarrow> (acceptor \<times> interest) res) \<Rightarrow> server \<Rightarrow> server res" where
  "at_main f s = bind_res (f (sv_acceptor s, epolls s (mainLooper s)))
     (\<lambda>(a, k). Inr (s\<lparr>sv_acceptor := a, epolls := (epolls s)(mainLooper s := k)\<rparr>))"

definition startWork :: "epoll_ctl \<Rightarrow> server \<Rightarrow> server res" where
  "startWork ctl s =
     at_main (acc_attach ctl) (s\<lparr>sv_acceptor := (sv_acceptor s)\<lparr>onNewConn_set := True\<rparr>\<rparr>)"

definition stopWork :: "epoll_ctl \<Rightarrow> server \<Rightarrow> server res" where
  "stopWork ctl s = at_main (acc_detach ctl) s"

text \<open>An operation of a connection, on the epoll instance of its looper.\<close>

definition on_conn :: "(connection \<Rightarrow> connection res) \<Rightarrow> nat \<Rightarrow> server \<Rightarrow> server res" where
  "on_conn f i s =
     (let (l, c) = conns s ! i in
      bind_res (f (c\<lparr>epoll := epolls s l\<rparr>))
        (\<lambda>c'. Inr (s\<lparr>conns := (conns s)[i := (l, c')], epolls := (epolls s)(l := epoll c')\<rparr>)))"

definition onNewConnection :: "epoll_ctl \<Rightarrow> int \<Rightarrow> sockaddr_in \<Rightarrow> server \<Rightarrow> server res" where
  "onNewConnection ctl fd addr s =
     bind_res (getLooper (loopPool s)) (\<lambda>(pl, l).
     bind_res (new_TcpConnection ctl (epolls s l) \<lparr>vecs = [], bufs = []\<rparr> fd (ip addr, port addr)) (\<lambda>c.
     let i = length (conns s);
         s1 = s\<lparr>loopPool := pl, conns := conns s @ [(l, c)], connSet := connSet s @ [i]\<rparr>
     in case newConnHandler s of None \<Rightarrow> Inr s1 | Some h \<Rightarrow> on_conn h i s1))"

definition server_handleRead :: "epoll_ctl \<Rightarrow> int \<Rightarrow> sockaddr_in \<Rightarrow> server \<Rightarrow> server res" where
  "server_handleRead ctl fd addr s =
     acc_handleRead (onNewConnection ctl) (\<lambda>fd s. s\<lparr>refused := refused s @ [fd]\<rparr>) (sv_acceptor s)
       fd addr s"

text \<open>The runnable \<open>removeConnection\<close> posts to the main looper.\<close>

definition removeConnInLoop :: "epoll_ctl \<Rightarrow> nat \<Rightarrow> server \<Rightarrow> server res" where
  "removeConnInLoop ctl i s =
     bind_res (on_conn (tcp_detach ctl) i s) (\<lambda>s'. Inr (s'\<lparr>connSet := removeAll i (connSet s')\<rparr>))"

fun detach_all :: "epoll_ctl \<Rightarrow> nat list \<Rightarrow> server \<Rightarrow> server res" where
  "detach_all ctl [] s = Inr s"
| "detach_all ctl (i # is) s = bind_res (on_conn (tcp_detach ctl) i s) (detach_all ctl is)"

text \<open>\<open>~TcpServer\<close>, and the destructor of the acceptor after it.\<close>

definition delete_TcpServer :: "epoll_ctl \<Rightarrow> server \<Rightarrow> server res" where
  "delete_TcpServer ctl s =
     bind_res (detach_all ctl (connSet s) s) (\<lambda>s1.
     bind_res (at_main (acc_detach ctl) (s1\<lparr>connSet := []\<rparr>)) (\<lambda>s2.
     bind_res (delete_TcpAcceptor (sv_acceptor s2)) (\<lambda>_. Inr s2)))"

section \<open>Running a server\<close>

text \<open>
  What happens to a server: the client starts and stops it and removes connections, the kernel
  reports a connection to accept or the end of an attached connection.
\<close>

datatype server_op = Start | Stop | Accepted int sockaddr_in | Remove nat | Peer_ends nat read_result

fun server_step :: "epoll_ctl \<Rightarrow> server_op \<Rightarrow> server \<Rightarrow> server res" where
  "server_step ctl Start s = startWork ctl s"
| "server_step ctl Stop s = stopWork ctl s"
| "server_step ctl (Accepted fd addr) s = server_handleRead ctl fd addr s"
| "server_step ctl (Remove i) s = removeConnInLoop ctl i s"
| "server_step ctl (Peer_ends i r) s = on_conn (tcp_handleRead ctl [r]) i s"

abbreviation conn :: "server \<Rightarrow> nat \<Rightarrow> connection" where
  "conn s i \<equiv> snd (conns s ! i)"
abbreviation conn_looper :: "server \<Rightarrow> nat \<Rightarrow> nat" where
  "conn_looper s i \<equiv> fst (conns s ! i)"
abbreviation conn_fd :: "server \<Rightarrow> nat \<Rightarrow> int" where
  "conn_fd s i \<equiv> ch_fd (tcp_channel (conn s i))"
abbreviation conn_attached :: "server \<Rightarrow> nat \<Rightarrow> bool" where
  "conn_attached s i \<equiv> attached (tcp_channel (conn s i))"
abbreviation listen_fd :: "server \<Rightarrow> int" where
  "listen_fd s \<equiv> ch_fd (acc_channel (sv_acceptor s))"
abbreviation listening :: "server \<Rightarrow> bool" where
  "listening s \<equiv> attached (acc_channel (sv_acceptor s))"

text \<open>\<open>accept\<close> returns a descriptor that is not open: nobody watches it, no open socket has it.\<close>

definition fresh_fd :: "int \<Rightarrow> server \<Rightarrow> bool" where
  "fresh_fd fd s \<longleftrightarrow> (\<forall>l. epolls s l fd = None) \<and> fd \<noteq> listen_fd s
     \<and> (\<forall>i < length (conns s). sock_open (conn s i) \<longrightarrow> conn_fd s i \<noteq> fd)"

fun possible :: "server_op \<Rightarrow> server \<Rightarrow> bool" where
  "possible Start s = True"
| "possible Stop s = True"
| "possible (Accepted fd addr) s = (listening s \<and> (fd \<ge> 0 \<longrightarrow> fresh_fd fd s))"
| "possible (Remove i) s = (i < length (conns s))"
| "possible (Peer_ends i r) s = (i < length (conns s) \<and> conn_attached s i \<and> (\<exists>e. ends r e))"

text \<open>The handlers considered: the dummy, and one that installs handlers and attaches the connection.\<close>

definition attach_on_connect ::
  "epoll_ctl \<Rightarrow> message_handler option \<Rightarrow> bool \<Rightarrow> connection \<Rightarrow> connection res" where
  "attach_on_connect ctl mh cl c = tcp_attach ctl (setTcpCloseHandler cl (setNewMessageHandler mh c))"

definition known_handler :: "epoll_ctl \<Rightarrow> (connection \<Rightarrow> connection res) option \<Rightarrow> bool" where
  "known_handler ctl h \<longleftrightarrow> h = None \<or> (\<exists>mh cl. h = Some (attach_on_connect ctl mh cl))"

inductive server_reaches ::
  "epoll_ctl \<Rightarrow> (nat \<Rightarrow> interest) \<Rightarrow> nat list \<Rightarrow> server \<Rightarrow> bool" for ctl ks ls where
  server_built: "new_TcpServer ctl ks (new_LooperPool ls att) fd call_bind listen_ret p = Inr s \<Longrightarrow>
    (\<forall>l. ks l fd = None) \<Longrightarrow> known_handler ctl h \<Longrightarrow>
    server_reaches ctl ks ls (setConnectionHandler h s)"
| server_next: "server_reaches ctl ks ls s \<Longrightarrow> possible oper s \<Longrightarrow> server_step ctl oper s = Inr s' \<Longrightarrow>
    server_reaches ctl ks ls s'"

section \<open>The invariant\<close>

text \<open>What the server has registered with the kernel.\<close>

definition registered :: "server \<Rightarrow> nat \<Rightarrow> int \<Rightarrow> bool" where
  "registered s l fd \<longleftrightarrow>
     (\<exists>i < length (conns s). conn_looper s i = l \<and> conn_fd s i = fd \<and> conn_attached s i)
     \<or> l = mainLooper s \<and> fd = listen_fd s \<and> listening s"

definition conn_ok :: "(nat \<Rightarrow> interest) \<Rightarrow> server \<Rightarrow> nat \<Rightarrow> bool" where
  "conn_ok ks s i \<longleftrightarrow> conn_fd s i \<ge> 0 \<and> conn_fd s i \<noteq> listen_fd s
     \<and> valid (store (conn s i)) (rcvBuf (conn s i))
     \<and> (conn_attached s i \<longrightarrow> sock_open (conn s i) \<and> i \<in> set (connSet s))
     \<and> (sock_open (conn s i) \<longrightarrow> (\<forall>l. ks l (conn_fd s i) = None))
     \<and> (\<forall>j < length (conns s). j \<noteq> i \<longrightarrow> sock_open (conn s i) \<longrightarrow> sock_open (conn s j)
          \<longrightarrow> conn_fd s j \<noteq> conn_fd s i)"

definition kernel_ok :: "(nat \<Rightarrow> interest) \<Rightarrow> server \<Rightarrow> bool" where
  "kernel_ok ks s \<longleftrightarrow>
     (\<forall>l fd. registered s l fd \<longrightarrow> epolls s l fd \<noteq> None)
     \<and> (\<forall>l fd. \<not> registered s l fd \<longrightarrow> epolls s l fd = ks l fd)
     \<and> listen_fd s \<ge> 0 \<and> (\<forall>l. ks l (listen_fd s) = None)"

definition pool_ok :: "nat list \<Rightarrow> server \<Rightarrow> bool" where
  "pool_ok ls s \<longleftrightarrow> ls \<noteq> [] \<and> loopers (loopPool s) = ls
     \<and> lastLooperIdx (loopPool s) = Suc (length (conns s)) mod length ls \<and> mainLooper s = ls ! 0
     \<and> (\<forall>i < length (conns s). conn_looper s i = ls ! (Suc i mod length ls))"

definition server_ok :: "(nat \<Rightarrow> interest) \<Rightarrow> nat list \<Rightarrow> server \<Rightarrow> bool" where
  "server_ok ks ls s \<longleftrightarrow> pool_ok ls s \<and> kernel_ok ks s \<and> (\<forall>i < length (conns s). conn_ok ks s i)
     \<and> set (connSet s) \<subseteq> {..<length (conns s)}"

lemma attached_registered:
  "i < length (conns s) \<Longrightarrow> conn_attached s i \<Longrightarrow> registered s (conn_looper s i) (conn_fd s i)"
  by (auto simp: registered_def)

lemma kernel_registered: "kernel_ok ks s \<Longrightarrow> registered s l fd \<Longrightarrow> epolls s l fd \<noteq> None"
  by (auto simp: kernel_ok_def)

lemma kernel_others: "kernel_ok ks s \<Longrightarrow> \<not> registered s l fd \<Longrightarrow> epolls s l fd = ks l fd"
  by (auto simp: kernel_ok_def)

subsection \<open>Construction\<close>

lemma new_TcpConnection_eq:
  assumes "fd \<ge> 0"
  shows "\<exists>c. new_TcpConnection ctl k \<lparr>vecs = [], bufs = []\<rparr> fd addr = Inr c \<and> epoll c = k
    \<and> ch_fd (tcp_channel c) = fd \<and> \<not> attached (tcp_channel c) \<and> sock_open c
    \<and> valid (store c) (rcvBuf c) \<and> sndBufList c = [] \<and> newMessageHandler c = None"
  using assms by (simp add: new_TcpConnection_def new_VecBuffer_def predMsgLen_def max_vec_def
      channel_eval Let_def valid_def mem_ok_def vb_ok_def)

lemma new_TcpServer_ok:
  assumes "new_TcpServer ctl ks (new_LooperPool ls att) fd call_bind listen_ret p = Inr s"
    and "\<forall>l. ks l fd = None"
  shows "server_ok ks ls (setConnectionHandler h s)"
  using assms by (auto simp: new_TcpServer_def new_LooperPool_def getLooper_def new_TcpAcceptor_def
      new_StreamSocket_def channel_eval
      server_ok_def pool_ok_def kernel_ok_def registered_def setConnectionHandler_def
      split: if_splits)

subsection \<open>Detaching\<close>

text \<open>A connection replaced by one on the same descriptor that is not attached.\<close>

abbreviation with_conn :: "nat \<Rightarrow> connection \<Rightarrow> server \<Rightarrow> server" where
  "with_conn i c s \<equiv> s\<lparr>conns := (conns s)[i := (conn_looper s i, c)],
     epolls := (epolls s)(conn_looper s i := epoll c)\<rparr>"

lemma on_conn_eq: "on_conn f i s = bind_res (f ((conn s i)\<lparr>epoll := epolls s (conn_looper s i)\<rparr>))
    (\<lambda>c. Inr (with_conn i c s))"
  by (simp add: on_conn_def Let_def split: prod.split)

definition unregister :: "server \<Rightarrow> nat \<Rightarrow> interest" where
  "unregister s i = (if conn_attached s i
     then (epolls s (conn_looper s i))(conn_fd s i := None) else epolls s (conn_looper s i))"

lemma release_registered:
  assumes "server_ok ks ls s" and "i < length (conns s)"
    and "ch_fd (tcp_channel c) = conn_fd s i" and "\<not> attached (tcp_channel c)"
  shows "registered (with_conn i c s) l fd \<longleftrightarrow>
    registered s l fd \<and> \<not> (conn_attached s i \<and> l = conn_looper s i \<and> fd = conn_fd s i)"
proof -
  have ok: "conn_ok ks s j" if "j < length (conns s)" for j using assms(1) that by (simp add: server_ok_def)
  have "conn_fd s j \<noteq> conn_fd s i" if "j < length (conns s)" "j \<noteq> i" "conn_attached s j" "conn_attached s i" for j
    using ok [OF that(1)] ok [OF assms(2)] that by (auto simp: conn_ok_def)
  moreover have "conn_fd s i \<noteq> listen_fd s" using ok [OF assms(2)] by (simp add: conn_ok_def)
  ultimately show ?thesis using assms(2-4)
    by (auto simp: registered_def nth_list_update split: if_splits) (metis)+
qed

lemma release_ok:
  assumes "server_ok ks ls s" and "i < length (conns s)"
    and "ch_fd (tcp_channel c) = conn_fd s i" and "\<not> attached (tcp_channel c)"
    and "valid (store c) (rcvBuf c)" and "sock_open c \<longrightarrow> sock_open (conn s i)"
    and "epoll c = unregister s i"
  shows "server_ok ks ls (with_conn i c s)"
proof -
  note ok = assms(1) [unfolded server_ok_def]
  have oki: "conn_ok ks s i" using ok assms(2) by simp
  have "kernel_ok ks (with_conn i c s)"
    using release_registered [OF assms(1-4)] ok oki assms(7)
    by (auto simp: kernel_ok_def unregister_def conn_ok_def)
  moreover have "conn_ok ks (with_conn i c s) j" if "j < length (conns s)" for j
    using ok that oki assms(2-6) by (auto simp: conn_ok_def nth_list_update)
  moreover have "pool_ok ls (with_conn i c s)"
    using ok assms(2) by (auto simp: pool_ok_def nth_list_update)
  ultimately show ?thesis using ok by (simp add: server_ok_def)
qed

lemma detached_idem [simp]: "\<not> attached ch \<Longrightarrow> ch\<lparr>attached := False\<rparr> = ch"
  by (cases ch) simp

lemma detach_conn:
  assumes "epoll_documented ctl" and "server_ok ks ls s" and "i < length (conns s)"
  obtains c where "on_conn (tcp_detach ctl) i s = Inr (with_conn i c s)" and "epoll c = unregister s i"
    and "\<not> attached (tcp_channel c)" and "server_ok ks ls (with_conn i c s)"
proof -
  note ok = assms(2) [unfolded server_ok_def]
  have oki: "conn_ok ks s i" using ok assms(3) by simp
  define c where "c = (conn s i)\<lparr>tcp_channel := (tcp_channel (conn s i))\<lparr>attached := False\<rparr>,
    epoll := unregister s i\<rparr>"
  have "on_conn (tcp_detach ctl) i s = Inr (with_conn i c s)"
  proof (cases "conn_attached s i")
    case True
    then have "epolls s (conn_looper s i) (conn_fd s i) \<noteq> None"
      using kernel_registered [OF _ attached_registered [OF assms(3)]] ok by blast
    with True oki show ?thesis
      by (simp add: on_conn_eq tcp_detach_def detach_attached [OF assms(1)] conn_ok_def c_def
          unregister_def)
  next
    case False
    then show ?thesis by (simp add: on_conn_eq tcp_detach_def c_def unregister_def)
  qed
  moreover have "server_ok ks ls (with_conn i c s)"
    using oki by (intro release_ok assms(2,3)) (simp_all add: c_def conn_ok_def)
  ultimately show thesis by (intro that [of c]) (simp_all add: c_def)
qed

subsection \<open>Every step keeps the invariant\<close>

lemma server_ok_acceptor:
  assumes "server_ok ks ls s" and "ch_fd (acc_channel a) = listen_fd s"
    and "k (listen_fd s) \<noteq> None \<longleftrightarrow> attached (acc_channel a)"
    and "\<forall>fd. fd \<noteq> listen_fd s \<longrightarrow> k fd = epolls s (mainLooper s) fd"
  shows "server_ok ks ls (s\<lparr>sv_acceptor := a, epolls := (epolls s)(mainLooper s := k)\<rparr>)"
proof -
  let ?s = "s\<lparr>sv_acceptor := a, epolls := (epolls s)(mainLooper s := k)\<rparr>"
  note ok = assms(1) [unfolded server_ok_def]
  have fds: "conn_fd s i \<noteq> listen_fd s" if "i < length (conns s)" for i
    using ok that by (auto simp: conn_ok_def)
  have reg: "registered ?s l fd \<longleftrightarrow> (if l = mainLooper s \<and> fd = listen_fd s then attached (acc_channel a)
      else registered s l fd)" for l fd
    using fds assms(2) by (auto simp: registered_def)
  have K: "kernel_ok ks s" and L: "listen_fd s \<ge> 0" "\<forall>l. ks l (listen_fd s) = None"
    using ok by (simp_all add: kernel_ok_def)
  have "epolls ?s l fd \<noteq> None" if "registered ?s l fd" for l fd
    using that kernel_registered [OF K, of l fd] assms(3,4)
    by (cases "l = mainLooper s"; cases "fd = listen_fd s") (simp_all add: reg)
  moreover have "epolls ?s l fd = ks l fd" if "\<not> registered ?s l fd" for l fd
    using that kernel_others [OF K, of l fd] assms(3,4) L
    by (cases "l = mainLooper s"; cases "fd = listen_fd s") (simp_all add: reg)
  ultimately have "kernel_ok ks ?s"
    using assms(2) L by (simp add: kernel_ok_def)
  moreover have "conn_ok ks ?s j" if "j < length (conns s)" for j
    using ok that assms(2) by (auto simp: conn_ok_def)
  moreover have "pool_ok ls ?s" using ok by (auto simp: pool_ok_def)
  ultimately show ?thesis using ok by (simp add: server_ok_def)
qed

lemma listen_watched:
  assumes "server_ok ks ls s"
  shows "epolls s (mainLooper s) (listen_fd s) \<noteq> None \<longleftrightarrow> listening s"
proof -
  note ok = assms [unfolded server_ok_def]
  have "registered s (mainLooper s) (listen_fd s) \<longleftrightarrow> listening s"
    using ok by (auto simp: registered_def conn_ok_def)
  moreover have "ks (mainLooper s) (listen_fd s) = None" using ok by (simp add: kernel_ok_def)
  moreover have "kernel_ok ks s" using ok by simp
  ultimately show ?thesis
    using kernel_registered [of ks s "mainLooper s" "listen_fd s"]
      kernel_others [of ks s "mainLooper s" "listen_fd s"] by auto
qed

lemma startWork_ok:
  assumes "epoll_documented ctl" and "server_ok ks ls s"
  shows "\<exists>s'. startWork ctl s = Inr s' \<and> server_ok ks ls s' \<and> newConnHandler s' = newConnHandler s"
proof -
  let ?a = "(sv_acceptor s)\<lparr>onNewConn_set := True\<rparr>"
  have fd: "listen_fd s \<ge> 0" using assms(2) by (simp add: server_ok_def kernel_ok_def)
  have "server_ok ks ls (s\<lparr>sv_acceptor := ?a\<rparr>)"
    using server_ok_acceptor [OF assms(2), of ?a "epolls s (mainLooper s)"] listen_watched [OF assms(2)]
    by (simp add: fun_upd_idem)
  then show ?thesis
  proof (cases "listening s")
    case True
    with fd have "startWork ctl s = Inr (s\<lparr>sv_acceptor := ?a\<rparr>)"
      by (simp add: startWork_def at_main_def acc_attach_def attach_def)
    with \<open>server_ok ks ls (s\<lparr>sv_acceptor := ?a\<rparr>)\<close> show ?thesis by simp
  next
    case False
    let ?k = "(epolls s (mainLooper s))(listen_fd s \<mapsto> ch_events (acc_channel (sv_acceptor s)))"
    let ?b = "?a\<lparr>acc_channel := (acc_channel (sv_acceptor s))\<lparr>attached := True\<rparr>\<rparr>"
    from False listen_watched [OF assms(2)] fd
    have "startWork ctl s = Inr (s\<lparr>sv_acceptor := ?b, epolls := (epolls s)(mainLooper s := ?k)\<rparr>)"
      by (simp add: startWork_def at_main_def acc_attach_def attach_fresh [OF assms(1)])
    moreover have "server_ok ks ls (s\<lparr>sv_acceptor := ?b, epolls := (epolls s)(mainLooper s := ?k)\<rparr>)"
      by (rule server_ok_acceptor [OF assms(2)]) simp_all
    ultimately show ?thesis by simp
  qed
qed

lemma at_main_detach:
  assumes "epoll_documented ctl" and "server_ok ks ls s"
  obtains a k where "at_main (acc_detach ctl) s = Inr (s\<lparr>sv_acceptor := a, epolls := (epolls s)(mainLooper s := k)\<rparr>)"
    and "\<not> attached (acc_channel a)"
    and "server_ok ks ls (s\<lparr>sv_acceptor := a, epolls := (epolls s)(mainLooper s := k)\<rparr>)"
proof -
  let ?a = "(sv_acceptor s)\<lparr>acc_channel := (acc_channel (sv_acceptor s))\<lparr>attached := False\<rparr>\<rparr>"
  let ?k = "(epolls s (mainLooper s))(listen_fd s := None)"
  have fd: "listen_fd s \<ge> 0" using assms(2) by (simp add: server_ok_def kernel_ok_def)
  note w = listen_watched [OF assms(2)]
  have "at_main (acc_detach ctl) s
      = Inr (s\<lparr>sv_acceptor := ?a, epolls := (epolls s)(mainLooper s := ?k)\<rparr>)"
  proof (cases "listening s")
    case True
    with fd w show ?thesis
      by (simp add: at_main_def acc_detach_def detach_attached [OF assms(1)])
  next
    case False
    with w have "?k = epolls s (mainLooper s)" by (simp add: fun_upd_idem)
    with False show ?thesis by (simp add: at_main_def acc_detach_def)
  qed
  moreover have "server_ok ks ls (s\<lparr>sv_acceptor := ?a, epolls := (epolls s)(mainLooper s := ?k)\<rparr>)"
    by (rule server_ok_acceptor [OF assms(2)]) simp_all
  ultimately show thesis by (intro that [where a = ?a and k = ?k]) simp_all
qed

lemma attach_ok:
  assumes "server_ok ks ls s" and "i < length (conns s)" and "\<not> conn_attached s i"
    and "sock_open (conn s i)" and "i \<in> set (connSet s)"
    and "ch_fd (tcp_channel c) = conn_fd s i" and "attached (tcp_channel c)"
    and "valid (store c) (rcvBuf c)" and "sock_open c"
    and "epoll c = (epolls s (conn_looper s i))(conn_fd s i \<mapsto> ev)"
  shows "server_ok ks ls (with_conn i c s)"
proof -
  let ?s = "with_conn i c s"
  note ok = assms(1) [unfolded server_ok_def]
  then have K: "kernel_ok ks s" by simp
  have reg: "registered ?s l fd \<longleftrightarrow> registered s l fd \<or> l = conn_looper s i \<and> fd = conn_fd s i" for l fd
    using assms(2,3,6,7) by (auto simp: registered_def nth_list_update split: if_splits)
  have "epolls ?s l fd \<noteq> None" if "registered ?s l fd" for l fd
    using that [unfolded reg] kernel_registered [OF K, of l fd] assms(10) by auto
  moreover have "epolls ?s l fd = ks l fd" if "\<not> registered ?s l fd" for l fd
    using that [unfolded reg] kernel_others [OF K, of l fd] assms(10) by auto
  ultimately have "kernel_ok ks ?s" using K by (simp add: kernel_ok_def)
  moreover have "conn_ok ks ?s j" if "j < length (conns s)" for j
    using ok that assms(2,4-9) by (auto simp: conn_ok_def nth_list_update)
  moreover have "pool_ok ls ?s"
    using ok assms(2) by (auto simp: pool_ok_def nth_list_update)
  ultimately show ?thesis using ok by (simp add: server_ok_def)
qed

text \<open>A new connection, before the handler sees it.\<close>

abbreviation add_conn :: "nat pool \<Rightarrow> nat \<Rightarrow> connection \<Rightarrow> server \<Rightarrow> server" where
  "add_conn pl l c s \<equiv> s\<lparr>loopPool := pl, conns := conns s @ [(l, c)],
     connSet := connSet s @ [length (conns s)]\<rparr>"

lemma add_conn_ok:
  assumes "server_ok ks ls s" and "getLooper (loopPool s) = Inr (pl, l)"
    and "fd \<ge> 0" and "fresh_fd fd s"
    and "ch_fd (tcp_channel c) = fd" and "\<not> attached (tcp_channel c)" and "valid (store c) (rcvBuf c)"
  shows "server_ok ks ls (add_conn pl l c s)"
proof -
  let ?s = "add_conn pl l c s"
  note ok = assms(1) [unfolded server_ok_def]
  then have K: "kernel_ok ks s" and P: "pool_ok ls s" by simp_all
  have reg: "registered ?s l' fd' \<longleftrightarrow> registered s l' fd'" for l' fd'
    using assms(6) by (auto simp: registered_def nth_append less_Suc_eq)
  have "ks l' fd = None" for l'
    using assms(4) kernel_others [OF K, of l' fd] kernel_registered [OF K, of l' fd]
    by (cases "registered s l' fd") (simp_all add: fresh_fd_def)
  then have "conn_ok ks ?s j" if "j < length (conns ?s)" for j
    using ok that assms(3-7) by (auto simp: conn_ok_def fresh_fd_def nth_append less_Suc_eq)
  moreover have "kernel_ok ks ?s" using K reg unfolding kernel_ok_def by simp
  moreover have "pool_ok ls ?s" using P assms(2)
    by (auto simp: pool_ok_def getLooper_def nth_append less_Suc_eq mod_Suc_eq split: if_splits)
  ultimately show ?thesis using ok by (auto simp: server_ok_def)
qed

lemma getLooper_ok:
  assumes "server_ok ks ls s"
  shows "\<exists>pl l. getLooper (loopPool s) = Inr (pl, l)"
  using assms by (auto simp: server_ok_def pool_ok_def getLooper_def)

lemma onNewConnection_ok:
  assumes "epoll_documented ctl" and "server_ok ks ls s" and "known_handler ctl (newConnHandler s)"
    and "fd \<ge> 0" and "fresh_fd fd s"
  shows "\<exists>s'. onNewConnection ctl fd addr s = Inr s' \<and> server_ok ks ls s'
    \<and> newConnHandler s' = newConnHandler s"
proof -
  from getLooper_ok [OF assms(2)] obtain pl l where g: "getLooper (loopPool s) = Inr (pl, l)" by blast
  from new_TcpConnection_eq [OF assms(4), of ctl "epolls s l" "(ip addr, port addr)"] obtain c
    where c: "new_TcpConnection ctl (epolls s l) \<lparr>vecs = [], bufs = []\<rparr> fd (ip addr, port addr) = Inr c"
      "ch_fd (tcp_channel c) = fd" "\<not> attached (tcp_channel c)" "sock_open c"
      "valid (store c) (rcvBuf c)" by blast
  let ?s = "add_conn pl l c s" and ?n = "length (conns s)"
  note added = add_conn_ok [OF assms(2) g assms(4,5) c(2,3,5)]
  show ?thesis
  proof (cases "newConnHandler s")
    case None
    with g c(1) added show ?thesis by (simp add: onNewConnection_def Let_def)
  next
    case (Some h)
    with assms(3) obtain mh cl where h: "h = attach_on_connect ctl mh cl"
      by (auto simp: known_handler_def)
    define d where "d = c\<lparr>newMessageHandler := mh, closedHandler_set := cl,
      tcp_channel := (tcp_channel c)\<lparr>attached := True\<rparr>,
      epoll := (epolls s l)(fd \<mapsto> ch_events (tcp_channel c))\<rparr>"
    have "epolls s l fd = None" using assms(5) by (simp add: fresh_fd_def)
    then have "on_conn h ?n ?s = Inr (with_conn ?n d ?s)"
      using c(2,3) assms(4) unfolding h on_conn_eq attach_on_connect_def tcp_attach_def
      by (simp add: attach_fresh [OF assms(1)] setTcpCloseHandler_def setNewMessageHandler_def d_def)
    then have "onNewConnection ctl fd addr s = Inr (with_conn ?n d ?s)"
      using g c(1) Some unfolding onNewConnection_def by (simp add: Let_def)
    moreover have "server_ok ks ls (with_conn ?n d ?s)"
      by (rule attach_ok [OF added]) (use c in \<open>simp_all add: d_def\<close>)
    ultimately show ?thesis by (intro exI [of _ "with_conn ?n d ?s"] conjI) simp_all
  qed
qed

lemma peer_ends_ok:
  assumes "epoll_documented ctl" and "server_ok ks ls s" and "i < length (conns s)"
    and "conn_attached s i" and "ends r e"
  shows "\<exists>s'. on_conn (tcp_handleRead ctl [r]) i s = Inr s' \<and> server_ok ks ls s'
    \<and> newConnHandler s' = newConnHandler s"
proof -
  note ok = assms(2) [unfolded server_ok_def]
  have oki: "conn_ok ks s i" using ok assms(3) by simp
  let ?c = "(conn s i)\<lparr>epoll := epolls s (conn_looper s i)\<rparr>"
  have "epolls s (conn_looper s i) (conn_fd s i) \<noteq> None"
    using kernel_registered [OF _ attached_registered [OF assms(3,4)]] ok by blast
  then obtain c1 where c1: "refresh_rcvBuf ?c = Inr c1" "valid (store c1) (rcvBuf c1)"
    "tcp_handleRead ctl [r] ?c = Inr (tcp_handleClose e (sock_close (c1\<lparr>tcp_channel :=
      (tcp_channel ?c)\<lparr>attached := False\<rparr>, epoll := (epoll ?c)(ch_fd (tcp_channel ?c) := None)\<rparr>)))"
    using read_end_eq [OF assms(1), of ?c r e "[]"] assms(4,5) oki by (auto simp: conn_ok_def)
  let ?d = "tcp_handleClose e (sock_close (c1\<lparr>tcp_channel :=
      (tcp_channel ?c)\<lparr>attached := False\<rparr>, epoll := (epoll ?c)(ch_fd (tcp_channel ?c) := None)\<rparr>))"
  have "on_conn (tcp_handleRead ctl [r]) i s = Inr (with_conn i ?d s)"
    unfolding on_conn_eq c1(3) by simp
  moreover have "server_ok ks ls (with_conn i ?d s)"
    using c1(2) refresh_frame [OF c1(1)] assms(4)
    by (intro release_ok assms(2,3)) (auto simp: tcp_handleClose_def sock_close_def unregister_def)
  ultimately show ?thesis by (intro exI [of _ "with_conn i ?d s"] conjI) simp_all
qed

lemma remove_ok:
  assumes "epoll_documented ctl" and "server_ok ks ls s" and "i < length (conns s)"
  shows "\<exists>s'. removeConnInLoop ctl i s = Inr s' \<and> server_ok ks ls s'
    \<and> newConnHandler s' = newConnHandler s \<and> i \<notin> set (connSet s') \<and> \<not> conn_attached s' i"
proof -
  obtain c where c: "on_conn (tcp_detach ctl) i s = Inr (with_conn i c s)"
    "\<not> attached (tcp_channel c)" "server_ok ks ls (with_conn i c s)"
    by (rule detach_conn [OF assms])
  let ?s = "(with_conn i c s)\<lparr>connSet := removeAll i (connSet s)\<rparr>"
  have "registered ?s l fd \<longleftrightarrow> registered (with_conn i c s) l fd" for l fd
    by (simp add: registered_def)
  then have "server_ok ks ls ?s" using c(2,3) assms(3)
    by (auto simp: server_ok_def pool_ok_def kernel_ok_def conn_ok_def nth_list_update)
  with c(1,2) assms(3) show ?thesis by (simp add: removeConnInLoop_def)
qed

lemma refused_irrelevant [simp]:
  "registered (s\<lparr>refused := x\<rparr>) l fd = registered s l fd"
  "pool_ok ls (s\<lparr>refused := x\<rparr>) = pool_ok ls s"
  "conn_ok ks (s\<lparr>refused := x\<rparr>) i = conn_ok ks s i"
  by (simp_all add: registered_def pool_ok_def conn_ok_def)

lemma server_step_ok:
  assumes "epoll_documented ctl" and "server_ok ks ls s" and "known_handler ctl (newConnHandler s)"
    and "possible oper s"
  shows "\<exists>s'. server_step ctl oper s = Inr s' \<and> server_ok ks ls s'
    \<and> newConnHandler s' = newConnHandler s"
proof (cases oper)
  case Start
  with startWork_ok [OF assms(1,2)] show ?thesis by simp
next
  case Stop
  obtain a k where "at_main (acc_detach ctl) s
      = Inr (s\<lparr>sv_acceptor := a, epolls := (epolls s)(mainLooper s := k)\<rparr>)"
    "server_ok ks ls (s\<lparr>sv_acceptor := a, epolls := (epolls s)(mainLooper s := k)\<rparr>)"
    by (rule at_main_detach [OF assms(1,2)])
  with Stop show ?thesis by (simp add: stopWork_def)
next
  case (Accepted fd addr)
  have "server_ok ks ls (s\<lparr>refused := refused s @ [fd]\<rparr>)"
    using assms(2) by (simp add: server_ok_def kernel_ok_def)
  with Accepted assms onNewConnection_ok [OF assms(1-3), of fd addr] show ?thesis
    by (simp add: server_handleRead_def acc_handleRead_def)
next
  case (Remove i)
  with remove_ok [OF assms(1,2), of i] assms(4) show ?thesis by auto
next
  case (Peer_ends i r)
  with peer_ends_ok [OF assms(1,2), of i r] assms(4) show ?thesis by auto
qed

lemma reaches_ok:
  assumes "epoll_documented ctl" and "server_reaches ctl ks ls s"
  shows "server_ok ks ls s \<and> known_handler ctl (newConnHandler s)"
  using assms(2)
proof (induction rule: server_reaches.induct)
  case (server_built att fd call_bind listen_ret p s h)
  with new_TcpServer_ok [OF server_built(1,2)] show ?case by (simp add: setConnectionHandler_def)
next
  case (server_next s oper s')
  with server_step_ok [OF assms(1), of ks ls s oper] show ?case by auto
qed

section \<open>Shutting down\<close>

lemma detach_all_ok:
  assumes "epoll_documented ctl"
  shows "server_ok ks ls s \<Longrightarrow> set js \<subseteq> {..<length (conns s)} \<Longrightarrow>
    \<exists>s'. detach_all ctl js s = Inr s' \<and> server_ok ks ls s' \<and> length (conns s') = length (conns s)
      \<and> connSet s' = connSet s
      \<and> (\<forall>j < length (conns s). conn_attached s' j \<longrightarrow> conn_attached s j \<and> j \<notin> set js)"
proof (induction js arbitrary: s)
  case Nil
  then show ?case by simp
next
  case (Cons i js)
  then have i: "i < length (conns s)" by simp
  obtain c where c: "on_conn (tcp_detach ctl) i s = Inr (with_conn i c s)"
    "\<not> attached (tcp_channel c)" "server_ok ks ls (with_conn i c s)"
    by (rule detach_conn [OF assms Cons.prems(1) i])
  obtain s' where s': "detach_all ctl js (with_conn i c s) = Inr s'" "server_ok ks ls s'"
    "length (conns s') = length (conns s)" "connSet s' = connSet s"
    "\<forall>j < length (conns s). conn_attached s' j \<longrightarrow> conn_attached (with_conn i c s) j \<and> j \<notin> set js"
    using Cons.IH [OF c(3)] Cons.prems(2) by auto
  have "conn_attached s j \<and> j \<notin> set (i # js)" if "j < length (conns s)" "conn_attached s' j" for j
    using s'(5) [rule_format, OF that] c(2) i by (cases "j = i") auto
  with c(1) s' show ?case by simp
qed

text \<open>An attached connection whose descriptor is closed makes detaching it abort.\<close>

definition stranded :: "nat \<Rightarrow> server \<Rightarrow> bool" where
  "stranded i s \<longleftrightarrow> i < length (conns s) \<and> conn_attached s i \<and> conn_fd s i \<ge> 0
     \<and> epolls s (conn_looper s i) (conn_fd s i) = None"

lemma stranded_aborts:
  assumes "epoll_documented ctl" and "stranded i s"
  shows "on_conn (tcp_detach ctl) i s = Inl AssertFail"
  using assms by (simp add: on_conn_eq stranded_def detach_after_close)

lemma detach_fault:
  assumes "detach ctl (ch, k) = Inl e"
  shows "e = AssertFail"
  using assms by (auto simp: detach_def detachChannel_def updateChannel_def assert_then_def Let_def
      split: if_splits prod.splits)

lemma detach_other:
  assumes "epoll_documented ctl" and "stranded i s" and "j \<noteq> i" and "conn_fd s j \<ge> 0"
    and "on_conn (tcp_detach ctl) j s = Inr s'"
  shows "stranded i s'" and "length (conns s') = length (conns s)" and "conn_fd s' m = conn_fd s m"
proof -
  obtain ch k where d: "detach ctl (tcp_channel (conn s j), epolls s (conn_looper s j)) = Inr (ch, k)"
    and s': "s' = with_conn j ((conn s j)\<lparr>tcp_channel := ch, epoll := k\<rparr>) s"
    using assms(5) by (auto simp: on_conn_eq tcp_detach_def)
  have ch: "ch_fd ch = conn_fd s j" and k: "k = epolls s (conn_looper s j)
      \<or> k = (epolls s (conn_looper s j))(conn_fd s j := None)"
    using d assms(1,4) by (auto simp: detach_def detachChannel_def updateChannel_def
        epoll_documented_def split: if_splits)
  show "stranded i s'" using assms(2,3) k unfolding s' stranded_def by auto
  show "length (conns s') = length (conns s)" by (simp add: s')
  show "conn_fd s' m = conn_fd s m"
    using ch by (cases "j < length (conns s)"; cases "m = j")
      (simp_all add: s' list_update_beyond not_less)
qed

lemma detach_all_stranded:
  assumes "epoll_documented ctl"
  shows "stranded i s \<Longrightarrow> i \<in> set js \<Longrightarrow> \<forall>j \<in> set js. conn_fd s j \<ge> 0 \<Longrightarrow>
    detach_all ctl js s = Inl AssertFail"
proof (induction js arbitrary: s)
  case Nil
  then show ?case by simp
next
  case (Cons j js)
  show ?case
  proof (cases "j = i")
    case True
    with stranded_aborts [OF assms Cons.prems(1)] show ?thesis by simp
  next
    case False
    show ?thesis
    proof (cases "on_conn (tcp_detach ctl) j s")
      case (Inl e)
      then have "e = AssertFail"
        by (cases "detach ctl (tcp_channel (conn s j), epolls s (conn_looper s j))")
          (auto simp: on_conn_eq tcp_detach_def dest: detach_fault)
      with Inl show ?thesis by simp
    next
      case (Inr s')
      note other = detach_other [OF assms Cons.prems(1) False _ Inr]
      show ?thesis using Cons.IH [of s'] other Cons.prems False Inr by simp
    qed
  qed
qed

subsection \<open>A server that has accepted a connection\<close>

definition demo_server :: server where
  "demo_server = setConnectionHandler (Some (attach_on_connect sample_ctl (Some observe) True))
     (projr (new_TcpServer sample_ctl (\<lambda>_ _. None) (new_LooperPool [0, 1] True) 3 (\<lambda>_. 0) 0 3001))"

definition demo_serving :: server where
  "demo_serving = projr (onNewConnection sample_ctl 7 (InetAddr_ip 1 2)
     (projr (startWork sample_ctl demo_server)))"

lemmas server_eval = new_TcpServer_def new_LooperPool_def getLooper_def new_TcpAcceptor_def
  new_StreamSocket_def channel_eval setConnectionHandler_def startWork_def at_main_def
  acc_attach_def sample_ctl_def
  onNewConnection_def new_TcpConnection_def new_VecBuffer_def predMsgLen_def max_vec_def on_conn_def
  attach_on_connect_def tcp_attach_def setTcpCloseHandler_def setNewMessageHandler_def
  server_handleRead_def acc_handleRead_def fresh_fd_def

lemma demo_built: "new_TcpServer sample_ctl (\<lambda>_ _. None) (new_LooperPool [0, 1] True) 3 (\<lambda>_. 0) 0 3001
  = Inr (demo_server\<lparr>newConnHandler := None\<rparr>)"
  by (simp add: demo_server_def server_eval)

lemma demo_start: "server_reaches sample_ctl (\<lambda>_ _. None) [0, 1] demo_server"
proof -
  have "server_reaches sample_ctl (\<lambda>_ _. None) [0, 1]
      (setConnectionHandler (newConnHandler demo_server) (demo_server\<lparr>newConnHandler := None\<rparr>))"
    by (rule server_built [OF demo_built])
      (auto simp: known_handler_def demo_server_def setConnectionHandler_def)
  then show ?thesis by (simp add: setConnectionHandler_def)
qed

definition demo_started :: server where
  "demo_started = projr (startWork sample_ctl demo_server)"

lemma demo_startWork: "startWork sample_ctl demo_server = Inr demo_started"
  by (simp add: demo_server_def demo_started_def server_eval)

lemma demo_accept: "onNewConnection sample_ctl 7 (InetAddr_ip 1 2) demo_started = Inr demo_serving"
  by (simp add: demo_server_def demo_started_def demo_serving_def server_eval Let_def)

lemma demo_fresh: "listening demo_started" "fresh_fd 7 demo_started"
  "onNewConn_set (sv_acceptor demo_started)"
  by (simp_all add: demo_server_def demo_started_def server_eval)

lemma demo_serving_reached: "server_reaches sample_ctl (\<lambda>_ _. None) [0, 1] demo_serving"
proof -
  have r: "server_reaches sample_ctl (\<lambda>_ _. None) [0, 1] demo_started"
    by (rule server_next [OF demo_start, of Start]) (simp_all add: demo_startWork)
  show ?thesis
    by (rule server_next [OF r, of "Accepted 7 (InetAddr_ip 1 2)"])
      (simp_all add: demo_fresh server_handleRead_def acc_handleRead_def demo_accept)
qed

lemma demo_serving_fields:
  "length (conns demo_serving) = 1" "conn_attached demo_serving 0" "sndBufList (conn demo_serving 0) = []"
  "conn_looper demo_serving 0 = 1"
  by (simp_all add: demo_server_def demo_serving_def server_eval Let_def)

section \<open>Properties\<close>

text \<open>C2: Whatever happens to a server in whatever order (it is started and stopped, connections
  are accepted, refused, removed by the client or ended by their peer), as long as the kernel
  hands out descriptors that are not open, no step aborts: whatever can happen next completes.\<close>

theorem server_never_aborts:
  assumes "epoll_documented ctl" and "server_reaches ctl ks ls s" and "possible oper s"
  shows "\<exists>s'. server_step ctl oper s = Inr s' \<and> server_reaches ctl ks ls s'"
  using server_step_ok [OF assms(1) _ _ assms(3)] reaches_ok [OF assms(1,2)]
    server_next [OF assms(2,3)] by blast

theorem server_never_aborts_witness:
  "\<exists>s. server_step sample_ctl (Peer_ends 0 Eof) demo_serving = Inr s
    \<and> server_reaches sample_ctl (\<lambda>_ _. None) [0, 1] s"
  by (rule server_never_aborts [OF sample_ctl_documented demo_serving_reached])
    (auto simp: demo_serving_fields ends_def intro: exI [of _ 0])



text \<open>The loopers of a server's own pool: the acceptor lives on the first, the connections, in
  the order they were accepted, on the second, the third, and so on, starting over after the
  last.\<close>

theorem connections_round_robin:
  assumes "epoll_documented ctl" and "server_reaches ctl ks ls s" and "i < length (conns s)"
  shows "conn_looper s i = ls ! (Suc i mod length ls) \<and> mainLooper s = ls ! 0"
  using reaches_ok [OF assms(1,2)] assms(3) by (simp add: server_ok_def pool_ok_def)

theorem connections_round_robin_witness:
  "conn_looper demo_serving 0 = 1"
  using connections_round_robin [OF sample_ctl_documented demo_serving_reached, of 0]
  by (simp add: demo_serving_fields(1))

text \<open>C34: A send that fails (here an empty buffer, for which \<open>writev\<close> returns 0) closes the
  socket and leaves the channel attached: removing the connection afterwards aborts the process,
  and so does destroying the server.\<close>

theorem failed_send_strands_connection:
  assumes "epoll_documented ctl" and "server_reaches ctl ks ls s" and "i < length (conns s)"
    and "conn_attached s i" and "sndBufList (conn s i) = []"
    and "errno \<noteq> EAGAIN" and "errno \<noteq> EINTR"
  shows "\<exists>s'. on_conn (tcp_send ctl [(Wrote 0, errno)] b) i s = Inr s'
    \<and> removeConnInLoop ctl i s' = Inl AssertFail \<and> delete_TcpServer ctl s' = Inl AssertFail"
proof -
  from reaches_ok [OF assms(1,2)] have ok: "server_ok ks ls s" by simp
  then have fds: "conn_fd s j \<ge> 0" if "j < length (conns s)" for j
    using that by (simp add: server_ok_def conn_ok_def)
  have oki: "conn_ok ks s i" and sub: "set (connSet s) \<subseteq> {..<length (conns s)}"
    using ok assms(3) by (simp_all add: server_ok_def)
  then have opn: "sock_open (conn s i)" and mem: "i \<in> set (connSet s)"
    using assms(4) by (simp_all add: conn_ok_def)
  let ?c = "(conn s i)\<lparr>epoll := epolls s (conn_looper s i)\<rparr>"
  define d where "d = tcp_handleClose errno (sock_close (?c\<lparr>sndBufList := [b]\<rparr>))"
  have d: "tcp_channel d = tcp_channel (conn s i)"
    "epoll d = (epolls s (conn_looper s i))(conn_fd s i := None)"
    using opn by (simp_all add: d_def tcp_handleClose_def sock_close_def)
  let ?s = "with_conn i d s"
  have r: "on_conn (tcp_send ctl [(Wrote 0, errno)] b) i s = Inr ?s"
    using empty_send_closes [of ?c errno ctl "[]" b] assms(5-7) opn by (simp add: on_conn_eq d_def)
  have st: "stranded i ?s" using assms(3,4) d fds by (simp add: stranded_def)
  have "conn_fd ?s j \<ge> 0" if "j \<in> set (connSet s)" for j
    using that sub fds d(1) assms(3) by (cases "j = i") auto
  then have "detach_all ctl (connSet s) ?s = Inl AssertFail"
    using detach_all_stranded [OF assms(1) st, of "connSet s"] mem by blast
  with r stranded_aborts [OF assms(1) st] show ?thesis
    by (simp add: removeConnInLoop_def delete_TcpServer_def)
qed

theorem failed_send_strands_connection_witness:
  "\<exists>s. on_conn (tcp_send sample_ctl [(Wrote 0, 0)] 0) 0 demo_serving = Inr s
    \<and> delete_TcpServer sample_ctl s = Inl AssertFail"
  using failed_send_strands_connection [OF sample_ctl_documented demo_serving_reached, of 0 0 0]
  by (auto simp: demo_serving_fields EAGAIN_def EINTR_def)

end
