(* ===== verification/MultiplexLooper.thy ===== *)
theory MultiplexLooper
  imports Channel
begin

text \<open>
  \<^verbatim>\<open>include/MultiplexLooper.hpp\<close> and \<^verbatim>\<open>MultiplexLooper.cpp\<close>: the dispatch of
  epoll events to the callbacks of the channels, and the queue of runnables other threads post
  to a loop, with the eventfd that wakes it. The queue is shared between threads, so its use is
  an inductive step relation: each step is one critical section, one system call or one
  runnable.
\<close>

section \<open>Dispatching events\<close>

text \<open>
  The state is the owner's; \<open>get\<close> finds the channel behind \<open>event.data.ptr\<close> in it (\<open>None\<close> once
  it is destroyed), \<open>run\<close> is what the callbacks do.
\<close>

definition with_channel ::
  "('s \<Rightarrow> nat \<Rightarrow> 'h channel option) \<Rightarrow> nat \<Rightarrow> ('h channel \<Rightarrow> 's \<Rightarrow> 's res) \<Rightarrow> 's \<Rightarrow> 's res" where
  "with_channel get p f s = (case get s p of None \<Rightarrow> Inl UseAfterFree | Some ch \<Rightarrow> f ch s)"

definition on_event :: "bool \<Rightarrow> ('s \<Rightarrow> 's res) \<Rightarrow> 's \<Rightarrow> 's res" where
  "on_event b f s = (if b then f s else Inr s)"

definition dispatch_event ::
  "('s \<Rightarrow> nat \<Rightarrow> 'h channel option) \<Rightarrow> ('h \<Rightarrow> 's \<Rightarrow> 's res) \<Rightarrow> u32 \<times> nat \<Rightarrow> 's \<Rightarrow> 's res" where
  "dispatch_event get run = (\<lambda>(ev, p) s.
     bind_res (on_event (ev AND EPOLLHUP \<noteq> 0) (with_channel get p (handleClosed run)) s) (\<lambda>s.
     bind_res (on_event (ev AND EPOLLERR \<noteq> 0) (with_channel get p (handleError run)) s) (\<lambda>s.
     bind_res (on_event (ev AND EVENT_READ \<noteq> 0) (with_channel get p (handleRead run)) s) (\<lambda>s.
     on_event (ev AND EVENT_WRITE \<noteq> 0) (with_channel get p (handleWrite run)) s))))"

fun dispatch_events ::
  "('s \<Rightarrow> nat \<Rightarrow> 'h channel option) \<Rightarrow> ('h \<Rightarrow> 's \<Rightarrow> 's res) \<Rightarrow> (u32 \<times> nat) list \<Rightarrow> 's \<Rightarrow> 's res" where
  "dispatch_events get run [] s = Inr s"
| "dispatch_events get run (e # es) s =
     bind_res (dispatch_event get run e s) (dispatch_events get run es)"

text \<open>
  \<open>startLoop\<close>: what each \<open>epoll_wait\<close> returns (\<open>None\<close> for an error) is given; \<open>cap\<close> is the
  size of the event vector, doubled when a wait filled it. The loop ends when \<open>_looping\<close> is
  cleared, or is still waiting when the given results are used up.
\<close>

fun startLoop ::
  "('s \<Rightarrow> bool) \<Rightarrow> ('s \<Rightarrow> nat \<Rightarrow> 'h channel option) \<Rightarrow> ('h \<Rightarrow> 's \<Rightarrow> 's res)
    \<Rightarrow> (u32 \<times> nat) list option list \<Rightarrow> nat \<Rightarrow> 's \<Rightarrow> ('s \<times> nat) res" where
  "startLoop looping get run [] cap s = Inr (s, cap)"
| "startLoop looping get run (None # ws) cap s =
     (if looping s then startLoop looping get run ws cap s else Inr (s, cap))"
| "startLoop looping get run (Some es # ws) cap s =
     (if looping s
      then bind_res (dispatch_events get run es s)
        (\<lambda>s'. startLoop looping get run ws (if length es = cap then cap * 2 else cap) s')
      else Inr (s, cap))"

text \<open>
  The channels of one owner whose callbacks only record that they ran: the order in which the
  events of a mask are delivered.
\<close>

datatype which = OnClosed | OnError | OnRead | OnWrite

definition recording_channel :: "int \<Rightarrow> which channel" where
  "recording_channel fd =
     setReadCallback (User OnRead) (setWriteCallback (User OnWrite)
       (setErrorHandler (User OnError) (setCloseHandler (User OnClosed) (new_Channel fd))))"

definition delivered :: "u32 \<Rightarrow> which list" where
  "delivered ev =
     (if ev AND EPOLLHUP \<noteq> 0 then [OnClosed] else [])
     @ (if ev AND EPOLLERR \<noteq> 0 then [OnError] else [])
     @ (if ev AND EVENT_READ \<noteq> 0 then [OnRead] else [])
     @ (if ev AND EVENT_WRITE \<noteq> 0 then [OnWrite] else [])"

lemma dispatch_event_recorded:
  "dispatch_event (\<lambda>_ _. Some (recording_channel fd)) (\<lambda>w log. Inr (log @ [w])) (ev, p) log
    = Inr (log @ delivered ev)"
  by (simp add: dispatch_event_def on_event_def with_channel_def handleClosed_def handleError_def
      handleRead_def handleWrite_def invoke_def recording_channel_def setReadCallback_def
      setWriteCallback_def setErrorHandler_def setCloseHandler_def delivered_def)

lemma dispatch_events_recorded:
  "dispatch_events (\<lambda>_ _. Some (recording_channel fd)) (\<lambda>w log. Inr (log @ [w])) es log
    = Inr (log @ concat (map (\<lambda>(ev, p). delivered ev) es))"
  by (induction es arbitrary: log) (auto simp: dispatch_event_recorded)

section \<open>Runnables\<close>

record 'r looper =
  runnables :: "'r list"
  threadId :: nat
  looping :: bool
  evcount :: nat             \<comment> \<open>the counter of the eventfd of \<open>_runnableChan\<close>\<close>
  wakecount :: nat           \<comment> \<open>the counter of the eventfd of \<open>_wakeupChan\<close>\<close>

definition new_looper :: "nat \<Rightarrow> 'r looper" where
  "new_looper tid = \<lparr>runnables = [], threadId = tid, looping = True, evcount = 0, wakecount = 0\<rparr>"

text \<open>\<open>EventChannel::wakeup\<close>: the eventfd's counter goes up by the 1 written.\<close>

definition wakeup :: "'r looper \<Rightarrow> 'r looper" where
  "wakeup l = l\<lparr>evcount := evcount l + 1\<rparr>"

text \<open>The critical section of \<open>postRunnable\<close> and \<open>postRunnablePopStack\<close>.\<close>

definition push_runnable :: "'r \<Rightarrow> 'r looper \<Rightarrow> 'r looper" where
  "push_runnable r l = l\<lparr>runnables := runnables l @ [r]\<rparr>"

text \<open>\<open>postRunnable\<close> run by thread \<open>tid\<close>: what is left to do by the caller, if anything.\<close>

definition postRunnable :: "nat \<Rightarrow> 'r \<Rightarrow> 'r looper \<Rightarrow> 'r looper \<times> 'r option" where
  "postRunnable tid r l =
     (if tid = threadId l then (l, Some r) else (wakeup (push_runnable r l), None))"

definition postRunnablePopStack :: "'r \<Rightarrow> 'r looper \<Rightarrow> 'r looper" where
  "postRunnablePopStack r l = wakeup (push_runnable r l)"

text \<open>\<open>EventChannel::handleRead\<close>: reading the eventfd resets its counter.\<close>

definition read_evfd :: "'r looper \<Rightarrow> 'r looper" where
  "read_evfd l = l\<lparr>evcount := 0\<rparr>"

text \<open>The critical section of \<open>executeRunnables\<close>: the queue is swapped out.\<close>

definition swap_runnables :: "'r looper \<Rightarrow> 'r list \<times> 'r looper" where
  "swap_runnables l = (runnables l, l\<lparr>runnables := []\<rparr>)"

text \<open>\<open>MultiplexLooper::wakeup\<close> writes to the other eventfd, and reading that one does nothing more.\<close>

definition wakeup_loop :: "'r looper \<Rightarrow> 'r looper" where
  "wakeup_loop l = l\<lparr>wakecount := wakecount l + 1\<rparr>"

definition read_wakeup :: "'r looper \<Rightarrow> 'r looper" where
  "read_wakeup l = l\<lparr>wakecount := 0\<rparr>"

text \<open>\<open>stopLoop\<close> does two things, one after the other; other threads may run in between.\<close>

datatype stop_act = Clear_looping | Wake_loop

fun do_act :: "stop_act \<Rightarrow> 'r looper \<Rightarrow> 'r looper" where
  "do_act Clear_looping l = l\<lparr>looping := False\<rparr>"
| "do_act Wake_loop l = wakeup_loop l"

definition stopLoop_acts :: "stop_act list" where
  "stopLoop_acts = [Clear_looping, Wake_loop]"

definition stopLoop :: "'r looper \<Rightarrow> 'r looper" where
  "stopLoop l = fold do_act stopLoop_acts l"

section \<open>Threads\<close>

text \<open>
  Where the loop thread is: waiting in \<open>epoll_wait\<close>, after the read of the eventfd, running
  the runnables it swapped out (or, with none left, between two events of one wait or at the head
  of the loop), or out of the loop. Any number of threads post and stop: \<open>posters\<close> counts those
  that have pushed and not yet written to the eventfd, \<open>stoppers\<close> holds what each thread that
  has called \<open>stopLoop\<close> has still to do. \<open>posted\<close> and \<open>executed\<close> are the history.
\<close>

datatype 'r loop_pc = Waiting | Serving | Running "'r list" | Exited

record 'r loop_sys =
  lp :: "'r looper"
  pc :: "'r loop_pc"
  posters :: nat
  stoppers :: "stop_act list list"
  posted :: "'r list"
  executed :: "'r list"

text \<open>
  Work is what a thread does to finish what it has begun: the write of a post, the actions of a
  \<open>stopLoop\<close>, and all the loop thread does. Besides, any thread may at any time begin a post or
  a stop, or wake the loop.
\<close>

inductive work_step :: "'r loop_sys \<Rightarrow> 'r loop_sys \<Rightarrow> bool" where
  post_wake: "posters s > 0 \<Longrightarrow> work_step s (s\<lparr>lp := wakeup (lp s), posters := posters s - 1\<rparr>)"
| stop_next: "stoppers s = xs @ (a # as) # ys \<Longrightarrow>
    work_step s (s\<lparr>lp := do_act a (lp s), stoppers := xs @ as # ys\<rparr>)"
| loop_woken: "pc s \<in> {Waiting, Running []} \<Longrightarrow> wakecount (lp s) > 0 \<Longrightarrow>
    work_step s (s\<lparr>lp := read_wakeup (lp s), pc := Running []\<rparr>)"
| loop_read: "pc s \<in> {Waiting, Running []} \<Longrightarrow> evcount (lp s) > 0 \<Longrightarrow>
    work_step s (s\<lparr>lp := read_evfd (lp s), pc := Serving\<rparr>)"
| loop_swap: "pc s = Serving \<Longrightarrow> swap_runnables (lp s) = (rs, l') \<Longrightarrow>
    work_step s (s\<lparr>lp := l', pc := Running rs\<rparr>)"
| loop_run: "pc s = Running (r # rs) \<Longrightarrow>
    work_step s (s\<lparr>pc := Running rs, executed := executed s @ [r]\<rparr>)"
| loop_head: "pc s = Running [] \<Longrightarrow>
    work_step s (s\<lparr>pc := (if looping (lp s) then Waiting else Exited)\<rparr>)"

inductive sys_step :: "'r loop_sys \<Rightarrow> 'r loop_sys \<Rightarrow> bool" where
  begun: "work_step s t \<Longrightarrow> sys_step s t"
| post_push: "sys_step s (s\<lparr>lp := push_runnable r (lp s), posters := posters s + 1,
      posted := posted s @ [r]\<rparr>)"
| stop_call: "sys_step s (s\<lparr>stoppers := stopLoop_acts # stoppers s\<rparr>)"
| other_wake: "sys_step s (s\<lparr>lp := wakeup_loop (lp s)\<rparr>)"

inductive reaches :: "'r loop_sys \<Rightarrow> 'r loop_sys \<Rightarrow> bool" where
  here: "reaches s s"
| more: "reaches s t \<Longrightarrow> sys_step t u \<Longrightarrow> reaches s u"

text \<open>The work a state leads to, and the states in which all work is done.\<close>

inductive works :: "'r loop_sys \<Rightarrow> 'r loop_sys \<Rightarrow> bool" where
  works_here: "works s s"
| works_more: "works s t \<Longrightarrow> work_step t u \<Longrightarrow> works s u"

definition finished :: "'r loop_sys \<Rightarrow> bool" where
  "finished s \<longleftrightarrow> (\<forall>t. \<not> work_step s t)"

text \<open>Some thread has called \<open>stopLoop\<close>: the flag is cleared, or is about to be.\<close>

definition told_to_stop :: "'r loop_sys \<Rightarrow> bool" where
  "told_to_stop s \<longleftrightarrow> \<not> looping (lp s) \<or> (\<exists>as \<in> set (stoppers s). Clear_looping \<in> set as)"

inductive_cases work_stepE: "work_step s t"
inductive_cases sys_stepE: "sys_step s t"

definition idle_sys :: "nat \<Rightarrow> 'r loop_sys" where
  "idle_sys tid = \<lparr>lp = new_looper tid, pc = Running [], posters = 0, stoppers = [],
     posted = [], executed = []\<rparr>"

text \<open>The runnables swapped out and not yet run.\<close>

definition in_hand :: "'r loop_pc \<Rightarrow> 'r list" where
  "in_hand c = (case c of Running rs \<Rightarrow> rs | _ \<Rightarrow> [])"

definition loop_inv :: "'r loop_sys \<Rightarrow> bool" where
  "loop_inv s \<longleftrightarrow> posted s = executed s @ in_hand (pc s) @ runnables (lp s)
     \<and> (runnables (lp s) \<noteq> [] \<longrightarrow> evcount (lp s) > 0 \<or> posters s > 0 \<or> pc s = Serving)
     \<and> (\<forall>as \<in> set (stoppers s). as \<in> {stopLoop_acts, [Wake_loop], []})
     \<and> (\<not> looping (lp s) \<longrightarrow> wakecount (lp s) > 0 \<or> [Wake_loop] \<in> set (stoppers s) \<or> pc s \<noteq> Waiting)
     \<and> (pc s = Exited \<longrightarrow> \<not> looping (lp s))"

named_theorems looper_defs
declare loop_inv_def [looper_defs] in_hand_def [looper_defs] push_runnable_def [looper_defs]
  wakeup_def [looper_defs] read_evfd_def [looper_defs] swap_runnables_def [looper_defs]
  wakeup_loop_def [looper_defs] read_wakeup_def [looper_defs] stopLoop_acts_def [looper_defs]
  told_to_stop_def [looper_defs]

text \<open>A stopper's next action leaves one of the lists the invariant allows.\<close>

lemma stop_next_inv:
  assumes "loop_inv s" and "stoppers s = xs @ (a # as) # ys"
  shows "loop_inv (s\<lparr>lp := do_act a (lp s), stoppers := xs @ as # ys\<rparr>)"
proof -
  from assms have "(a, as) = (Clear_looping, [Wake_loop]) \<or> (a, as) = (Wake_loop, [])"
    by (simp add: loop_inv_def stopLoop_acts_def)
  then show ?thesis using assms by (elim disjE) (auto simp: looper_defs)
qed

lemma work_step_inv: "work_step s t \<Longrightarrow> loop_inv s \<Longrightarrow> loop_inv t"
  by (erule work_stepE) (auto simp: looper_defs split: if_splits intro: stop_next_inv
      [unfolded looper_defs])

lemma sys_step_inv: "sys_step s t \<Longrightarrow> loop_inv s \<Longrightarrow> loop_inv t"
  by (induction rule: sys_step.induct) (auto simp: work_step_inv, auto simp: looper_defs)

lemma reaches_inv: "reaches s t \<Longrightarrow> loop_inv s \<Longrightarrow> loop_inv t"
  by (induction rule: reaches.induct) (auto intro: sys_step_inv)

lemma idle_inv: "loop_inv (idle_sys tid)"
  by (simp add: loop_inv_def idle_sys_def new_looper_def in_hand_def)

lemma works_inv: "works s t \<Longrightarrow> loop_inv s \<Longrightarrow> loop_inv t"
  by (induction rule: works.induct) (auto intro: work_step_inv)

text \<open>Work posts nothing, and takes back no stop.\<close>

lemma works_keeps: "works s t \<Longrightarrow> posted t = posted s \<and> (told_to_stop t \<longleftrightarrow> told_to_stop s)"
proof (induction rule: works.induct)
  case (works_more s t u)
  from works_more(2) have "posted u = posted t \<and> (told_to_stop u \<longleftrightarrow> told_to_stop t)"
  proof cases
    case (stop_next xs a as ys)
    then show ?thesis by (cases a) (auto simp: looper_defs)
  qed (auto simp: looper_defs)
  with works_more.IH show ?case by simp
qed simp

text \<open>Work comes to an end: what is begun by others shrinks, or the events that wait do, or
  the loop thread gets on with what it has in hand.\<close>

fun pc_rank :: "'r loop_pc \<Rightarrow> 'r looper \<Rightarrow> nat" where
  "pc_rank (Running rs) l = Suc (length rs)"
| "pc_rank Serving l = Suc (Suc (length (runnables l)))"
| "pc_rank _ l = 0"

definition work_left :: "('r loop_sys \<Rightarrow> nat) list" where
  "work_left = [\<lambda>s. posters s + length (concat (stoppers s)),
     \<lambda>s. of_bool (wakecount (lp s) > 0) + of_bool (evcount (lp s) > 0),
     \<lambda>s. pc_rank (pc s) (lp s)]"

lemma work_step_decreases: "work_step s t \<Longrightarrow> (t, s) \<in> measures work_left"
  by (erule work_stepE) (auto simp: work_left_def looper_defs)

definition work_ends :: "'r loop_sys \<Rightarrow> bool" where
  "work_ends s \<longleftrightarrow> (\<nexists>f. f 0 = s \<and> (\<forall>n. work_step (f n) (f (Suc n))))"

lemma work_always_ends: "work_ends s"
proof -
  have "wf (measures (work_left :: ('r loop_sys \<Rightarrow> nat) list))" by simp
  then have "\<nexists>f. \<forall>n. (f (Suc n), f n) \<in> measures (work_left :: ('r loop_sys \<Rightarrow> nat) list)"
    by (simp only: wf_iff_no_infinite_down_chain)
  then show ?thesis unfolding work_ends_def using work_step_decreases by blast
qed

lemma works_first: "works t u \<Longrightarrow> work_step s t \<Longrightarrow> works s u"
  by (induction rule: works.induct) (auto intro: works_here works_more)

lemma work_ends_finishes:
  assumes "work_ends s"
  obtains t where "works s t" and "finished t"
proof -
  have "\<exists>t. works s t \<and> finished t"
  proof (induction s rule: wf_induct_rule [OF wf_measures [of work_left]])
    case (1 s)
    show ?case
    proof (cases "finished s")
      case True
      then show ?thesis using works_here by blast
    next
      case False
      then obtain t where t: "work_step s t" by (auto simp: finished_def)
      from 1 [OF work_step_decreases [OF this]] works_first [OF _ t] show ?thesis by blast
    qed
  qed
  with that show thesis by blast
qed

text \<open>Once all work is done, no thread is in the middle of a post or a stop, and the loop thread
  has left or waits with nothing to wake it.\<close>

lemma finished_state:
  assumes "finished s"
  shows "posters s = 0" and "concat (stoppers s) = []"
    and "pc s = Exited \<or> pc s = Waiting \<and> wakecount (lp s) = 0 \<and> evcount (lp s) = 0"
proof -
  note no = assms [unfolded finished_def, rule_format]
  show "posters s = 0" using no post_wake by blast
  show "concat (stoppers s) = []"
  proof (rule ccontr)
    assume "concat (stoppers s) \<noteq> []"
    then obtain a as where "a # as \<in> set (stoppers s)"
      by (auto simp: concat_eq_Nil_conv neq_Nil_conv)
    then obtain xs ys where "stoppers s = xs @ (a # as) # ys" by (meson split_list)
    with no stop_next show False by blast
  qed
  show "pc s = Exited \<or> pc s = Waiting \<and> wakecount (lp s) = 0 \<and> evcount (lp s) = 0"
  proof (cases "pc s")
    case Waiting
    with no loop_woken [of s] loop_read [of s] show ?thesis by simp blast
  next
    case Serving
    from no loop_swap [OF this surjective_pairing] show ?thesis by blast
  next
    case (Running rs)
    with no loop_run [of s] loop_head [of s] show ?thesis by (cases rs) (simp; blast)+
  qed simp
qed

text \<open>A \<open>stopLoop\<close> no other thread gets in the way of is \<open>stopLoop\<close> on the looper.\<close>

lemma stop_undisturbed:
  assumes "stoppers s = [stopLoop_acts]"
  shows "works s (s\<lparr>lp := stopLoop (lp s), stoppers := [[]]\<rparr>)"
proof -
  let ?t = "s\<lparr>lp := do_act Clear_looping (lp s), stoppers := [] @ [Wake_loop] # []\<rparr>"
  have "work_step s ?t"
    by (rule stop_next) (simp add: assms stopLoop_acts_def)
  moreover have "work_step ?t (?t\<lparr>lp := do_act Wake_loop (lp ?t), stoppers := [] @ [] # []\<rparr>)"
    by (rule stop_next) simp
  ultimately have "works s (?t\<lparr>lp := do_act Wake_loop (lp ?t), stoppers := [] @ [] # []\<rparr>)"
    by (meson works_here works_more)
  then show ?thesis by (simp add: stopLoop_def stopLoop_acts_def)
qed

section \<open>Construction and destruction\<close>

text \<open>
  An \<open>EventChannel\<close> is an eventfd and its channel, attached from the start. A looper owns two of
  them and the epoll instance, whose interest list begins empty; attaching to an instance that
  could not be created fails. \<open>open_fds\<close> are the descriptors it has open; the kernel drops a closed
  one from the list.
\<close>

record event_channel =
  evfd :: int
  ec_channel :: "unit channel"

record looper_parts =
  pollFd :: int
  wakeupChan :: event_channel
  runnableChan :: event_channel
  poll_interest :: interest
  open_fds :: "int set"

definition new_EventChannel :: "epoll_ctl \<Rightarrow> int \<Rightarrow> interest \<Rightarrow> (event_channel \<times> interest) res" where
  "new_EventChannel ctl fd k = assert_then (fd \<ge> 0)
     (bind_res (enableRead ctl True (setReadCallback (User ()) (new_Channel fd), k)) (\<lambda>c.
      bind_res (attach ctl c) (\<lambda>(ch, k'). Inr (\<lparr>evfd = fd, ec_channel = ch\<rparr>, k'))))"

definition delete_EventChannel :: "epoll_ctl \<Rightarrow> event_channel \<Rightarrow> interest \<Rightarrow> interest res" where
  "delete_EventChannel ctl e k = bind_res (detach ctl (ec_channel e, k)) (\<lambda>(ch, k'). Inr (k'(evfd e := None)))"

definition new_MultiplexLooper :: "epoll_ctl \<Rightarrow> int \<Rightarrow> int \<Rightarrow> int \<Rightarrow> looper_parts res" where
  "new_MultiplexLooper ctl epfd fd1 fd2 = assert_then (epfd \<ge> 0)
     (bind_res (new_EventChannel ctl fd1 (\<lambda>_. None)) (\<lambda>(w, k1).
      bind_res (new_EventChannel ctl fd2 k1) (\<lambda>(r, k2).
      Inr \<lparr>pollFd = epfd, wakeupChan = w, runnableChan = r, poll_interest = k2,
           open_fds = {epfd, fd1, fd2}\<rparr>)))"

definition delete_MultiplexLooper :: "epoll_ctl \<Rightarrow> looper_parts \<Rightarrow> looper_parts res" where
  "delete_MultiplexLooper ctl l =
     bind_res (delete_EventChannel ctl (wakeupChan l) (poll_interest l)) (\<lambda>k.
     Inr (l\<lparr>poll_interest := k, open_fds := open_fds l - {evfd (wakeupChan l)}
       - (if pollFd l \<ge> 0 then {pollFd l} else {})\<rparr>))"

text \<open>The destructor forgets \<open>_runnableChan\<close>: every looper that is destroyed leaves its eventfd open.\<close>

lemma looper_leaks_descriptor:
  assumes "epoll_documented ctl" and "epfd \<ge> 0" and "fd1 \<ge> 0" and "fd2 \<ge> 0" and "distinct [epfd, fd1, fd2]"
  shows "\<exists>l l'. new_MultiplexLooper ctl epfd fd1 fd2 = Inr l
    \<and> (\<forall>fd. poll_interest l fd = (if fd \<in> {fd1, fd2} then Some (EVENT_READ OR EDGE_TRIGGER) else None))
    \<and> delete_MultiplexLooper ctl l = Inr l' \<and> open_fds l' = {fd2}"
proof -
  let ?ch = "\<lambda>fd. (new_Channel fd :: unit channel)\<lparr>readEventHandler := User (), ch_events := with_edge True EVENT_READ\<rparr>"
  have new: "new_EventChannel ctl fd k = Inr (\<lparr>evfd = fd, ec_channel = (?ch fd)\<lparr>attached := True\<rparr>\<rparr>,
      k(fd \<mapsto> with_edge True EVENT_READ))" if "fd \<ge> 0" "k fd = None" for fd k
    using that attach_fresh [OF assms(1), of "?ch fd" k]
    by (simp add: new_EventChannel_def enableRead_def apply_channel_def setReadCallback_def new_Channel_def)
  let ?l = "\<lparr>pollFd = epfd, wakeupChan = \<lparr>evfd = fd1, ec_channel = (?ch fd1)\<lparr>attached := True\<rparr>\<rparr>,
      runnableChan = \<lparr>evfd = fd2, ec_channel = (?ch fd2)\<lparr>attached := True\<rparr>\<rparr>,
      poll_interest = (Map.empty(fd1 \<mapsto> with_edge True EVENT_READ, fd2 \<mapsto> with_edge True EVENT_READ)),
      open_fds = {epfd, fd1, fd2}\<rparr>"
  let ?l' = "?l\<lparr>poll_interest := (poll_interest ?l)(fd1 := None), open_fds := {fd2}\<rparr>"
  have "new_MultiplexLooper ctl epfd fd1 fd2 = Inr ?l"
    using assms(2-5) new [of fd1] new [of fd2] by (simp add: new_MultiplexLooper_def)
  moreover have "delete_EventChannel ctl (wakeupChan ?l) (poll_interest ?l)
      = Inr ((poll_interest ?l)(fd1 := None))"
    using detach_attached [OF assms(1), of "ec_channel (wakeupChan ?l)" "poll_interest ?l"] assms(3)
    by (simp add: delete_EventChannel_def new_Channel_def)
  then have "delete_MultiplexLooper ctl ?l = Inr ?l'"
    using assms(2,5) by (auto simp: delete_MultiplexLooper_def)
  moreover have "with_edge True EVENT_READ = EVENT_READ OR EDGE_TRIGGER"
    by (simp add: with_edge_def)
  ultimately show ?thesis by (intro exI [of _ ?l] exI [of _ ?l'] conjI) simp_all
qed

section \<open>Properties\<close>

text \<open>C23: Runnables posted from any threads, interleaved in any way with the loop, run in the
  order they were posted and at most once each: what has run is a prefix of what was posted.
  None is forgotten: whenever the queue holds one, the eventfd is readable, or a poster is
  about to write to it, or the loop is about to swap the queue out.\<close>

theorem runnables_fifo_no_lost_wakeup:
  assumes "reaches (idle_sys tid) s"
  shows "posted s = executed s @ in_hand (pc s) @ runnables (lp s)
    \<and> (runnables (lp s) = [] \<or> evcount (lp s) > 0 \<or> posters s > 0 \<or> pc s = Serving)"
  using reaches_inv [OF assms idle_inv] by (auto simp: loop_inv_def)

theorem runnables_fifo_no_lost_wakeup_witness:
  "\<exists>s :: nat loop_sys. reaches (idle_sys 1) s \<and> posted s = [7]
    \<and> posted s = executed s @ in_hand (pc s) @ runnables (lp s)"
proof -
  let ?s = "(idle_sys 1)\<lparr>lp := push_runnable 7 (lp (idle_sys 1)), posters := 1, posted := [7 :: nat]\<rparr>"
  from post_push [of "idle_sys 1" "7::nat"] have "sys_step (idle_sys 1) ?s"
    by (simp add: idle_sys_def)
  from more [OF here this] have r: "reaches (idle_sys 1) ?s" .
  moreover have "posted ?s = [7]" by simp
  ultimately show ?thesis using runnables_fifo_no_lost_wakeup [OF r] by blast
qed

text \<open>C24: From every reachable state in which no thread has called \<open>stopLoop\<close>, the threads finish
  what they have begun after finitely many steps, however these interleave, and whenever they
  have done so everything posted has run, in posting order, and the loop waits for more.\<close>

theorem runnables_all_run:
  assumes "reaches (idle_sys tid) s" and "\<not> told_to_stop s"
  shows "work_ends s \<and> (\<forall>t. works s t \<longrightarrow> finished t \<longrightarrow>
    executed t = posted s \<and> posted t = posted s \<and> pc t = Waiting)"
proof (intro conjI allI impI)
  show "work_ends s" by (rule work_always_ends)
next
  fix t assume t: "works s t" "finished t"
  from works_keeps [OF t(1)] assms(2) have k: "posted t = posted s" "\<not> told_to_stop t" by auto
  from works_inv [OF t(1) reaches_inv [OF assms(1) idle_inv]] have inv: "loop_inv t" .
  from finished_state [OF t(2)] inv k(2) have "pc t = Waiting" "posters t = 0" "evcount (lp t) = 0"
    by (auto simp: loop_inv_def told_to_stop_def)
  with inv k(1) show "executed t = posted s" "posted t = posted s" "pc t = Waiting"
    by (auto simp: loop_inv_def in_hand_def)
qed

theorem runnables_all_run_witness:
  "\<exists>s t :: nat loop_sys. reaches (idle_sys 1) s \<and> posted s = [7] \<and> works s t \<and> finished t
    \<and> executed t = [7] \<and> pc t = Waiting"
proof -
  let ?s = "(idle_sys 1)\<lparr>lp := push_runnable 7 (lp (idle_sys 1)), posters := 1, posted := [7 :: nat]\<rparr>"
  from post_push [of "idle_sys 1" "7::nat"] have "sys_step (idle_sys 1) ?s"
    by (simp add: idle_sys_def)
  from more [OF here this] have r: "reaches (idle_sys 1) ?s" .
  have "\<not> told_to_stop ?s" by (simp add: idle_sys_def looper_defs new_looper_def)
  note all = runnables_all_run [OF r this]
  from work_ends_finishes [OF conjunct1 [OF all]] obtain t where "works ?s t" "finished t" by blast
  with all r show ?thesis by (intro exI [of _ ?s] exI [of _ t]) simp
qed

text \<open>C25: A stop is never lost: from every reachable state in which some thread has called
  \<open>stopLoop\<close>, however far it has got and wherever that found the loop, the threads finish what
  they have begun after finitely many steps, however these interleave, and whenever they have done
  so the loop has ended.\<close>

theorem stop_ends_the_loop:
  assumes "reaches (idle_sys tid) s" and "told_to_stop s"
  shows "work_ends s \<and> (\<forall>t. works s t \<longrightarrow> finished t \<longrightarrow> pc t = Exited \<and> posted t = posted s)"
proof (intro conjI allI impI)
  show "work_ends s" by (rule work_always_ends)
next
  fix t assume t: "works s t" "finished t"
  from works_keeps [OF t(1)] assms(2) have k: "posted t = posted s" "told_to_stop t" by auto
  from works_inv [OF t(1) reaches_inv [OF assms(1) idle_inv]] have inv: "loop_inv t" .
  note f = finished_state [OF t(2)]
  from f(2) have st: "as = []" if "as \<in> set (stoppers t)" for as using that by auto
  with k(2) have "\<not> looping (lp t)" by (force simp: told_to_stop_def)
  with inv st f(3) show "pc t = Exited" "posted t = posted s"
    by (auto simp: loop_inv_def k(1))
qed

theorem stop_ends_the_loop_witness:
  "\<exists>s t :: nat loop_sys. reaches (idle_sys 1) s \<and> pc s = Waiting \<and> looping (lp s)
    \<and> works s t \<and> finished t \<and> pc t = Exited"
proof -
  let ?w = "(idle_sys 1 :: nat loop_sys)\<lparr>pc := Waiting\<rparr>"
  let ?s = "?w\<lparr>stoppers := stopLoop_acts # stoppers ?w\<rparr>"
  have "work_step (idle_sys 1) ?w"
    using loop_head [of "idle_sys 1 :: nat loop_sys"] by (simp add: idle_sys_def new_looper_def)
  from more [OF more [OF here begun [OF this]] stop_call] have r: "reaches (idle_sys 1) ?s" .
  have "told_to_stop ?s" by (simp add: looper_defs)
  note ends = stop_ends_the_loop [OF r this]
  from work_ends_finishes [OF conjunct1 [OF ends]] obtain t where "works ?s t" "finished t" by blast
  with ends r show ?thesis
    by (intro exI [of _ ?s] exI [of _ t]) (simp add: idle_sys_def new_looper_def)
qed

text \<open>What was posted before the stop may never run: the loop ends with it in the queue.\<close>

lemma stop_strands_runnables:
  "\<exists>s :: 'r loop_sys. reaches (idle_sys tid) s \<and> pc s = Exited \<and> posted s = [r] \<and> executed s = []"
proof -
  let ?s0 = "idle_sys tid :: 'r loop_sys"
  let ?s1 = "?s0\<lparr>lp := push_runnable r (lp ?s0), posters := posters ?s0 + 1, posted := posted ?s0 @ [r]\<rparr>"
  let ?s2 = "?s1\<lparr>stoppers := stopLoop_acts # stoppers ?s1\<rparr>"
  let ?s3 = "?s2\<lparr>lp := do_act Clear_looping (lp ?s2), stoppers := [] @ [Wake_loop] # []\<rparr>"
  let ?s4 = "?s3\<lparr>pc := (if looping (lp ?s3) then Waiting else Exited)\<rparr>"
  have "reaches ?s0 ?s2" by (intro more [OF _ stop_call] more [OF _ post_push] here)
  moreover have "work_step ?s2 ?s3" by (rule stop_next) (simp add: stopLoop_acts_def idle_sys_def)
  moreover have "work_step ?s3 ?s4" by (rule loop_head) (simp add: idle_sys_def)
  ultimately have "reaches ?s0 ?s4" by (meson more begun)
  then show ?thesis by (intro exI conjI) (assumption | simp add: idle_sys_def)+
qed

text \<open>A round of the loop calls the callbacks of its events in the order of the events, and
  within one event close, error, read, write, each exactly when its bit is in the mask.\<close>

theorem loop_delivery_order:
  "startLoop (\<lambda>_. True) (\<lambda>_ _. Some (recording_channel fd)) (\<lambda>w log. Inr (log @ [w]))
     [Some es] cap log
   = Inr (log @ concat (map (\<lambda>(ev, p). delivered ev) es),
       if length es = cap then cap * 2 else cap)"
  by (simp add: dispatch_events_recorded)

text \<open>A channel whose owner set a close handler and left the default error handler, as the
  connections do, has its close handler called twice by one event that carries both
  \<open>EPOLLHUP\<close> and \<open>EPOLLERR\<close>.\<close>

theorem hangup_with_error_closes_twice:
  assumes "ev AND EPOLLHUP \<noteq> 0" and "ev AND EPOLLERR \<noteq> 0"
    and "ev AND EVENT_READ = 0" and "ev AND EVENT_WRITE = 0"
    and "errorHandler ch = Default_error_handler" and "closedHandler ch = User h"
  shows "dispatch_event (\<lambda>_ _. Some ch) run (ev, p) s = bind_res (run h s) (run h)"
  using assms by (simp add: dispatch_event_def on_event_def with_channel_def handleClosed_def
      handleError_def invoke_def) (cases "run h s"; simp; case_tac "run h b"; simp)

theorem hangup_with_error_closes_twice_witness:
  "dispatch_event (\<lambda>_ _. Some (setCloseHandler (User True) (new_Channel 5)))
     (\<lambda>_ n. Inr (n + 1)) (EPOLLHUP OR EPOLLERR, 0) (0 :: nat) = Inr 2"
  by (subst hangup_with_error_closes_twice [where h = True])
    (simp_all add: event_masks setCloseHandler_def new_Channel_def)

end
