(* ===== verification/LoopConnection.thy ===== *)
theory LoopConnection
  imports TcpConnection MultiplexLooper
begin

text \<open>
  A connection in its loop: what \<open>startLoop\<close> of \<^verbatim>\<open>MultiplexLooper.cpp\<close> does with an event of
  a connection, through the callbacks the constructor in \<^verbatim>\<open>include/TcpConnection.hpp\<close> installs
  in its channel. The results of the socket calls the callbacks make, and \<open>errno\<close>, are given.
\<close>

section \<open>The callbacks\<close>

text \<open>The bindings the constructor makes.\<close>

definition run_tcp ::
  "epoll_ctl \<Rightarrow> read_result list \<Rightarrow> (write_result \<times> int) list \<Rightarrow> int \<Rightarrow> tcp_callback \<Rightarrow> connection \<Rightarrow> connection res"
where
  "run_tcp ctl rs ws errno cb c = (case cb of
       On_handleRead \<Rightarrow> tcp_handleRead ctl rs c
     | On_handleWrite \<Rightarrow> tcp_handleWrite ctl ws c
     | On_handleClose \<Rightarrow> Inr (tcp_handleClose errno c))"

definition tcp_event ::
  "epoll_ctl \<Rightarrow> read_result list \<Rightarrow> (write_result \<times> int) list \<Rightarrow> int \<Rightarrow> u32 \<Rightarrow> connection \<Rightarrow> connection res"
where
  "tcp_event ctl rs ws errno ev c =
     dispatch_event (\<lambda>c _. Some (tcp_channel c)) (run_tcp ctl rs ws errno) (ev, 0) c"

text \<open>The channel carries these bindings and the default error handler.\<close>

definition wired :: "tcp_callback channel \<Rightarrow> bool" where
  "wired ch \<longleftrightarrow> readEventHandler ch = User On_handleRead \<and> writeEventHandler ch = User On_handleWrite
     \<and> closedHandler ch = User On_handleClose \<and> errorHandler ch = Default_error_handler"

lemma new_TcpConnection_wired:
  "new_TcpConnection ctl k m fd addr = Inr c \<Longrightarrow> wired (tcp_channel c)"
  by (auto simp: new_TcpConnection_def channel_eval Let_def wired_def)

lemma wired_attached [simp]: "wired (ch\<lparr>attached := b\<rparr>) = wired ch"
  by (simp add: wired_def)

lemma attach_wired: "attach ctl (ch, k) = Inr (ch', k') \<Longrightarrow> wired ch' = wired ch"
  by (auto simp: attach_def split: if_splits)

lemma detach_wired: "detach ctl (ch, k) = Inr (ch', k') \<Longrightarrow> wired ch' = wired ch"
  by (auto simp: detach_def split: if_splits)

lemma tcp_channel_closed [simp]:
  "tcp_channel (sock_close c) = tcp_channel c" "tcp_channel (tcp_handleClose e c) = tcp_channel c"
  by (simp_all add: sock_close_def tcp_handleClose_def)

lemma tcp_handleRead_wired:
  "tcp_handleRead ctl rs c = Inr c' \<Longrightarrow> wired (tcp_channel c') = wired (tcp_channel c)"
proof (induction ctl rs c arbitrary: c' rule: tcp_handleRead.induct)
  case (2 ctl r rs c)
  from "2.prems" obtain c1 where c1: "refresh_rcvBuf c = Inr c1" by auto
  note same = refresh_frame [OF c1]
  have close: "close_by ctl e c1 = Inr c' \<Longrightarrow> wired (tcp_channel c') = wired (tcp_channel c1)" for e
    by (auto simp: close_by_def tcp_detach_def dest: detach_wired)
  show ?case
  proof (cases r)
    case (Got bs)
    with "2.prems" c1 obtain m c2 where m: "take_in (store c1) (rcvBuf c1) bs = Inr m"
      "TcpConnection.deliver (c1\<lparr>store := m\<rparr>) = Inr c2"
      "(if length bs < writtableSize (store c1) (rcvBuf c1) + pendingSize then Inr c2
        else tcp_handleRead ctl rs c2) = Inr c'" by (auto simp: Let_def)
    from m(2) have "tcp_channel c2 = tcp_channel c1"
      by (auto simp: TcpConnection.deliver_def split: option.splits)
    with m(3) "2.IH" [OF c1 refl Got m(1,2)] same show ?thesis by (auto split: if_splits)
  next
    case (Read_error e)
    with "2.prems" c1 close same show ?thesis by (auto simp: Let_def split: if_splits)
  next
    case Eof
    with "2.prems" c1 close same show ?thesis by (auto simp: Let_def)
  qed
qed simp

section \<open>One event\<close>

text \<open>
  For a wired connection an event runs, in this order, the close handler for \<open>EPOLLHUP\<close>, the
  close handler again for \<open>EPOLLERR\<close>, \<open>handleRead\<close> and \<open>handleWrite\<close>.
\<close>

lemma tcp_event_eq:
  assumes "wired (tcp_channel c)"
  shows "tcp_event ctl rs ws errno ev c =
    (let c1 = (if ev AND EPOLLHUP \<noteq> 0 then tcp_handleClose errno c else c);
         c2 = (if ev AND EPOLLERR \<noteq> 0 then tcp_handleClose errno c1 else c1)
     in bind_res (if ev AND EVENT_READ \<noteq> 0 then tcp_handleRead ctl rs c2 else Inr c2)
          (\<lambda>c3. if ev AND EVENT_WRITE \<noteq> 0 then tcp_handleWrite ctl ws c3 else Inr c3))"
proof -
  let ?c1 = "if ev AND EPOLLHUP \<noteq> 0 then tcp_handleClose errno c else c"
  let ?c2 = "if ev AND EPOLLERR \<noteq> 0 then tcp_handleClose errno ?c1 else ?c1"
  have w1: "wired (tcp_channel ?c1)" and w2: "wired (tcp_channel ?c2)" using assms by auto
  let ?get = "\<lambda>c _. Some (tcp_channel c)" and ?run = "run_tcp ctl rs ws errno"
  have "on_event (ev AND EPOLLHUP \<noteq> 0) (with_channel ?get 0 (handleClosed ?run)) c = Inr ?c1"
    using assms by (simp add: on_event_def with_channel_def handleClosed_def invoke_def wired_def run_tcp_def)
  moreover have "on_event (ev AND EPOLLERR \<noteq> 0) (with_channel ?get 0 (handleError ?run)) ?c1 = Inr ?c2"
    using w1 by (simp add: on_event_def with_channel_def handleError_def handleClosed_def invoke_def
        wired_def run_tcp_def)
  moreover have "on_event (ev AND EVENT_READ \<noteq> 0) (with_channel ?get 0 (handleRead ?run)) ?c2
      = (if ev AND EVENT_READ \<noteq> 0 then tcp_handleRead ctl rs ?c2 else Inr ?c2)"
    using w2 by (simp add: on_event_def with_channel_def handleRead_def invoke_def wired_def run_tcp_def)
  moreover have "on_event (ev AND EVENT_WRITE \<noteq> 0) (with_channel ?get 0 (handleWrite ?run)) c3
      = (if ev AND EVENT_WRITE \<noteq> 0 then tcp_handleWrite ctl ws c3 else Inr c3)"
    if "(if ev AND EVENT_READ \<noteq> 0 then tcp_handleRead ctl rs ?c2 else Inr ?c2) = Inr c3" for c3
  proof -
    have "wired (tcp_channel c3)"
      using that w2 by (auto dest: tcp_handleRead_wired split: if_splits)
    then show ?thesis
      by (simp add: on_event_def with_channel_def handleWrite_def invoke_def wired_def run_tcp_def)
  qed
  ultimately show ?thesis
    unfolding tcp_event_def dispatch_event_def Let_def prod.case
    by (simp only: bind_res.simps cong: bind_res_cong)
qed

section \<open>Properties\<close>

text \<open>The end of a stream in the loop. An attached connection with nothing to send, built by
  the constructor, gets the event of a peer that is gone and its read yields the end of file
  (or a fatal error, \<open>e\<close>): the connection is closed and detached and nothing aborts. The close
  handler runs once for the read, as it should, and once more before it for each of \<open>EPOLLHUP\<close>
  and \<open>EPOLLERR\<close> the kernel reports with it, then with the connection still open.\<close>

theorem end_of_stream_notices:
  assumes "epoll_documented ctl" and "wired (tcp_channel c)" and "valid (store c) (rcvBuf c)"
    and "closedHandler_set c" and "ch_fd (tcp_channel c) \<ge> 0" and "attached (tcp_channel c)"
    and "epoll c (ch_fd (tcp_channel c)) \<noteq> None" and "sndBufList c = []"
    and "ends r e" and "ev AND EVENT_READ \<noteq> 0"
  shows "\<exists>c'. tcp_event ctl (r # rs) ws errno ev c = Inr c'
    \<and> notices c' = notices c @ (if ev AND EPOLLHUP \<noteq> 0 then [Closed errno] else [])
        @ (if ev AND EPOLLERR \<noteq> 0 then [Closed errno] else []) @ [Closed e]
    \<and> \<not> attached (tcp_channel c') \<and> \<not> sock_open c' \<and> epoll c' (ch_fd (tcp_channel c)) = None"
proof -
  define c2 where "c2 = c\<lparr>notices := notices c @ (if ev AND EPOLLHUP \<noteq> 0 then [Closed errno] else [])
    @ (if ev AND EPOLLERR \<noteq> 0 then [Closed errno] else [])\<rparr>"
  have c2: "(let c1 = (if ev AND EPOLLHUP \<noteq> 0 then tcp_handleClose errno c else c)
      in if ev AND EPOLLERR \<noteq> 0 then tcp_handleClose errno c1 else c1) = c2"
    using assms(4) by (simp add: c2_def tcp_handleClose_def Let_def)
  have f: "tcp_channel c2 = tcp_channel c" "store c2 = store c" "rcvBuf c2 = rcvBuf c"
    "epoll c2 = epoll c" "sndBufList c2 = []" "closedHandler_set c2"
    using assms(4,8) by (simp_all add: c2_def)
  obtain c1 where c1: "refresh_rcvBuf c2 = Inr c1"
    "tcp_handleRead ctl (r # rs) c2 = Inr (tcp_handleClose e (sock_close (c1\<lparr>tcp_channel :=
      (tcp_channel c2)\<lparr>attached := False\<rparr>, epoll := (epoll c2)(ch_fd (tcp_channel c2) := None)\<rparr>)))"
    by (rule read_end_eq [of ctl c2 r e rs]) (use assms f in auto)
  let ?c3 = "tcp_handleClose e (sock_close (c1\<lparr>tcp_channel :=
      (tcp_channel c2)\<lparr>attached := False\<rparr>, epoll := (epoll c2)(ch_fd (tcp_channel c2) := None)\<rparr>))"
  note same = refresh_frame [OF c1(1)]
  have "sndBufList ?c3 = []" using same f by (simp add: tcp_handleClose_def sock_close_def)
  then have "tcp_handleWrite ctl ws ?c3 = Inr ?c3"
    unfolding tcp_handleWrite_def by (cases "(ctl, ws, ?c3)" rule: sendInternal.cases) simp_all
  then have "tcp_event ctl (r # rs) ws errno ev c = Inr ?c3"
    using tcp_event_eq [OF assms(2), of ctl "r # rs" ws errno ev] c2 c1(2) assms(10)
    by (simp add: Let_def del: tcp_handleRead.simps bind_res_Inr)
  moreover have "notices ?c3 = notices c2 @ [Closed e]" using same f
    by (simp add: tcp_handleClose_def sock_close_def)
  ultimately show ?thesis
    using same f by (intro exI [of _ ?c3]) (simp add: c2_def tcp_handleClose_def sock_close_def)
qed

lemma attached_demo_wired: "wired (tcp_channel attached_demo)"
  by (simp add: attached_demo_def tcp_attach_def demo_connection_def sample_ctl_def
      new_TcpConnection_def new_VecBuffer_def predMsgLen_def max_vec_def channel_eval
      setNewMessageHandler_def setTcpCloseHandler_def Let_def wired_def)

theorem end_of_stream_notices_witness:
  "\<exists>c. tcp_event sample_ctl [Eof] [] 0 (EPOLLIN OR EPOLLHUP) attached_demo = Inr c
    \<and> notices c = [Closed 0, Closed 0]"
proof -
  have m: "(EPOLLIN OR EPOLLHUP) AND EVENT_READ \<noteq> 0" "(EPOLLIN OR EPOLLHUP) AND EPOLLHUP \<noteq> 0"
    "(EPOLLIN OR EPOLLHUP) AND EPOLLERR = 0" by (simp_all add: event_masks)
  have "ends Eof 0" by (simp add: ends_def)
  from end_of_stream_notices [OF sample_ctl_documented attached_demo_wired, of Eof 0
      "EPOLLIN OR EPOLLHUP" "[]" "[]" 0] this m demo_connection_valid
  show ?thesis by (auto simp: attached_demo_fields)
qed

end
