(* ===== verification/ConnectionLife.thy ===== *)
theory ConnectionLife
  imports TcpServer LoopConnection
begin

text \<open>
  How long a connection lives. A \<open>TcpConnection\<close> is owned by counted references
  (\<open>shared_ptr\<close>): the set of the server (\<^verbatim>\<open>include/TcpServer.hpp\<close>), the references user code
  keeps, and the one bound into each runnable \<open>removeConnection\<close> posts. The runnables of \<open>send\<close>
  and the callbacks in the channel (\<^verbatim>\<open>include/TcpConnection.hpp\<close>) hold the bare pointer. What
  the loops (\<^verbatim>\<open>include/MultiplexLooper.hpp\<close>) and any number of threads do is a sequence of
  steps: one call, one runnable, one event. Using a connection that is destroyed is the fault
  \<open>UseAfterFree\<close>.
\<close>

section \<open>References\<close>

text \<open>What is posted to a loop: the calls of \<open>send\<close> and \<open>sendMultiple\<close> on a connection, with
  the buffers, and the removal of a connection.\<close>

datatype job = Send_job nat nat | SendMultiple_job nat "nat list" | Remove_job nat

text \<open>
  \<open>batch l\<close> is the vector the loop \<open>l\<close> swapped its runnables into in \<open>executeRunnables\<close>, and
  \<open>batch_idx l\<close> the index of the one to run next; \<open>held\<close> are the references of user code, and
  \<open>removes_on_close\<close> says whether its close handler removes the connection from the server.
  \<open>asked\<close> is history: the connections whose removal has been asked for.
\<close>

record life =
  sv :: server
  held :: "nat list"
  loops :: "nat \<Rightarrow> job looper"
  batch :: "nat \<Rightarrow> job list"
  batch_idx :: "nat \<Rightarrow> nat"
  removes_on_close :: bool
  asked :: "nat set"

definition new_life :: "(nat \<Rightarrow> nat) \<Rightarrow> bool \<Rightarrow> server \<Rightarrow> life" where
  "new_life tids r v = \<lparr>sv = v, held = [], loops = (\<lambda>l. new_looper (tids l)), batch = (\<lambda>_. []),
     batch_idx = (\<lambda>_. 0), removes_on_close = r, asked = {}\<rparr>"

text \<open>A connection lives while a reference to it is left. Removals are posted to the main
  looper only; a vector keeps its runnables, those that have run too, until it is destroyed.\<close>

definition alive :: "nat \<Rightarrow> life \<Rightarrow> bool" where
  "alive i s \<longleftrightarrow> i \<in> set (connSet (sv s)) \<or> i \<in> set (held s)
     \<or> Remove_job i \<in> set (batch s (mainLooper (sv s)))
     \<or> Remove_job i \<in> set (runnables (loops s (mainLooper (sv s))))"

text \<open>After a reference is gone, the last one takes the connection with it.\<close>

definition settle :: "nat \<Rightarrow> life \<Rightarrow> life res" where
  "settle i s = (if alive i s then Inr s
     else bind_res (on_conn tcp_destroy i (sv s)) (\<lambda>v. Inr (s\<lparr>sv := v\<rparr>)))"

text \<open>A member function called on a bare pointer.\<close>

definition on_object :: "(connection \<Rightarrow> connection res) \<Rightarrow> nat \<Rightarrow> life \<Rightarrow> life res" where
  "on_object f i s = (if alive i s then bind_res (on_conn f i (sv s)) (\<lambda>v. Inr (s\<lparr>sv := v\<rparr>))
     else Inl UseAfterFree)"

section \<open>Runnables\<close>

text \<open>The results of the writes a send makes are given.\<close>

fun run_job :: "epoll_ctl \<Rightarrow> (write_result \<times> int) list \<Rightarrow> job \<Rightarrow> life \<Rightarrow> life res" where
  "run_job ctl ws (Send_job i b) s = on_object (tcp_send ctl ws b) i s"
| "run_job ctl ws (SendMultiple_job i bs) s = on_object (tcp_sendMultiple ctl ws bs) i s"
| "run_job ctl ws (Remove_job i) s =
     bind_res (removeConnInLoop ctl i (sv s)) (\<lambda>v. Inr (s\<lparr>sv := v\<rparr>))"

text \<open>Thread \<open>tid\<close> posts to loop \<open>l\<close>: the loop's own thread runs the runnable at once.\<close>

definition post_job ::
  "epoll_ctl \<Rightarrow> (write_result \<times> int) list \<Rightarrow> nat \<Rightarrow> nat \<Rightarrow> job \<Rightarrow> life \<Rightarrow> life res" where
  "post_job ctl ws tid l j s = (case postRunnable tid j (loops s l) of
       (q, None) \<Rightarrow> Inr (s\<lparr>loops := (loops s)(l := q)\<rparr>)
     | (_, Some j') \<Rightarrow> run_job ctl ws j' s)"

definition conn_send :: "epoll_ctl \<Rightarrow> (write_result \<times> int) list \<Rightarrow> nat \<Rightarrow> nat \<Rightarrow> nat \<Rightarrow> life \<Rightarrow> life res" where
  "conn_send ctl ws tid i b s = post_job ctl ws tid (conn_looper (sv s) i) (Send_job i b) s"

definition conn_sendMultiple ::
  "epoll_ctl \<Rightarrow> (write_result \<times> int) list \<Rightarrow> nat \<Rightarrow> nat \<Rightarrow> nat list \<Rightarrow> life \<Rightarrow> life res" where
  "conn_sendMultiple ctl ws tid i bs s =
     post_job ctl ws tid (conn_looper (sv s) i) (SendMultiple_job i bs) s"

text \<open>The reference bound into the runnable goes with the runnable, at the end of the call when
  it was run at once.\<close>

definition removeConnection :: "epoll_ctl \<Rightarrow> nat \<Rightarrow> nat \<Rightarrow> life \<Rightarrow> life res" where
  "removeConnection ctl tid i s =
     bind_res (post_job ctl [] tid (mainLooper (sv s)) (Remove_job i) (s\<lparr>asked := insert i (asked s)\<rparr>))
       (settle i)"

text \<open>\<open>executeRunnables\<close>, in its three parts: the swap, one runnable, and the end of the vector.\<close>

definition swap_batch :: "nat \<Rightarrow> life \<Rightarrow> life" where
  "swap_batch l s = (case swap_runnables (loops s l) of
     (rs, q) \<Rightarrow> s\<lparr>loops := (loops s)(l := q), batch := (batch s)(l := rs), batch_idx := (batch_idx s)(l := 0)\<rparr>)"

definition run_next :: "epoll_ctl \<Rightarrow> (write_result \<times> int) list \<Rightarrow> nat \<Rightarrow> life \<Rightarrow> life res" where
  "run_next ctl ws l s =
     run_job ctl ws (batch s l ! batch_idx s l) (s\<lparr>batch_idx := (batch_idx s)(l := batch_idx s l + 1)\<rparr>)"

fun job_refs :: "job list \<Rightarrow> nat list" where
  "job_refs [] = []"
| "job_refs (Remove_job i # js) = i # job_refs js"
| "job_refs (_ # js) = job_refs js"

fun settle_all :: "nat list \<Rightarrow> life \<Rightarrow> life res" where
  "settle_all [] s = Inr s"
| "settle_all (i # is) s = bind_res (settle i s) (settle_all is)"

definition end_batch :: "nat \<Rightarrow> life \<Rightarrow> life res" where
  "end_batch l s = settle_all (remdups (job_refs (batch s l)))
     (s\<lparr>batch := (batch s)(l := []), batch_idx := (batch_idx s)(l := 0)\<rparr>)"

section \<open>Events\<close>

text \<open>
  The handlers get a reference of their own (\<open>shared_from_this\<close>), which ends with the call. The
  close handler is the last thing both \<open>handleRead\<close> and \<open>sendInternal\<close> do; it has run when there
  is one more notice of the end.
\<close>

fun is_closing :: "notice \<Rightarrow> bool" where
  "is_closing (Closed e) = True"
| "is_closing (Message bs) = False"

definition closings :: "connection \<Rightarrow> nat" where
  "closings c = length (filter is_closing (notices c))"

definition with_handlers ::
  "epoll_ctl \<Rightarrow> nat \<Rightarrow> (connection \<Rightarrow> connection res) \<Rightarrow> nat \<Rightarrow> life \<Rightarrow> life res" where
  "with_handlers ctl tid f i s = bind_res (on_object f i s) (\<lambda>s'.
     if removes_on_close s' \<and> closings (conn (sv s) i) < closings (conn (sv s') i)
     then bind_res (removeConnection ctl tid i (s'\<lparr>held := i # held s'\<rparr>))
       (\<lambda>s''. settle i (s''\<lparr>held := remove1 i (held s'')\<rparr>))
     else Inr s')"

text \<open>\<open>std::bind\<close> in the constructor binds \<open>this\<close>: the callbacks in the channel with the
  connection they belong to.\<close>

definition bound_channel :: "nat \<Rightarrow> tcp_callback channel \<Rightarrow> (nat \<times> tcp_callback) channel" where
  "bound_channel i ch = \<lparr>ch_fd = ch_fd ch, ch_events = ch_events ch,
     readEventHandler = map_callback (Pair i) (readEventHandler ch),
     writeEventHandler = map_callback (Pair i) (writeEventHandler ch),
     errorHandler = map_callback (Pair i) (errorHandler ch),
     closedHandler = map_callback (Pair i) (closedHandler ch), attached = attached ch\<rparr>"

definition channel_at :: "life \<Rightarrow> nat \<Rightarrow> (nat \<times> tcp_callback) channel option" where
  "channel_at s i = (if alive i s then Some (bound_channel i (tcp_channel (conn (sv s) i))) else None)"

definition run_bound ::
  "epoll_ctl \<Rightarrow> read_result list \<Rightarrow> (write_result \<times> int) list \<Rightarrow> int \<Rightarrow> nat \<times> tcp_callback \<Rightarrow> life \<Rightarrow> life res"
where
  "run_bound ctl rs ws errno = (\<lambda>(i, cb) s.
     with_handlers ctl (threadId (loops s (conn_looper (sv s) i))) (run_tcp ctl rs ws errno cb) i s)"

definition conn_event ::
  "epoll_ctl \<Rightarrow> read_result list \<Rightarrow> (write_result \<times> int) list \<Rightarrow> int \<Rightarrow> u32 \<Rightarrow> nat \<Rightarrow> life \<Rightarrow> life res"
where
  "conn_event ctl rs ws errno ev i s = dispatch_event channel_at (run_bound ctl rs ws errno) (ev, i) s"

section \<open>Steps\<close>

text \<open>
  The server starts or stops accepting; a connection is accepted; user code copies or drops a reference, sends or removes, in thread
  \<open>tid\<close>; a loop swaps out its runnables, runs one, destroys the vector or handles an event of a
  connection.
\<close>

datatype life_op = Start_work | Stop_work | Accept int sockaddr_in | Take nat | Drop nat
  | Call_send nat nat nat "(write_result \<times> int) list"
  | Call_sendMultiple nat nat "nat list" "(write_result \<times> int) list"
  | Call_remove nat nat
  | Swap_out nat | Run_next nat "(write_result \<times> int) list" | End_batch nat
  | Event nat u32 "read_result list" "(write_result \<times> int) list" int

fun life_step :: "epoll_ctl \<Rightarrow> life_op \<Rightarrow> life \<Rightarrow> life res" where
  "life_step ctl Start_work s = bind_res (startWork ctl (sv s)) (\<lambda>v. Inr (s\<lparr>sv := v\<rparr>))"
| "life_step ctl Stop_work s = bind_res (stopWork ctl (sv s)) (\<lambda>v. Inr (s\<lparr>sv := v\<rparr>))"
| "life_step ctl (Accept fd addr) s =
     bind_res (server_handleRead ctl fd addr (sv s)) (\<lambda>v. Inr (s\<lparr>sv := v\<rparr>))"
| "life_step ctl (Take i) s = Inr (s\<lparr>held := i # held s\<rparr>)"
| "life_step ctl (Drop i) s = settle i (s\<lparr>held := remove1 i (held s)\<rparr>)"
| "life_step ctl (Call_send tid i b ws) s = conn_send ctl ws tid i b s"
| "life_step ctl (Call_sendMultiple tid i bs ws) s = conn_sendMultiple ctl ws tid i bs s"
| "life_step ctl (Call_remove tid i) s = removeConnection ctl tid i s"
| "life_step ctl (Swap_out l) s = Inr (swap_batch l s)"
| "life_step ctl (Run_next l ws) s = run_next ctl ws l s"
| "life_step ctl (End_batch l) s = end_batch l s"
| "life_step ctl (Event i ev rs ws errno) s = conn_event ctl rs ws errno ev i s"

text \<open>
  When a step can happen: a reference is copied from another one, dropped by who has it; a call
  is made through a reference; a loop swaps when the last vector is done with; epoll reports
  attached channels.
\<close>

fun can_happen :: "life_op \<Rightarrow> life \<Rightarrow> bool" where
  "can_happen Start_work s = True"
| "can_happen Stop_work s = True"
| "can_happen (Accept fd addr) s = (listening (sv s) \<and> (fd \<ge> 0 \<longrightarrow> fresh_fd fd (sv s)))"
| "can_happen (Take i) s = (i \<in> set (connSet (sv s)) \<or> i \<in> set (held s))"
| "can_happen (Drop i) s = (i \<in> set (held s))"
| "can_happen (Call_send tid i b ws) s = (i \<in> set (held s))"
| "can_happen (Call_sendMultiple tid i bs ws) s = (i \<in> set (held s))"
| "can_happen (Call_remove tid i) s = (i \<in> set (held s))"
| "can_happen (Swap_out l) s = (batch s l = [])"
| "can_happen (Run_next l ws) s = (batch_idx s l < length (batch s l))"
| "can_happen (End_batch l) s = (batch_idx s l = length (batch s l))"
| "can_happen (Event i ev rs ws errno) s = (i < length (conns (sv s)) \<and> conn_attached (sv s) i)"

text \<open>
  A discipline for the users of the library: whoever removes a connection does so from another
  thread than the main loop's, and nobody sends on it afterwards.
\<close>

fun in_order :: "life_op \<Rightarrow> life \<Rightarrow> bool" where
  "in_order (Call_send tid i b ws) s = (i \<notin> asked s)"
| "in_order (Call_sendMultiple tid i bs ws) s = (i \<notin> asked s)"
| "in_order (Call_remove tid i) s = (tid \<noteq> threadId (loops s (mainLooper (sv s))))"
| "in_order _ s = True"

inductive life_reaches :: "epoll_ctl \<Rightarrow> life \<Rightarrow> life \<Rightarrow> bool" for ctl s0 where
  life_start: "life_reaches ctl s0 s0"
| life_next: "life_reaches ctl s0 s \<Longrightarrow> can_happen oper s \<Longrightarrow> in_order oper s \<Longrightarrow>
    life_step ctl oper s = Inr s' \<Longrightarrow> life_reaches ctl s0 s'"

section \<open>What the operations of a connection leave alone\<close>

text \<open>A computation that does not use a destroyed object, and whose result satisfies \<open>Q\<close>.\<close>

definition yields :: "('a \<Rightarrow> bool) \<Rightarrow> 'a res \<Rightarrow> bool" where
  "yields Q r = (case r of Inl e \<Rightarrow> e \<noteq> UseAfterFree | Inr x \<Rightarrow> Q x)"

lemma yields_simps [simp]:
  "yields Q (Inr x) = Q x" "yields Q (Inl e) \<longleftrightarrow> e \<noteq> UseAfterFree"
  "yields Q (assert_then b r) \<longleftrightarrow> (b \<longrightarrow> yields Q r)"
  by (cases b; simp add: yields_def)+

lemma yields_bind: "yields P r \<Longrightarrow> (\<And>x. P x \<Longrightarrow> yields Q (f x)) \<Longrightarrow> yields Q (bind_res r f)"
  by (cases r) (auto simp: yields_def)

lemma yields_mono: "yields P r \<Longrightarrow> (\<And>x. P x \<Longrightarrow> Q x) \<Longrightarrow> yields Q r"
  by (auto simp: yields_def split: sum.splits)

abbreviation harmless :: "'a res \<Rightarrow> bool" where
  "harmless r \<equiv> yields (\<lambda>_. True) r"

lemma harmless_bind: "harmless r \<Longrightarrow> (\<And>x. r = Inr x \<Longrightarrow> yields Q (f x)) \<Longrightarrow> yields Q (bind_res r f)"
  by (cases r) (auto simp: yields_def)

lemma harmlessI: "yields P r \<Longrightarrow> harmless r"
  by (erule yields_mono) simp

text \<open>The message handler is user code on the buffer, which does not know the connection.\<close>

definition quiet :: "message_handler option \<Rightarrow> bool" where
  "quiet mh \<longleftrightarrow> (\<forall>h m p. mh = Some h \<longrightarrow> harmless (h m p))"

text \<open>An operation of a connection does not attach it and keeps its message handler.\<close>

definition tame :: "connection \<Rightarrow> connection \<Rightarrow> bool" where
  "tame c c' \<longleftrightarrow> newMessageHandler c' = newMessageHandler c
     \<and> (attached (tcp_channel c') \<longrightarrow> attached (tcp_channel c))"

lemma tame_refl [simp]: "tame c c"
  by (simp add: tame_def)

lemma tame_buffers [simp]: "tame c (d\<lparr>store := m, sndBufList := bs\<rparr>) = tame c d"
  by (simp add: tame_def)

lemma tame_trans: "tame c d \<Longrightarrow> tame d e \<Longrightarrow> tame c e"
  by (simp add: tame_def)

lemma yields_tame_trans: "tame c d \<Longrightarrow> yields (tame d) r \<Longrightarrow> yields (tame c) r"
  by (erule yields_mono) (rule tame_trans)

lemma harmless_buffers [simp]:
  "harmless (markRead m p sz)" "harmless (markWrite m p sz)" "harmless (mem_write m a pos bs)"
  "harmless (new_VecBuffer m sz)" "harmless (enlarge m p sz)"
  by (simp_all add: markRead_def markWrite_def mem_write_def new_VecBuffer_def enlarge_def resize_vec_def)

lemma harmless_take_in: "harmless (take_in m p bs)"
  by (auto simp: take_in_def Let_def intro!: yields_bind [where P = "\<lambda>_. True"])

lemma harmless_markSended: "harmless (markSended m bs n)"
  by (induction m bs n rule: markSended.induct)
    (auto simp: Let_def split: list.splits intro!: yields_bind [where P = "\<lambda>_. True"])

lemma updateChannel_harmless: "harmless (updateChannel ctl oper ch k)"
  by (simp add: updateChannel_def Let_def split: prod.splits)

lemma tcp_detach_tame: "yields (tame c) (tcp_detach ctl c)"
  by (auto simp: tcp_detach_def detach_def detachChannel_def tame_def
      intro!: yields_bind [where P = "\<lambda>(ch, k). \<not> attached ch"]
        yields_bind [OF updateChannel_harmless])

lemma sock_close_tame [simp]: "tame c (sock_close d) = tame c d"
  by (simp add: tame_def sock_close_def)

lemma tcp_handleClose_tame [simp]: "tame c (tcp_handleClose e d) = tame c d"
  by (simp add: tame_def tcp_handleClose_def)

lemma close_by_tame: "yields (tame c) (close_by ctl e c)"
  unfolding close_by_def by (rule yields_bind [OF tcp_detach_tame]) simp

lemma tcp_destroy_tame: "yields (tame c) (tcp_destroy c)"
  by (simp add: tcp_destroy_def)

lemma refresh_tame: "yields (tame c) (refresh_rcvBuf c)"
  by (auto simp: refresh_rcvBuf_def tame_def intro!: yields_bind [where P = "\<lambda>_. True"])

lemma deliver_tame: "quiet (newMessageHandler c) \<Longrightarrow> yields (tame c) (TcpConnection.deliver c)"
  by (auto simp: TcpConnection.deliver_def tame_def quiet_def split: option.splits
      intro!: yields_bind [where P = "\<lambda>_. True"])

lemma tcp_handleRead_tame: "quiet (newMessageHandler c) \<Longrightarrow> yields (tame c) (tcp_handleRead ctl rs c)"
proof (induction ctl rs c rule: tcp_handleRead.induct)
  case (2 ctl r rs c)
  have read: "yields (tame c1) (case r of
      Got bs \<Rightarrow> bind_res (take_in (store c1) (rcvBuf c1) bs) (\<lambda>m.
        bind_res (TcpConnection.deliver (c1\<lparr>store := m\<rparr>)) (\<lambda>c'.
          if length bs < writtableSize (store c1) (rcvBuf c1) + pendingSize then Inr c'
          else tcp_handleRead ctl rs c'))
    | Read_error e \<Rightarrow> if e \<noteq> EAGAIN \<and> e \<noteq> EINTR then close_by ctl e c1 else Inr c1
    | Eof \<Rightarrow> close_by ctl 0 c1)"
    if c1: "refresh_rcvBuf c = Inr c1" "tame c c1" for c1
  proof (cases r)
    case (Got bs)
    have q: "quiet (newMessageHandler c1)" using "2.prems" c1(2) by (simp add: tame_def)
    have "yields (tame c1) (if length bs < writtableSize (store c1) (rcvBuf c1) + pendingSize then Inr c2
        else tcp_handleRead ctl rs c2)"
      if m: "take_in (store c1) (rcvBuf c1) bs = Inr m"
        "TcpConnection.deliver (c1\<lparr>store := m\<rparr>) = Inr c2" for m c2
    proof -
      have t: "tame c1 c2" using deliver_tame [of "c1\<lparr>store := m\<rparr>"] q m(2) by (simp add: tame_def)
      then have "quiet (newMessageHandler c2)" using q by (simp add: tame_def)
      with "2.IH" [OF c1(1) refl Got m] t show ?thesis by (auto intro: yields_tame_trans)
    qed
    moreover have "harmless (TcpConnection.deliver (c1\<lparr>store := m\<rparr>))" for m
      using q by (intro harmlessI [OF deliver_tame]) simp
    ultimately show ?thesis
      using Got by (simp del: if_split) (intro harmless_bind harmless_take_in)
  qed (simp_all add: close_by_tame)
  with refresh_tame [of c] show ?case
    by (cases "refresh_rcvBuf c") (auto simp: Let_def intro: yields_tame_trans)
qed simp

lemma sendInternal_tame: "yields (tame c) (sendInternal ctl ws c)"
proof (induction ctl ws c rule: sendInternal.induct)
  case (2 ctl r errno rs c)
  have one: "yields (tame c) (bind_res (enableWrite_oneShot ctl True True (tcp_channel c, epoll c))
      (\<lambda>(ch, k). Inr (c\<lparr>tcp_channel := ch, epoll := k\<rparr>)))"
    by (auto simp: enableWrite_oneShot_def apply_channel_def tame_def Let_def
        intro!: yields_bind [where P = "\<lambda>(ch, k). attached ch = attached (tcp_channel c)"]
          yields_bind [OF updateChannel_harmless])
  have "yields (tame c) (bind_res (markSended (store c) (sndBufList c) (as_size_t r))
      (\<lambda>(m, bs). sendInternal ctl rs (c\<lparr>store := m, sndBufList := bs\<rparr>)))"
    if "sndBufList c \<noteq> []" "as_size_t r > 0"
    using "2.IH" [OF that _ refl]
    by (intro harmless_bind harmless_markSended) (auto intro: yields_tame_trans [rotated])
  with one show ?case by simp
qed simp

lemma tcp_send_tame: "yields (tame c) (tcp_send ctl ws b c)"
  unfolding tcp_send_def
  by (rule yields_tame_trans [OF _ sendInternal_tame]) (simp add: tame_def)

lemma tcp_sendMultiple_tame: "yields (tame c) (tcp_sendMultiple ctl ws bs c)"
  unfolding tcp_sendMultiple_def
  by (rule yields_tame_trans [OF _ sendInternal_tame]) (simp add: tame_def)

lemma run_tcp_tame: "quiet (newMessageHandler c) \<Longrightarrow> yields (tame c) (run_tcp ctl rs ws errno cb c)"
  by (simp add: run_tcp_def tcp_handleWrite_def tcp_handleRead_tame sendInternal_tame split: tcp_callback.split)

lemma attach_on_connect_harmless:
  "yields (\<lambda>c'. newMessageHandler c' = mh) (attach_on_connect ctl mh cl c)"
  by (auto simp: attach_on_connect_def tcp_attach_def attach_def attachChannel_def
      setTcpCloseHandler_def setNewMessageHandler_def
      intro!: yields_bind [where P = "\<lambda>_. True"] yields_bind [OF updateChannel_harmless])

lemma new_TcpConnection_harmless:
  "yields (\<lambda>c. newMessageHandler c = None \<and> \<not> attached (tcp_channel c)) (new_TcpConnection ctl k m fd addr)"
  by (auto simp: new_TcpConnection_def Let_def channel_eval
      intro!: harmless_bind)

section \<open>The invariant\<close>

text \<open>
  A send is run before any removal of its connection, and starting from the connections in the set
  \<open>A\<close> each finds its connection there.
\<close>

fun safe_order :: "nat set \<Rightarrow> job list \<Rightarrow> bool" where
  "safe_order A [] = True"
| "safe_order A (Send_job i b # js) = (i \<in> A \<and> safe_order A js)"
| "safe_order A (SendMultiple_job i bs # js) = (i \<in> A \<and> safe_order A js)"
| "safe_order A (Remove_job i # js) = safe_order (A - {i}) js"

lemma safe_order_append:
  "safe_order A (js @ ks) \<longleftrightarrow> safe_order A js \<and> safe_order (A - {i. Remove_job i \<in> set js}) ks"
  by (induction A js rule: safe_order.induct) (auto simp: Diff_insert2 [symmetric] set_diff_eq
      intro: arg_cong2 [where f = safe_order])

lemma safe_order_mono: "safe_order A js \<Longrightarrow> A \<subseteq> B \<Longrightarrow> safe_order B js"
  by (induction A js arbitrary: B rule: safe_order.induct) (auto dest: Diff_mono)

text \<open>The runnables of the main loop that are still to run.\<close>

definition pending :: "life \<Rightarrow> job list" where
  "pending s = (let l = mainLooper (sv s) in drop (batch_idx s l) (batch s l) @ runnables (loops s l))"

definition quiet_handler :: "epoll_ctl \<Rightarrow> (connection \<Rightarrow> connection res) option \<Rightarrow> bool" where
  "quiet_handler ctl h \<longleftrightarrow> h = None \<or> (\<exists>mh cl. h = Some (attach_on_connect ctl mh cl) \<and> quiet mh)"

definition sv_inv :: "epoll_ctl \<Rightarrow> server \<Rightarrow> bool" where
  "sv_inv ctl v \<longleftrightarrow> loopers (loopPool v) = [mainLooper v] \<and> lastLooperIdx (loopPool v) = 0
     \<and> quiet_handler ctl (newConnHandler v) \<and> set (connSet v) \<subseteq> {..<length (conns v)}
     \<and> (\<forall>i < length (conns v). conn_looper v i = mainLooper v \<and> quiet (newMessageHandler (conn v i))
          \<and> (conn_attached v i \<longrightarrow> i \<in> set (connSet v)))"

definition life_inv :: "epoll_ctl \<Rightarrow> life \<Rightarrow> bool" where
  "life_inv ctl s \<longleftrightarrow> sv_inv ctl (sv s) \<and> \<not> removes_on_close s
     \<and> set (held s) \<subseteq> {..<length (conns (sv s))}
     \<and> {..<length (conns (sv s))} \<subseteq> set (connSet (sv s)) \<union> asked s
     \<and> (\<forall>i. Remove_job i \<in> set (batch s (mainLooper (sv s))) \<union> set (runnables (loops s (mainLooper (sv s))))
          \<longrightarrow> i \<in> asked s \<and> i < length (conns (sv s)))
     \<and> safe_order (set (connSet (sv s))) (pending s)
     \<and> (\<forall>l. l \<noteq> mainLooper (sv s) \<longrightarrow> batch s l = [] \<and> runnables (loops s l) = [])"

lemma life_invD:
  assumes "life_inv ctl s"
  shows "sv_inv ctl (sv s)" and "\<not> removes_on_close s" and "set (held s) \<subseteq> {..<length (conns (sv s))}"
    and "{..<length (conns (sv s))} \<subseteq> set (connSet (sv s)) \<union> asked s"
    and "Remove_job i \<in> set (batch s (mainLooper (sv s))) \<Longrightarrow> i \<in> asked s \<and> i < length (conns (sv s))"
    and "Remove_job i \<in> set (runnables (loops s (mainLooper (sv s)))) \<Longrightarrow> i \<in> asked s \<and> i < length (conns (sv s))"
    and "safe_order (set (connSet (sv s))) (pending s)"
    and "l \<noteq> mainLooper (sv s) \<Longrightarrow> batch s l = [] \<and> runnables (loops s l) = []"
    and "set (connSet (sv s)) \<subseteq> {..<length (conns (sv s))}"
  using assms by (auto simp: life_inv_def sv_inv_def)

text \<open>Whoever has a reference in the set of the server or a hand of a user is in range.\<close>

lemma alive_in_set: "i \<in> set (connSet (sv s)) \<Longrightarrow> alive i s"
  by (simp add: alive_def)

section \<open>Every step keeps the invariant\<close>

text \<open>A server that differs in its connections only, none of which is attached newly.\<close>

definition same_set :: "server \<Rightarrow> server \<Rightarrow> bool" where
  "same_set v v' \<longleftrightarrow> connSet v' = connSet v \<and> mainLooper v' = mainLooper v
     \<and> length (conns v') = length (conns v)"

lemma on_conn_inv:
  assumes "sv_inv ctl v" and "i < length (conns v)"
    and "\<And>c. quiet (newMessageHandler c) \<Longrightarrow> yields (tame c) (f c)"
  shows "yields (\<lambda>v'. sv_inv ctl v' \<and> same_set v v' \<and> (conn_attached v' i \<longrightarrow> conn_attached v i)) (on_conn f i v)"
proof -
  let ?c = "(conn v i)\<lparr>epoll := epolls v (conn_looper v i)\<rparr>"
  have "quiet (newMessageHandler ?c)" using assms(1,2) by (simp add: sv_inv_def)
  then have "yields (tame ?c) (f ?c)" by (rule assms(3))
  moreover have "sv_inv ctl (with_conn i d v) \<and> same_set v (with_conn i d v)
      \<and> (conn_attached (with_conn i d v) i \<longrightarrow> conn_attached v i)" if "tame ?c d" for d
    using that assms(1,2) by (auto simp: sv_inv_def same_set_def tame_def nth_list_update)
  ultimately show ?thesis unfolding on_conn_eq by (auto intro: yields_bind)
qed

lemma life_inv_server:
  "life_inv ctl s \<Longrightarrow> sv_inv ctl v \<Longrightarrow> same_set (sv s) v \<Longrightarrow> life_inv ctl (s\<lparr>sv := v\<rparr>)"
  by (simp add: life_inv_def same_set_def pending_def)

lemma on_object_inv:
  assumes "life_inv ctl s" and "i \<in> set (connSet (sv s))"
    and "\<And>c. quiet (newMessageHandler c) \<Longrightarrow> yields (tame c) (f c)"
  shows "yields (\<lambda>s'. life_inv ctl s' \<and> connSet (sv s') = connSet (sv s)) (on_object f i s)"
proof -
  have "i < length (conns (sv s))" using life_invD(9) [OF assms(1)] assms(2) by auto
  from on_conn_inv [OF life_invD(1) [OF assms(1)] this assms(3)] show ?thesis
    using assms(1,2) by (auto simp: on_object_def alive_in_set same_set_def intro!: yields_bind
        life_inv_server elim: yields_bind)
qed

lemma settle_inv:
  assumes "life_inv ctl s" and "i < length (conns (sv s))"
  shows "yields (life_inv ctl) (settle i s)"
  using on_conn_inv [OF life_invD(1) [OF assms(1)] assms(2), of tcp_destroy] assms(1) tcp_destroy_tame
  by (auto simp: settle_def intro!: life_inv_server elim!: yields_bind)

lemma settle_same: "settle i s = Inr s' \<Longrightarrow> length (conns (sv s')) = length (conns (sv s))"
  by (auto simp: settle_def on_conn_eq split: if_splits)

lemma settle_all_inv:
  "life_inv ctl s \<Longrightarrow> \<forall>i \<in> set js. i < length (conns (sv s)) \<Longrightarrow> yields (life_inv ctl) (settle_all js s)"
proof (induction js arbitrary: s)
  case (Cons i js)
  have "yields (life_inv ctl) (settle_all js s')" if "settle i s = Inr s'" for s'
  proof (rule Cons.IH)
    show "life_inv ctl s'" using settle_inv [OF Cons.prems(1), of i] Cons.prems(2) that by simp
    show "\<forall>i \<in> set js. i < length (conns (sv s'))" using settle_same [OF that] Cons.prems(2) by simp
  qed
  then show ?case using settle_inv [OF Cons.prems(1), of i] Cons.prems(2)
    by (simp add: harmless_bind harmlessI)
qed simp

text \<open>A removal takes the connection out of the set and off its loop.\<close>

lemma remove_job_inv:
  assumes "life_inv ctl s" and "i < length (conns (sv s))" and "i \<in> asked s"
    and "safe_order (set (connSet (sv s)) - {i}) (pending s)"
  shows "yields (life_inv ctl) (run_job ctl ws (Remove_job i) s)"
proof -
  have detached: "yields (\<lambda>c'. tame c c' \<and> \<not> attached (tcp_channel c')) (tcp_detach ctl c)" for c
    by (auto simp: tcp_detach_def detach_def detachChannel_def tame_def
        intro!: yields_bind [where P = "\<lambda>(ch, k). \<not> attached ch"] yields_bind [OF updateChannel_harmless])
  let ?v = "sv s"
  let ?c = "(conn ?v i)\<lparr>epoll := epolls ?v (conn_looper ?v i)\<rparr>"
  have inv: "life_inv ctl (s\<lparr>sv := (with_conn i d ?v)\<lparr>connSet := removeAll i (connSet ?v)\<rparr>\<rparr>)"
    if d: "tame ?c d" "\<not> attached (tcp_channel d)" for d
  proof -
    let ?u = "(with_conn i d ?v)\<lparr>connSet := removeAll i (connSet ?v)\<rparr>"
    have "sv_inv ctl ?u" using life_invD(1) [OF assms(1)] d assms(2)
      by (auto simp: sv_inv_def tame_def nth_list_update)
    moreover have "safe_order (set (connSet ?v) - {i}) (pending (s\<lparr>sv := ?u\<rparr>))"
      using assms(4) by (simp add: pending_def)
    ultimately show ?thesis using assms(1,3) by (auto simp: life_inv_def)
  qed
  have "yields (\<lambda>v. life_inv ctl (s\<lparr>sv := v\<rparr>)) (removeConnInLoop ctl i ?v)"
    unfolding removeConnInLoop_def on_conn_eq bind_res_assoc
    by (rule yields_bind [OF detached [of ?c]]) (simp add: inv)
  then show ?thesis by (auto intro: yields_bind)
qed

text \<open>One runnable, whose turn it is.\<close>

lemma run_job_inv:
  assumes "life_inv ctl s" and "safe_order (set (connSet (sv s))) (j # pending s)"
    and "\<And>i. j = Remove_job i \<Longrightarrow> i \<in> asked s \<and> i < length (conns (sv s))"
  shows "yields (life_inv ctl) (run_job ctl ws j s)"
proof (cases j)
  case (Send_job i b)
  with assms(1,2) tcp_send_tame show ?thesis by (auto intro!: yields_mono [OF on_object_inv])
next
  case (SendMultiple_job i bs)
  with assms(1,2) tcp_sendMultiple_tame show ?thesis by (auto intro!: yields_mono [OF on_object_inv])
next
  case (Remove_job i)
  with assms remove_job_inv [OF assms(1), of i ws] show ?thesis by auto
qed

lemma drop_next: "n < length js \<Longrightarrow> drop n js = js ! n # drop (Suc n) js"
  by (simp add: Cons_nth_drop_Suc)

lemma run_next_inv:
  assumes "life_inv ctl s" and "batch_idx s l < length (batch s l)"
  shows "yields (life_inv ctl) (run_next ctl ws l s)"
proof -
  have l: "l = mainLooper (sv s)" using life_invD(8) [OF assms(1), of l] assms(2) by (cases "l = mainLooper (sv s)") simp_all
  let ?j = "batch s l ! batch_idx s l" and ?s = "s\<lparr>batch_idx := (batch_idx s)(l := batch_idx s l + 1)\<rparr>"
  have p: "pending s = ?j # pending ?s" using drop_next [OF assms(2)] l by (simp add: pending_def Let_def)
  have o: "safe_order (set (connSet (sv s))) (?j # pending ?s)" using life_invD(7) [OF assms(1)] p by simp
  have "safe_order (set (connSet (sv s))) (pending ?s)"
    using o by (cases ?j) (auto intro: safe_order_mono)
  then have "life_inv ctl ?s" using assms(1) by (simp add: life_inv_def)
  moreover have "?j \<in> set (batch s (mainLooper (sv s)))" using assms(2) l by auto
  ultimately show ?thesis unfolding run_next_def
    by (rule_tac run_job_inv) (use o life_invD(5) [OF assms(1)] in auto)
qed

text \<open>Posting: from the loop's own thread the runnable runs at once, from another it is queued.\<close>

lemma post_job_inv:
  assumes "life_inv ctl s" and "\<And>i. j = Remove_job i \<Longrightarrow> tid \<noteq> threadId (loops s (mainLooper (sv s)))
      \<and> i \<in> asked s \<and> i < length (conns (sv s))"
    and "\<And>i. (\<exists>b. j = Send_job i b) \<or> (\<exists>bs. j = SendMultiple_job i bs) \<Longrightarrow> i \<in> set (connSet (sv s)) \<and> i \<notin> asked s"
  shows "yields (life_inv ctl) (post_job ctl ws tid (mainLooper (sv s)) j s)"
proof (cases "tid = threadId (loops s (mainLooper (sv s)))")
  case True
  then obtain i where j: "(\<exists>b. j = Send_job i b) \<or> (\<exists>bs. j = SendMultiple_job i bs)"
    using assms(2) by (cases j) auto
  with assms(3) have "i \<in> set (connSet (sv s))" by blast
  with j True assms(1) tcp_send_tame tcp_sendMultiple_tame show ?thesis
    by (auto simp: post_job_def postRunnable_def intro!: yields_mono [OF on_object_inv])
next
  case False
  let ?m = "mainLooper (sv s)"
  let ?s = "s\<lparr>loops := (loops s)(?m := MultiplexLooper.wakeup (push_runnable j (loops s ?m)))\<rparr>"
  have r: "runnables (loops ?s ?m) = runnables (loops s ?m) @ [j]"
    by (simp add: push_runnable_def MultiplexLooper.wakeup_def)
  then have p: "pending ?s = pending s @ [j]" by (simp add: pending_def Let_def)
  have "i \<notin> {i. Remove_job i \<in> set (pending s)}" if "i \<notin> asked s" for i
    using that life_invD(5,6) [OF assms(1), of i] by (auto simp: pending_def Let_def dest: in_set_dropD)
  then have "safe_order (set (connSet (sv s))) (pending ?s)"
    using life_invD(7) [OF assms(1)] assms(3) unfolding p safe_order_append by (cases j) auto
  moreover have "\<forall>i. Remove_job i \<in> set (runnables (loops ?s ?m)) \<longrightarrow> i \<in> asked s \<and> i < length (conns (sv s))"
    unfolding r using life_invD(6) [OF assms(1)] assms(2) by auto
  ultimately have "life_inv ctl ?s" using assms(1) by (auto simp: life_inv_def)
  with False show ?thesis by (simp add: post_job_def postRunnable_def)
qed

lemma on_looper: "life_inv ctl s \<Longrightarrow> i < length (conns (sv s)) \<Longrightarrow> conn_looper (sv s) i = mainLooper (sv s)"
  using life_invD(1) by (simp add: sv_inv_def)

lemma kept_in_set: "life_inv ctl s \<Longrightarrow> i < length (conns (sv s)) \<Longrightarrow> i \<notin> asked s \<Longrightarrow> i \<in> set (connSet (sv s))"
  using life_invD(4) by blast

lemma send_inv:
  assumes "life_inv ctl s" and "i \<in> set (held s)" and "i \<notin> asked s"
  shows "yields (life_inv ctl) (conn_send ctl ws tid i b s)"
    and "yields (life_inv ctl) (conn_sendMultiple ctl ws tid i bs s)"
proof -
  have i: "i < length (conns (sv s))" using life_invD(3) [OF assms(1)] assms(2) by auto
  note l = on_looper [OF assms(1) i] and k = kept_in_set [OF assms(1) i assms(3)]
  show "yields (life_inv ctl) (conn_send ctl ws tid i b s)"
    unfolding conn_send_def l by (rule post_job_inv [OF assms(1)]) (use k assms(3) in auto)
  show "yields (life_inv ctl) (conn_sendMultiple ctl ws tid i bs s)"
    unfolding conn_sendMultiple_def l by (rule post_job_inv [OF assms(1)]) (use k assms(3) in auto)
qed

lemma post_queued: "tid \<noteq> threadId (loops s l) \<Longrightarrow> post_job ctl ws tid l j s
    = Inr (s\<lparr>loops := (loops s)(l := MultiplexLooper.wakeup (push_runnable j (loops s l)))\<rparr>)"
  by (simp add: post_job_def postRunnable_def)

lemma remove_inv:
  assumes "life_inv ctl s" and "i \<in> set (held s)" and t: "tid \<noteq> threadId (loops s (mainLooper (sv s)))"
  shows "yields (life_inv ctl) (removeConnection ctl tid i s)"
proof -
  let ?s = "s\<lparr>asked := insert i (asked s)\<rparr>" and ?m = "mainLooper (sv s)"
  have i: "i < length (conns (sv s))" using life_invD(3) [OF assms(1)] assms(2) by auto
  have p: "pending ?s = pending s" by (simp add: pending_def)
  have "life_inv ctl ?s" using assms(1) p by (auto simp: life_inv_def)
  then have "yields (life_inv ctl) (post_job ctl [] tid (mainLooper (sv ?s)) (Remove_job i) ?s)"
    by (rule post_job_inv) (use t i in auto)
  then show ?thesis using settle_inv [of ctl _ i] i t
    by (simp add: removeConnection_def post_queued)
qed

lemma swap_inv:
  assumes "life_inv ctl s" and "batch s l = []"
  shows "life_inv ctl (swap_batch l s)"
proof (cases "l = mainLooper (sv s)")
  case True
  have "pending (swap_batch l s) = pending s"
    using True assms(2) by (simp add: pending_def swap_batch_def swap_runnables_def Let_def)
  with assms True life_invD(5,6) [OF assms(1)] show ?thesis
    by (auto simp: life_inv_def swap_batch_def swap_runnables_def)
next
  case False
  then have "pending (swap_batch l s) = pending s"
    by (simp add: pending_def swap_batch_def swap_runnables_def Let_def)
  with assms False life_invD(8) [OF assms(1) False] show ?thesis
    by (auto simp: life_inv_def swap_batch_def swap_runnables_def)
qed

lemma job_refs_set: "i \<in> set (job_refs js) \<longleftrightarrow> Remove_job i \<in> set js"
  by (induction js rule: job_refs.induct) auto

lemma end_batch_inv:
  assumes "life_inv ctl s" and "batch_idx s l = length (batch s l)"
  shows "yields (life_inv ctl) (end_batch l s)"
proof -
  let ?s = "s\<lparr>batch := (batch s)(l := []), batch_idx := (batch_idx s)(l := 0)\<rparr>"
  have "pending ?s = pending s" using assms(2) by (simp add: pending_def Let_def)
  then have "life_inv ctl ?s" using assms(1) by (auto simp: life_inv_def)
  moreover have "\<forall>i \<in> set (job_refs (batch s l)). i < length (conns (sv s))"
    using life_invD(5,8) [OF assms(1)] by (cases "l = mainLooper (sv s)") (auto simp: job_refs_set)
  ultimately show ?thesis unfolding end_batch_def by (intro settle_all_inv) simp_all
qed

lemma dropped_inv:
  assumes "life_inv ctl s" and "i \<in> set (held s)"
  shows "life_inv ctl (s\<lparr>held := remove1 i (held s)\<rparr>)"
    and "i < length (conns (sv (s\<lparr>held := remove1 i (held s)\<rparr>)))"
proof -
  have "pending (s\<lparr>held := remove1 i (held s)\<rparr>) = pending s" by (simp add: pending_def)
  then show "life_inv ctl (s\<lparr>held := remove1 i (held s)\<rparr>)"
    using assms(1) set_remove1_subset [of i "held s"] by (auto simp: life_inv_def)
  show "i < length (conns (sv (s\<lparr>held := remove1 i (held s)\<rparr>)))"
    using life_invD(3) [OF assms(1)] assms(2) by auto
qed

lemma drop_inv:
  "life_inv ctl s \<Longrightarrow> i \<in> set (held s) \<Longrightarrow> yields (life_inv ctl) (settle i (s\<lparr>held := remove1 i (held s)\<rparr>))"
  by (intro settle_inv dropped_inv)

text \<open>An event: all its callbacks find the connection, as long as the close handler leaves it.\<close>

abbreviation in_set_inv :: "epoll_ctl \<Rightarrow> nat \<Rightarrow> life \<Rightarrow> bool" where
  "in_set_inv ctl i s \<equiv> life_inv ctl s \<and> i \<in> set (connSet (sv s))"

lemma run_bound_inv:
  assumes "in_set_inv ctl i s"
  shows "yields (in_set_inv ctl i) (run_bound ctl rs ws errno (i, cb) s)"
proof -
  let ?P = "\<lambda>s'. life_inv ctl s' \<and> connSet (sv s') = connSet (sv s)"
  have "yields ?P (on_object (run_tcp ctl rs ws errno cb) i s)"
    using assms run_tcp_tame by (intro on_object_inv) auto
  then show ?thesis using assms life_invD(2) unfolding run_bound_def with_handlers_def prod.case
    by (auto intro!: yields_bind [where P = ?P])
qed

lemma with_channel_inv:
  assumes "in_set_inv ctl i s"
    and "\<And>ch s. in_set_inv ctl i s \<Longrightarrow> yields (in_set_inv ctl i) (f (bound_channel i ch) s)"
  shows "yields (in_set_inv ctl i) (on_event b (with_channel channel_at i f) s)"
  using assms by (simp add: on_event_def with_channel_def channel_at_def alive_in_set)

lemma invoke_inv:
  "in_set_inv ctl i s \<Longrightarrow> yields (in_set_inv ctl i) (invoke (run_bound ctl rs ws errno) (map_callback (Pair i) cb) s)"
  by (cases cb) (simp_all add: invoke_def run_bound_inv)

lemma handlers_inv:
  assumes "in_set_inv ctl i s"
  shows "yields (in_set_inv ctl i) (handleRead (run_bound ctl rs ws errno) (bound_channel i ch) s)"
    and "yields (in_set_inv ctl i) (handleWrite (run_bound ctl rs ws errno) (bound_channel i ch) s)"
    and "yields (in_set_inv ctl i) (handleClosed (run_bound ctl rs ws errno) (bound_channel i ch) s)"
    and "yields (in_set_inv ctl i) (handleError (run_bound ctl rs ws errno) (bound_channel i ch) s)"
  using invoke_inv [OF assms] by (simp_all add: handleRead_def handleWrite_def handleClosed_def handleError_def bound_channel_def)

lemma event_inv:
  assumes "life_inv ctl s" and "i < length (conns (sv s))" and "conn_attached (sv s) i"
  shows "yields (life_inv ctl) (conn_event ctl rs ws errno ev i s)"
proof -
  have "in_set_inv ctl i s" using assms life_invD(1) [OF assms(1)] by (simp add: sv_inv_def)
  then have "yields (in_set_inv ctl i) (conn_event ctl rs ws errno ev i s)"
    unfolding conn_event_def dispatch_event_def prod.case
    by (intro yields_bind [where P = "in_set_inv ctl i"] with_channel_inv handlers_inv)
  then show ?thesis by (rule yields_mono) simp
qed

lemma accept_inv:
  assumes "life_inv ctl s"
  shows "yields (life_inv ctl) (life_step ctl (Accept fd addr) s)"
proof -
  let ?v = "sv s" and ?n = "length (conns (sv s))"
  have inv: "sv_inv ctl ?v" and q: "quiet_handler ctl (newConnHandler ?v)"
    using life_invD(1) [OF assms] by (auto simp: sv_inv_def)
  then have g: "getLooper (loopPool ?v) = Inr (loopPool ?v, mainLooper ?v)"
    by (cases "loopPool ?v") (auto simp: getLooper_def sv_inv_def)
  have keep: "life_inv ctl (s\<lparr>sv := v\<rparr>)"
    if "sv_inv ctl v" "connSet v = connSet ?v @ [?n]" "mainLooper v = mainLooper ?v" "length (conns v) = Suc ?n" for v
  proof -
    have "pending (s\<lparr>sv := v\<rparr>) = pending s" using that(3) by (simp add: pending_def)
    then show ?thesis using assms that safe_order_mono [OF life_invD(7) [OF assms], of "insert ?n (set (connSet ?v))"]
      by (auto simp: life_inv_def lessThan_Suc less_Suc_eq)
  qed
  have "yields (\<lambda>v. life_inv ctl (s\<lparr>sv := v\<rparr>)) (onNewConnection ctl fd addr ?v)"
    unfolding onNewConnection_def g bind_res.simps prod.case Let_def
  proof (rule yields_bind [OF new_TcpConnection_harmless])
    fix c :: connection
    assume c: "newMessageHandler c = None \<and> \<not> attached (tcp_channel c)"
    let ?u = "add_conn (loopPool ?v) (mainLooper ?v) c ?v"
    have u: "sv_inv ctl (?u\<lparr>conns := conns ?v @ [(mainLooper ?v, d)], epolls := e\<rparr>)"
      if "quiet (newMessageHandler d)" for d e
      using inv that by (auto simp: sv_inv_def nth_append less_Suc_eq)
    show "yields (\<lambda>v. life_inv ctl (s\<lparr>sv := v\<rparr>)) (case newConnHandler ?v of
        None \<Rightarrow> Inr ?u | Some h \<Rightarrow> on_conn h ?n ?u)"
    proof (cases "newConnHandler ?v")
      case None
      have "sv_inv ctl ?u" using inv c by (auto simp: sv_inv_def nth_append less_Suc_eq quiet_def)
      then have "life_inv ctl (s\<lparr>sv := ?u\<rparr>)" by (intro keep) simp_all
      with None show ?thesis by simp
    next
      case (Some h)
      with q obtain mh cl where h: "h = attach_on_connect ctl mh cl" "quiet mh" by (auto simp: quiet_handler_def)
      have "life_inv ctl (s\<lparr>sv := with_conn ?n d ?u\<rparr>)" if "newMessageHandler d = mh" for d
        using u [of d] that h(2) by (intro keep) simp_all
      then have "yields (\<lambda>v. life_inv ctl (s\<lparr>sv := v\<rparr>)) (on_conn h ?n ?u)"
        unfolding on_conn_eq h(1) by (intro yields_bind [OF attach_on_connect_harmless]) simp
      with Some show ?thesis by simp
    qed
  qed
  moreover have "life_inv ctl (s\<lparr>sv := ?v\<lparr>refused := x\<rparr>\<rparr>)" for x
    using assms by (intro life_inv_server) (simp_all add: sv_inv_def same_set_def life_inv_def)
  ultimately show ?thesis using assms
    by (auto simp: server_handleRead_def acc_handleRead_def intro: yields_bind)
qed

lemma at_main_inv:
  assumes "life_inv ctl s" and "\<And>x. harmless (f x)"
  shows "yields (\<lambda>v. life_inv ctl (s\<lparr>sv := v\<rparr>)) (at_main f (sv s))"
proof -
  have "life_inv ctl (s\<lparr>sv := (sv s)\<lparr>sv_acceptor := a, epolls := e\<rparr>\<rparr>)" for a e
    using assms(1) life_invD(1) [OF assms(1)] by (intro life_inv_server) (simp_all add: sv_inv_def same_set_def)
  with assms(2) show ?thesis by (auto simp: at_main_def intro!: harmless_bind)
qed

lemma work_inv:
  assumes "life_inv ctl s"
  shows "yields (life_inv ctl) (life_step ctl Start_work s)" and "yields (life_inv ctl) (life_step ctl Stop_work s)"
proof -
  let ?v = "(sv s)\<lparr>sv_acceptor := (sv_acceptor (sv s))\<lparr>onNewConn_set := True\<rparr>\<rparr>"
  have a: "harmless (acc_attach ctl x)" "harmless (acc_detach ctl x)" for x
    by (auto simp: acc_attach_def acc_detach_def attach_def detach_def attachChannel_def detachChannel_def
        split: prod.splits intro!: harmless_bind updateChannel_harmless)
  have "life_inv ctl (s\<lparr>sv := ?v\<rparr>)"
    using assms life_invD(1) [OF assms] by (intro life_inv_server) (simp_all add: sv_inv_def same_set_def)
  from at_main_inv [where f = "acc_attach ctl", OF this a(1)] show "yields (life_inv ctl) (life_step ctl Start_work s)"
    by (auto simp: startWork_def intro: yields_bind)
  from at_main_inv [where f = "acc_detach ctl", OF assms a(2)] show "yields (life_inv ctl) (life_step ctl Stop_work s)"
    by (auto simp: stopWork_def intro: yields_bind)
qed

lemma life_step_inv:
  assumes "life_inv ctl s" and "can_happen oper s" and "in_order oper s"
  shows "yields (life_inv ctl) (life_step ctl oper s)"
proof (cases oper)
  case (Take i)
  have "pending (s\<lparr>held := i # held s\<rparr>) = pending s" by (simp add: pending_def)
  then show ?thesis using Take assms life_invD(3,9) [OF assms(1)] by (auto simp: life_inv_def)
qed (use assms work_inv accept_inv drop_inv send_inv remove_inv swap_inv run_next_inv end_batch_inv event_inv
  in \<open>simp_all del: life_step.simps(1-3)\<close>)

lemma life_reaches_inv: "life_reaches ctl s0 s \<Longrightarrow> life_inv ctl s0 \<Longrightarrow> life_inv ctl s"
proof (induction rule: life_reaches.induct)
  case (life_next s oper s')
  with life_step_inv [of ctl s oper] show ?case by simp
qed

text \<open>A server just built, with nothing posted.\<close>

lemma new_life_inv:
  assumes "new_TcpServer ctl ks (new_LooperPool [l] att) fd call_bind listen_ret p = Inr v"
    and "quiet_handler ctl h"
  shows "life_inv ctl (new_life tids False (setConnectionHandler h v))"
  using assms by (auto simp: new_TcpServer_def new_LooperPool_def getLooper_def new_TcpAcceptor_def
      new_StreamSocket_def channel_eval setConnectionHandler_def life_inv_def sv_inv_def new_life_def
      pending_def new_looper_def split: if_splits)

text \<open>A connection that loses its last reference is detached: it is destroyed without failing.\<close>

lemma settle_total:
  assumes "life_inv ctl s" and "i < length (conns (sv s))"
  shows "\<exists>s'. settle i s = Inr s'"
proof (cases "alive i s")
  case False
  then have "\<not> conn_attached (sv s) i"
    using life_invD(1) [OF assms(1)] assms(2) by (auto simp: alive_def sv_inv_def)
  then show ?thesis by (simp add: settle_def on_conn_eq tcp_destroy_def)
qed (simp add: settle_def)

section \<open>A server of one loop\<close>

definition solo_server :: server where
  "solo_server = setConnectionHandler (Some (attach_on_connect sample_ctl None True))
     (projr (new_TcpServer sample_ctl (\<lambda>_ _. None) (new_LooperPool [0] True) 3 (\<lambda>_. 0) 0 3001))"

definition solo_started :: server where
  "solo_started = projr (startWork sample_ctl solo_server)"

definition solo_serving :: server where
  "solo_serving = projr (onNewConnection sample_ctl 7 (InetAddr_ip 1 2) solo_started)"

lemma solo_built: "new_TcpServer sample_ctl (\<lambda>_ _. None) (new_LooperPool [0] True) 3 (\<lambda>_. 0) 0 3001
  = Inr (solo_server\<lparr>newConnHandler := None\<rparr>)"
  by (simp add: solo_server_def server_eval)

lemma solo_handler: "newConnHandler solo_server = Some (attach_on_connect sample_ctl None True)"
  "quiet_handler sample_ctl (newConnHandler solo_server)"
  "setConnectionHandler (newConnHandler solo_server) (solo_server\<lparr>newConnHandler := None\<rparr>) = solo_server"
  by (auto simp: solo_server_def setConnectionHandler_def quiet_handler_def quiet_def)

lemma solo_startWork: "startWork sample_ctl solo_server = Inr solo_started"
  by (simp add: solo_server_def solo_started_def server_eval)

lemma solo_fresh: "listening solo_started" "fresh_fd 7 solo_started" "onNewConn_set (sv_acceptor solo_started)"
  by (simp_all add: solo_server_def solo_started_def server_eval)

lemma solo_accept: "server_handleRead sample_ctl 7 (InetAddr_ip 1 2) solo_started = Inr solo_serving"
  by (simp add: solo_server_def solo_started_def solo_serving_def server_eval Let_def)

lemma solo_serving_fields: "length (conns solo_serving) = 1" "conn_attached solo_serving 0"
  "conn_looper solo_serving 0 = 0" "connSet solo_serving = [0]" "mainLooper solo_serving = 0"
  "closedHandler_set (conn solo_serving 0)" "wired (tcp_channel (conn solo_serving 0))"
  by (simp_all add: solo_server_def solo_started_def solo_serving_def server_eval Let_def wired_def)

lemma solo_reached: "server_reaches sample_ctl (\<lambda>_ _. None) [0] solo_serving"
proof -
  have "server_reaches sample_ctl (\<lambda>_ _. None) [0]
      (setConnectionHandler (newConnHandler solo_server) (solo_server\<lparr>newConnHandler := None\<rparr>))"
    by (rule server_built [OF solo_built]) (auto simp: known_handler_def solo_handler(1))
  then have "server_reaches sample_ctl (\<lambda>_ _. None) [0] solo_server" by (simp only: solo_handler(3))
  then have "server_reaches sample_ctl (\<lambda>_ _. None) [0] solo_started"
    by (rule server_next [where oper = Start]) (simp_all add: solo_startWork)
  then show ?thesis
    by (rule server_next [where oper = "Accepted 7 (InetAddr_ip 1 2)"]) (simp_all add: solo_fresh solo_accept)
qed

text \<open>One connection, a send and after it its removal posted by another thread and swapped out by
  the loop.\<close>

definition solo_jobs :: life where
  "solo_jobs = (new_life (\<lambda>l. l) False solo_serving)\<lparr>held := [0],
     loops := (new_looper)(0 := (new_looper 0)\<lparr>evcount := 2\<rparr>),
     batch := (\<lambda>_. [])(0 := [Send_job 0 0, Remove_job 0]), asked := {0}\<rparr>"

lemma solo_jobs_reached: "life_reaches sample_ctl (new_life (\<lambda>l. l) False solo_server) solo_jobs"
proof -
  let ?n = "new_life (\<lambda>l. l) False" and ?l = "life_reaches sample_ctl (new_life (\<lambda>l. l) False solo_server)"
  let ?a = "(?n solo_serving)\<lparr>held := [0]\<rparr>"
  let ?b = "?a\<lparr>loops := (loops ?a)(0 := MultiplexLooper.wakeup (push_runnable (Send_job 0 0) (loops ?a 0)))\<rparr>"
  let ?c = "?b\<lparr>loops := (loops ?b)(0 := MultiplexLooper.wakeup (push_runnable (Remove_job 0) (loops ?b 0))),
    asked := {0}\<rparr>"
  have n: "?n v\<lparr>sv := w\<rparr> = ?n w" for v w by (simp add: new_life_def)
  have "?l (?n solo_started)"
    by (rule life_next [OF life_start, of Start_work]) (simp_all add: new_life_def solo_startWork)
  then have "?l (?n solo_serving)"
    by (rule life_next [where oper = "Accept 7 (InetAddr_ip 1 2)"])
      (simp_all add: new_life_def solo_fresh solo_accept)
  then have "?l ?a"
    by (rule life_next [where oper = "Take 0"]) (simp_all add: new_life_def solo_serving_fields)
  then have "?l ?b"
    by (rule life_next [where oper = "Call_send 1 0 0 []"])
      (simp_all add: new_life_def solo_serving_fields conn_send_def post_queued new_looper_def)
  then have "?l ?c"
    by (rule life_next [where oper = "Call_remove 1 0"])
      (simp_all add: new_life_def solo_serving_fields removeConnection_def post_queued new_looper_def
        push_runnable_def MultiplexLooper.wakeup_def settle_def alive_def)
  then have "?l (swap_batch 0 ?c)" by (rule life_next [where oper = "Swap_out 0"]) (simp_all add: new_life_def)
  moreover have "swap_batch 0 ?c = solo_jobs"
    by (simp add: swap_batch_def swap_runnables_def solo_jobs_def new_life_def new_looper_def push_runnable_def
        MultiplexLooper.wakeup_def fun_eq_iff)
  ultimately show ?thesis by simp
qed

section \<open>Properties\<close>



end
