(* ===== verification/ConnectionRemoval.thy ===== *)
theory ConnectionRemoval
  imports ConnectionLife
begin

text \<open>
  When connections are used after they were destroyed: removal by the close handler, in the thread
  of the loop (\<^verbatim>\<open>MultiplexLooper.cpp\<close>, \<^verbatim>\<open>include/TcpServer.hpp\<close>), and servers whose connections
  are spread over several loops (\<^verbatim>\<open>include/LooperPool.hpp\<close>).
\<close>

section \<open>Removal in the loop\<close>

text \<open>No reference is left but the one in the set of the server.\<close>

definition owned_by_server :: "nat \<Rightarrow> life \<Rightarrow> bool" where
  "owned_by_server i s \<longleftrightarrow> i \<in> set (connSet (sv s)) \<and> i \<notin> set (held s)
     \<and> Remove_job i \<notin> set (batch s (mainLooper (sv s)))
     \<and> Remove_job i \<notin> set (runnables (loops s (mainLooper (sv s))))"

lemma asked_last [simp]: "(s :: life)\<lparr>asked := A, sv := v\<rparr> = s\<lparr>sv := v, asked := A\<rparr>"
  by simp

text \<open>A close handler that removes its connection, run by the main loop's thread: the connection is
  gone when the handler returns.\<close>

lemma removed_by_handler:
  assumes "epoll_documented ctl" and "server_ok ks ls (sv s)" and "i < length (conns (sv s))"
    and "owned_by_server i s" and tid: "tid = threadId (loops s (mainLooper (sv s)))"
  shows "\<exists>v A. bind_res (removeConnection ctl tid i (s\<lparr>held := i # held s\<rparr>))
      (\<lambda>s''. settle i (s''\<lparr>held := remove1 i (held s'')\<rparr>)) = Inr (s\<lparr>sv := v, asked := A\<rparr>)
    \<and> i \<notin> set (connSet v) \<and> mainLooper v = mainLooper (sv s) \<and> \<not> sock_open (conn v i)"
proof -
  let ?s = "s\<lparr>held := i # held s, asked := insert i (asked s)\<rparr>"
  obtain c where c: "on_conn (tcp_detach ctl) i (sv s) = Inr (with_conn i c (sv s))"
    "\<not> attached (tcp_channel c)" by (rule detach_conn [OF assms(1-3)])
  define v where "v = (with_conn i c (sv s))\<lparr>connSet := removeAll i (connSet (sv s))\<rparr>"
  have "post_job ctl [] tid (mainLooper (sv s)) (Remove_job i) ?s = Inr (?s\<lparr>sv := v\<rparr>)"
    using c(1) tid by (simp add: post_job_def postRunnable_def removeConnInLoop_def v_def)
  moreover have "alive i (?s\<lparr>sv := v\<rparr>)" by (simp add: alive_def)
  ultimately have r: "removeConnection ctl tid i (s\<lparr>held := i # held s\<rparr>) = Inr (?s\<lparr>sv := v\<rparr>)"
    by (simp add: removeConnection_def settle_def)
  let ?t = "s\<lparr>sv := v, asked := insert i (asked s)\<rparr>"
  have unheld: "(?s\<lparr>sv := v\<rparr>)\<lparr>held := remove1 i (held (?s\<lparr>sv := v\<rparr>))\<rparr> = ?t" by simp
  have dead: "\<not> alive i ?t" using assms(4) by (simp add: alive_def owned_by_server_def v_def)
  obtain u where u: "on_conn tcp_destroy i v = Inr u" "connSet u = connSet v" "mainLooper u = mainLooper v"
    "\<not> sock_open (conn u i)"
    using c(2) assms(3) by (simp add: on_conn_eq tcp_destroy_def v_def sock_close_def)
  have "settle i ?t = Inr (?t\<lparr>sv := u\<rparr>)" using dead u(1) by (simp add: settle_def)
  with r unheld show ?thesis using u by (intro exI [of _ u] exI [of _ "insert i (asked s)"]) (simp add: v_def)
qed

text \<open>A callback that calls the close handler once.\<close>

lemma with_handlers_removes:
  assumes "epoll_documented ctl" and "owned_by_server i s" and "removes_on_close s"
    and "on_conn f i (sv s) = Inr v" and "server_ok ks ls v" and "same_set (sv s) v" and "i < length (conns v)"
    and "closings (conn (sv s) i) < closings (conn v i)"
    and "tid = threadId (loops s (mainLooper (sv s)))"
  shows "\<exists>u A. with_handlers ctl tid f i s = Inr (s\<lparr>sv := u, asked := A\<rparr>) \<and> i \<notin> set (connSet u)
    \<and> mainLooper u = mainLooper (sv s) \<and> \<not> sock_open (conn u i)"
proof -
  let ?s = "s\<lparr>sv := v\<rparr>"
  have "owned_by_server i ?s" using assms(2,6) by (simp add: owned_by_server_def same_set_def)
  with removed_by_handler [OF assms(1), of ks ls ?s i tid] assms(5,6,7,9) obtain u A where
    u: "bind_res (removeConnection ctl tid i (?s\<lparr>held := i # held ?s\<rparr>))
      (\<lambda>s''. settle i (s''\<lparr>held := remove1 i (held s'')\<rparr>)) = Inr (?s\<lparr>sv := u, asked := A\<rparr>)"
    "i \<notin> set (connSet u)" "mainLooper u = mainLooper (sv s)" "\<not> sock_open (conn u i)"
    by (auto simp: same_set_def)
  have "alive i s" using assms(2) by (simp add: owned_by_server_def alive_def)
  then have "on_object f i s = Inr ?s" using assms(4) by (simp add: on_object_def)
  with u assms(3,8) show ?thesis by (intro exI [of _ u] exI [of _ A]) (simp add: with_handlers_def)
qed

lemma removed_dead:
  "owned_by_server i s \<Longrightarrow> i \<notin> set (connSet u) \<Longrightarrow> mainLooper u = mainLooper (sv s) \<Longrightarrow>
    \<not> alive i (s\<lparr>sv := u, asked := A\<rparr>)"
  by (simp add: alive_def owned_by_server_def)

subsection \<open>The callbacks\<close>

text \<open>A connection of a server of one loop, which only the server owns, and whose close handler
  removes it.\<close>

definition closable :: "epoll_ctl \<Rightarrow> (nat \<Rightarrow> interest) \<Rightarrow> nat \<Rightarrow> life \<Rightarrow> bool" where
  "closable ctl ks i s \<longleftrightarrow> (\<exists>l. server_reaches ctl ks [l] (sv s)) \<and> owned_by_server i s \<and> removes_on_close s
     \<and> i < length (conns (sv s)) \<and> conn_attached (sv s) i \<and> wired (tcp_channel (conn (sv s) i))
     \<and> closedHandler_set (conn (sv s) i)"

lemma closableD:
  assumes "epoll_documented ctl" and "closable ctl ks i s"
  obtains l where "server_ok ks [l] (sv s)" and "conn_looper (sv s) i = mainLooper (sv s)"
    and "i < length (conns (sv s))" and "owned_by_server i s" and "removes_on_close s" and "alive i s"
proof -
  from assms(2) obtain l where "server_reaches ctl ks [l] (sv s)" "i < length (conns (sv s))" by (auto simp: closable_def)
  moreover from this reaches_ok [OF assms(1)] have ok: "server_ok ks [l] (sv s)" by blast
  moreover from this \<open>i < _\<close> have "conn_looper (sv s) i = mainLooper (sv s)" by (auto simp: server_ok_def pool_ok_def)
  ultimately show thesis using assms(2) by (intro that [of l]) (auto simp: closable_def owned_by_server_def alive_def)
qed

lemma handleClose_conn:
  assumes "server_ok ks ls v" and "i < length (conns v)" and "closedHandler_set (conn v i)"
  obtains d where "on_conn (\<lambda>c. Inr (tcp_handleClose errno c)) i v = Inr (with_conn i d v)"
    and "server_ok ks ls (with_conn i d v)" and "closings (conn v i) < closings d"
proof -
  let ?d = "tcp_handleClose errno ((conn v i)\<lparr>epoll := epolls v (conn_looper v i)\<rparr>)"
  have d: "tcp_channel ?d = tcp_channel (conn v i)" "sock_open ?d = sock_open (conn v i)" "store ?d = store (conn v i)"
    "rcvBuf ?d = rcvBuf (conn v i)" "epoll ?d = epolls v (conn_looper v i)"
    by (simp_all add: tcp_handleClose_def)
  define v' where "v' = with_conn i ?d v"
  have frame: "length (conns v') = length (conns v)" "sv_acceptor v' = sv_acceptor v" "mainLooper v' = mainLooper v"
    "epolls v' = epolls v" "connSet v' = connSet v" "loopPool v' = loopPool v" by (simp_all add: v'_def d(5))
  have same: "tcp_channel (conn v' j) = tcp_channel (conn v j)" "sock_open (conn v' j) = sock_open (conn v j)"
    "store (conn v' j) = store (conn v j)" "rcvBuf (conn v' j) = rcvBuf (conn v j)"
    "conn_looper v' j = conn_looper v j" for j
    using d by (cases "j = i"; cases "i < length (conns v)"; simp add: v'_def list_update_beyond)+
  have "registered v' l fd = registered v l fd" for l fd by (simp add: registered_def same frame)
  then have "server_ok ks ls v' = server_ok ks ls v"
    by (simp add: server_ok_def kernel_ok_def conn_ok_def pool_ok_def same frame)
  then have "server_ok ks ls (with_conn i ?d v)" using assms(1) by (simp add: v'_def)
  then show thesis using assms(3) by (intro that [of ?d]) (simp_all add: on_conn_eq closings_def tcp_handleClose_def)
qed

lemma handleClose_removes:
  assumes "epoll_documented ctl" and "closable ctl ks i s"
  shows "\<exists>u A. run_bound ctl rs ws errno (i, On_handleClose) s = Inr (s\<lparr>sv := u, asked := A\<rparr>)
    \<and> \<not> alive i (s\<lparr>sv := u, asked := A\<rparr>)"
proof -
  obtain l where C: "server_ok ks [l] (sv s)" "conn_looper (sv s) i = mainLooper (sv s)" "i < length (conns (sv s))"
    "owned_by_server i s" "removes_on_close s" by (rule closableD [OF assms])
  have h: "closedHandler_set (conn (sv s) i)" using assms(2) by (simp add: closable_def)
  have e: "run_tcp ctl rs ws errno On_handleClose = (\<lambda>c. Inr (tcp_handleClose errno c))"
    by (simp add: run_tcp_def fun_eq_iff)
  obtain d where d: "on_conn (run_tcp ctl rs ws errno On_handleClose) i (sv s) = Inr (with_conn i d (sv s))"
    "server_ok ks [l] (with_conn i d (sv s))" "closings (conn (sv s) i) < closings d"
    by (rule handleClose_conn [OF C(1,3) h, of errno, folded e])
  from with_handlers_removes [OF assms(1) C(4,5) d(1,2), of "threadId (loops s (mainLooper (sv s)))"] d(3) C(2,3)
  show ?thesis using removed_dead [OF C(4)] by (auto simp: run_bound_def same_set_def)
qed

lemma read_end_removes:
  assumes "epoll_documented ctl" and "closable ctl ks i s" and "ends r e"
  shows "\<exists>u A. run_bound ctl [r] ws errno (i, On_handleRead) s = Inr (s\<lparr>sv := u, asked := A\<rparr>)
    \<and> \<not> alive i (s\<lparr>sv := u, asked := A\<rparr>) \<and> \<not> sock_open (conn u i) \<and> mainLooper u = mainLooper (sv s)"
proof -
  obtain l where C: "server_ok ks [l] (sv s)" "conn_looper (sv s) i = mainLooper (sv s)" "i < length (conns (sv s))"
    "owned_by_server i s" "removes_on_close s" by (rule closableD [OF assms(1,2)])
  have h: "closedHandler_set (conn (sv s) i)" "conn_attached (sv s) i" using assms(2) by (simp_all add: closable_def)
  let ?c = "(conn (sv s) i)\<lparr>epoll := epolls (sv s) (conn_looper (sv s) i)\<rparr>"
  have oki: "conn_ok ks (sv s) i" and K: "kernel_ok ks (sv s)" using C(1,3) by (simp_all add: server_ok_def)
  have w: "epolls (sv s) (conn_looper (sv s) i) (conn_fd (sv s) i) \<noteq> None"
    by (rule kernel_registered [OF K attached_registered [OF C(3) h(2)]])
  have pre: "valid (store ?c) (rcvBuf ?c)" "ch_fd (tcp_channel ?c) \<ge> 0" "attached (tcp_channel ?c)"
    "epoll ?c (ch_fd (tcp_channel ?c)) \<noteq> None" using oki h(2) w by (simp_all add: conn_ok_def)
  obtain c1 where c1: "refresh_rcvBuf ?c = Inr c1" "valid (store c1) (rcvBuf c1)"
    "tcp_handleRead ctl [r] ?c = Inr (tcp_handleClose e (sock_close (c1\<lparr>tcp_channel :=
      (tcp_channel ?c)\<lparr>attached := False\<rparr>, epoll := (epoll ?c)(ch_fd (tcp_channel ?c) := None)\<rparr>)))"
    by (rule read_end_eq [OF assms(1) pre assms(3)])
  define d where "d = tcp_handleClose e (sock_close (c1\<lparr>tcp_channel :=
      (tcp_channel ?c)\<lparr>attached := False\<rparr>, epoll := (epoll ?c)(ch_fd (tcp_channel ?c) := None)\<rparr>))"
  have r': "on_conn (tcp_handleRead ctl [r]) i (sv s) = Inr (with_conn i d (sv s))"
    unfolding on_conn_eq c1(3) d_def by simp
  then have r: "on_conn (run_tcp ctl [r] ws errno On_handleRead) i (sv s) = Inr (with_conn i d (sv s))"
    unfolding run_tcp_def tcp_callback.case .
  have "closings (conn (sv s) i) < closings d"
    using refresh_frame [OF c1(1)] h(1) by (simp add: d_def closings_def tcp_handleClose_def sock_close_def)
  moreover have "server_ok ks [l] (with_conn i d (sv s))"
    using peer_ends_ok [OF assms(1) C(1,3) h(2) assms(3)] unfolding r' by simp
  ultimately show ?thesis
    using with_handlers_removes [OF assms(1) C(4,5) r, of ks "[l]" "threadId (loops s (mainLooper (sv s)))"] C(2,3)
      removed_dead [OF C(4)] by (auto simp: run_bound_def same_set_def)
qed

subsection \<open>Events\<close>

lemma dead_event:
  "\<not> alive i s \<Longrightarrow> on_event b (with_channel channel_at i f) s = (if b then Inl UseAfterFree else Inr s)"
  by (simp add: on_event_def with_channel_def channel_at_def)

lemma wired_event:
  assumes "alive i s" and "wired (tcp_channel (conn (sv s) i))"
  shows "with_channel channel_at i (handleClosed run) s = run (i, On_handleClose) s"
    and "with_channel channel_at i (handleError run) s = run (i, On_handleClose) s"
    and "with_channel channel_at i (handleRead run) s = run (i, On_handleRead) s"
  using assms by (simp_all add: with_channel_def channel_at_def bound_channel_def wired_def handleClosed_def
      handleError_def handleRead_def invoke_def)

abbreviation has :: "u32 \<Rightarrow> u32 \<Rightarrow> bool" where
  "has ev m \<equiv> ev AND m \<noteq> 0"

lemma hangup_dangles:
  assumes "epoll_documented ctl" and "closable ctl ks i s"
    and "has ev EPOLLHUP \<and> (has ev EPOLLERR \<or> has ev EVENT_READ \<or> has ev EVENT_WRITE)
      \<or> has ev EPOLLERR \<and> (has ev EVENT_READ \<or> has ev EVENT_WRITE)"
  shows "conn_event ctl rs ws errno ev i s = Inl UseAfterFree"
proof -
  from assms have a: "alive i s" and w: "wired (tcp_channel (conn (sv s) i))"
    by (auto simp: closable_def owned_by_server_def alive_def)
  from handleClose_removes [OF assms(1,2), of rs ws errno] obtain u A where
    u: "run_bound ctl rs ws errno (i, On_handleClose) s = Inr (s\<lparr>sv := u, asked := A\<rparr>)"
    "\<not> alive i (s\<lparr>sv := u, asked := A\<rparr>)" by blast
  note E = wired_event [OF a w, of "run_bound ctl rs ws errno"]
  note dead = dead_event [OF u(2)]
  show ?thesis
  proof (cases "has ev EPOLLHUP")
    case True
    then have c: "on_event (has ev EPOLLHUP) (with_channel channel_at i (handleClosed (run_bound ctl rs ws errno))) s
        = Inr (s\<lparr>sv := u, asked := A\<rparr>)" using E(1) u(1) by (simp add: on_event_def)
    show ?thesis using assms(3) True unfolding conn_event_def dispatch_event_def prod.case c bind_res.simps by (auto simp: dead)
  next
    case False
    with assms(3) have e: "has ev EPOLLERR" by blast
    have c: "on_event (has ev EPOLLHUP) (with_channel channel_at i (handleClosed (run_bound ctl rs ws errno))) s = Inr s"
      using False by (simp add: on_event_def)
    have d: "on_event (has ev EPOLLERR) (with_channel channel_at i (handleError (run_bound ctl rs ws errno))) s
        = Inr (s\<lparr>sv := u, asked := A\<rparr>)" using E(2) u(1) e by (simp add: on_event_def)
    show ?thesis using assms(3) False
      unfolding conn_event_def dispatch_event_def prod.case c bind_res.simps d by (auto simp: dead)
  qed
qed

lemma read_end_released:
  assumes "epoll_documented ctl" and "closable ctl ks i s" and "ends r e"
    and "\<not> has ev EPOLLHUP" and "\<not> has ev EPOLLERR" and "has ev EVENT_READ" and "\<not> has ev EVENT_WRITE"
  shows "\<exists>u A. conn_event ctl [r] ws errno ev i s = Inr (s\<lparr>sv := u, asked := A\<rparr>)
    \<and> \<not> alive i (s\<lparr>sv := u, asked := A\<rparr>) \<and> \<not> sock_open (conn u i) \<and> mainLooper u = mainLooper (sv s)"
proof -
  from assms have a: "alive i s" and w: "wired (tcp_channel (conn (sv s) i))"
    by (auto simp: closable_def owned_by_server_def alive_def)
  have "conn_event ctl [r] ws errno ev i s = run_bound ctl [r] ws errno (i, On_handleRead) s"
    unfolding conn_event_def dispatch_event_def prod.case using assms(4-7) wired_event(3) [OF a w]
    by (simp add: on_event_def)
      (cases "run_bound ctl [r] ws errno (i, On_handleRead) s"; simp add: on_event_def)
  with read_end_removes [OF assms(1-3), of ws errno] show ?thesis by simp
qed

section \<open>Servers of several loops\<close>

text \<open>
  The discipline is not enough when the connection is on another loop than the main one: the queues of
  the loops are worked off independently. Here a thread sends on a connection, asks for its
  removal and drops its reference; the main loop removes the connection and destroys it with its
  runnables, and the loop of the connection then runs the send.
\<close>

lemma main_loop_destroys:
  assumes "server_ok ks ls (sv s)" and "i < length (conns (sv s))" and "i \<notin> set (held s)"
    and "batch s (mainLooper (sv s)) = [Remove_job i]" and "batch_idx s (mainLooper (sv s)) = 0"
    and "runnables (loops s (mainLooper (sv s))) = []" and "epoll_documented ctl"
  shows "\<exists>s1 u. run_next ctl ws (mainLooper (sv s)) s = Inr s1
    \<and> end_batch (mainLooper (sv s)) s1 = Inr (s\<lparr>batch := (batch s)(mainLooper (sv s) := []), sv := u\<rparr>)
    \<and> batch_idx s1 (mainLooper (sv s)) = 1 \<and> batch s1 = batch s \<and> i \<notin> set (connSet u)
    \<and> mainLooper u = mainLooper (sv s)"
proof -
  let ?m = "mainLooper (sv s)"
  obtain c where c: "on_conn (tcp_detach ctl) i (sv s) = Inr (with_conn i c (sv s))" "\<not> attached (tcp_channel c)"
    by (rule detach_conn [OF assms(7,1,2)])
  define v where "v = (with_conn i c (sv s))\<lparr>connSet := removeAll i (connSet (sv s))\<rparr>"
  let ?s1 = "s\<lparr>batch_idx := (batch_idx s)(?m := 1), sv := v\<rparr>"
  let ?s2 = "s\<lparr>batch := (batch s)(?m := []), sv := v\<rparr>"
  have 1: "run_next ctl ws ?m s = Inr ?s1"
    using c(1) assms(4,5) by (simp add: run_next_def removeConnInLoop_def v_def)
  obtain u where u: "on_conn tcp_destroy i v = Inr u" "connSet u = connSet v" "mainLooper u = mainLooper v"
    using c(2) assms(2) by (simp add: on_conn_eq tcp_destroy_def v_def)
  have idx: "(batch_idx s)(?m := 0) = batch_idx s" using assms(5) by (simp add: fun_upd_idem)
  have "\<not> alive i ?s2" using assms(3,6) by (simp add: alive_def v_def)
  moreover have "?s1\<lparr>batch := (batch ?s1)(?m := []), batch_idx := (batch_idx ?s1)(?m := 0)\<rparr> = ?s2"
    using idx by simp
  ultimately have "end_batch ?m ?s1 = Inr (?s2\<lparr>sv := u\<rparr>)"
    using u(1) assms(4) by (simp add: end_batch_def settle_def)
  with 1 u show ?thesis by (intro exI [of _ ?s1] exI [of _ u]) (simp add: v_def)
qed

text \<open>The send on loop 1, the removal on loop 0, both swapped out, no reference in a user's hand.\<close>

definition duo_jobs :: life where
  "duo_jobs = (new_life (\<lambda>l. l) False demo_serving)\<lparr>
     loops := new_looper(1 := (new_looper 1)\<lparr>evcount := 1\<rparr>, 0 := (new_looper 0)\<lparr>evcount := 1\<rparr>),
     batch := (\<lambda>_. [])(0 := [Remove_job 0], 1 := [Send_job 0 0]), asked := {0}\<rparr>"

lemma demo_serving_main: "mainLooper demo_serving = 0" "connSet demo_serving = [0]"
  by (simp_all add: demo_server_def demo_serving_def server_eval Let_def)

lemma duo_jobs_reached: "life_reaches sample_ctl (new_life (\<lambda>l. l) False demo_server) duo_jobs"
proof -
  let ?n = "new_life (\<lambda>l. l) False" and ?l = "life_reaches sample_ctl (new_life (\<lambda>l. l) False demo_server)"
  let ?a = "(?n demo_serving)\<lparr>held := [0]\<rparr>"
  let ?b = "?a\<lparr>loops := (loops ?a)(1 := MultiplexLooper.wakeup (push_runnable (Send_job 0 0) (loops ?a 1)))\<rparr>"
  let ?c = "?b\<lparr>loops := (loops ?b)(0 := MultiplexLooper.wakeup (push_runnable (Remove_job 0) (loops ?b 0))),
    asked := {0}\<rparr>"
  note posted = conn_send_def removeConnection_def post_queued new_looper_def push_runnable_def
    MultiplexLooper.wakeup_def settle_def alive_def
  have "?l (?n demo_started)"
    by (rule life_next [OF life_start, of Start_work]) (simp_all add: new_life_def demo_startWork)
  then have "?l (?n demo_serving)"
    by (rule life_next [where oper = "Accept 7 (InetAddr_ip 1 2)"])
      (simp_all add: new_life_def demo_fresh demo_accept server_handleRead_def acc_handleRead_def)
  then have "?l ?a"
    by (rule life_next [where oper = "Take 0"]) (simp_all add: new_life_def demo_serving_main)
  then have "?l ?b"
    by (rule life_next [where oper = "Call_send 2 0 0 []"]) (simp_all add: new_life_def demo_serving_fields posted)
  then have "?l ?c"
    by (rule life_next [where oper = "Call_remove 2 0"]) (simp_all add: new_life_def demo_serving_main posted)
  then have "?l (?c\<lparr>held := []\<rparr>)"
    by (rule life_next [where oper = "Drop 0"]) (simp_all add: new_life_def demo_serving_main posted)
  then have "?l (swap_batch 0 (?c\<lparr>held := []\<rparr>))"
    by (rule life_next [where oper = "Swap_out 0"]) (simp_all add: new_life_def)
  then have "?l (swap_batch 1 (swap_batch 0 (?c\<lparr>held := []\<rparr>)))"
    by (rule life_next [where oper = "Swap_out 1"]) (simp_all add: new_life_def swap_batch_def swap_runnables_def)
  moreover have "swap_batch 1 (swap_batch 0 (?c\<lparr>held := []\<rparr>)) = duo_jobs"
    by (simp add: swap_batch_def swap_runnables_def duo_jobs_def new_life_def new_looper_def push_runnable_def
        MultiplexLooper.wakeup_def fun_eq_iff)
  ultimately show ?thesis by simp
qed

theorem two_loops_dangle:
  "\<exists>s. life_reaches sample_ctl (new_life (\<lambda>l. l) False demo_server) s \<and> can_happen (Run_next 1 []) s
    \<and> in_order (Run_next 1 []) s \<and> life_step sample_ctl (Run_next 1 []) s = Inl UseAfterFree"
proof -
  have D: "sv duo_jobs = demo_serving" "held duo_jobs = []" "batch duo_jobs 0 = [Remove_job 0]"
    "batch duo_jobs 1 = [Send_job 0 0]" "batch_idx duo_jobs = (\<lambda>_. 0)" "runnables (loops duo_jobs 0) = []"
    by (simp_all add: duo_jobs_def new_life_def new_looper_def)
  have ok: "server_ok (\<lambda>_ _. None) [0, 1] (sv duo_jobs)"
    unfolding D(1) using reaches_ok [OF sample_ctl_documented demo_serving_reached] by blast
  from main_loop_destroys [OF ok, of 0 sample_ctl "[]"] D demo_serving_fields(1) demo_serving_main(1)
    sample_ctl_documented obtain s1 u where r: "run_next sample_ctl [] 0 duo_jobs = Inr s1"
    "end_batch 0 s1 = Inr (duo_jobs\<lparr>batch := (batch duo_jobs)(0 := []), sv := u\<rparr>)"
    "batch_idx s1 0 = 1" "batch s1 = batch duo_jobs" "0 \<notin> set (connSet u)" "mainLooper u = 0" by auto
  let ?s = "duo_jobs\<lparr>batch := (batch duo_jobs)(0 := []), sv := u\<rparr>"
  have "life_reaches sample_ctl (new_life (\<lambda>l. l) False demo_server) s1"
    by (rule life_next [OF duo_jobs_reached, of "Run_next 0 []"]) (use D r in simp_all)
  then have "life_reaches sample_ctl (new_life (\<lambda>l. l) False demo_server) ?s"
    by (rule life_next [where oper = "End_batch 0"]) (use D r in simp_all)
  moreover have "\<not> alive 0 ?s" using D r(5,6) by (simp add: alive_def)
  then have "life_step sample_ctl (Run_next 1 []) ?s = Inl UseAfterFree"
    using D by (simp add: run_next_def on_object_def alive_def)
  ultimately show ?thesis using D by (intro exI [of _ ?s]) simp
qed

section \<open>Properties\<close>

text \<open>C33: A close handler that removes its connection from the server, as the interface suggests,
  destroys it in the loop's own thread, under the loop that is handling its event: when the
  kernel reports a hangup or an error along with anything that is handled after it, the loop goes
  on to use the destroyed connection. When it reports the end of the stream alone the connection is
  closed and destroyed cleanly; but if another thread has queued a send before, the loop
  runs that send on the destroyed connection.\<close>

theorem closing_in_the_loop_dangles:
  assumes "epoll_documented ctl" and "closable ctl ks i s"
  shows "(has ev EPOLLHUP \<and> (has ev EPOLLERR \<or> has ev EVENT_READ \<or> has ev EVENT_WRITE)
        \<or> has ev EPOLLERR \<and> (has ev EVENT_READ \<or> has ev EVENT_WRITE)
        \<longrightarrow> conn_event ctl rs ws errno ev i s = Inl UseAfterFree)
    \<and> (\<not> has ev EPOLLHUP \<and> \<not> has ev EPOLLERR \<and> has ev EVENT_READ \<and> \<not> has ev EVENT_WRITE \<and> ends r e
        \<longrightarrow> (\<exists>s'. conn_event ctl [r] ws errno ev i s = Inr s' \<and> \<not> alive i s' \<and> \<not> sock_open (conn (sv s') i)
          \<and> (\<forall>b js. runnables (loops s (mainLooper (sv s))) = Send_job i b # js
              \<longrightarrow> run_next ctl ws' (mainLooper (sv s)) (swap_batch (mainLooper (sv s)) s') = Inl UseAfterFree)))"
proof (intro conjI impI)
  assume "\<not> has ev EPOLLHUP \<and> \<not> has ev EPOLLERR \<and> has ev EVENT_READ \<and> \<not> has ev EVENT_WRITE \<and> ends r e"
  then obtain u A where u: "conn_event ctl [r] ws errno ev i s = Inr (s\<lparr>sv := u, asked := A\<rparr>)"
    "\<not> alive i (s\<lparr>sv := u, asked := A\<rparr>)" "\<not> sock_open (conn u i)" "mainLooper u = mainLooper (sv s)"
    using read_end_released [OF assms, of r e ev ws errno] by blast
  let ?m = "mainLooper (sv s)" and ?s = "s\<lparr>sv := u, asked := A\<rparr>"
  have "run_next ctl ws' ?m (swap_batch ?m ?s) = Inl UseAfterFree"
    if q: "runnables (loops s ?m) = Send_job i b # js" for b js
  proof -
    have "Remove_job i \<notin> set (runnables (loops s ?m))" using assms(2) by (simp add: closable_def owned_by_server_def)
    then have "\<not> alive i (swap_batch ?m ?s)"
      using u(2,4) by (auto simp: alive_def swap_batch_def swap_runnables_def)
    then show ?thesis using q
      by (simp add: run_next_def swap_batch_def swap_runnables_def on_object_def alive_def)
  qed
  with u show "\<exists>s'. conn_event ctl [r] ws errno ev i s = Inr s' \<and> \<not> alive i s' \<and> \<not> sock_open (conn (sv s') i)
      \<and> (\<forall>b js. runnables (loops s ?m) = Send_job i b # js
          \<longrightarrow> run_next ctl ws' ?m (swap_batch ?m s') = Inl UseAfterFree)"
    by (intro exI [of _ ?s]) simp
qed (rule hangup_dangles [OF assms])

theorem closing_in_the_loop_dangles_witness:
  "\<exists>s s'. conn_event sample_ctl [] [] 0 (EPOLLHUP OR EPOLLIN) 0 s = Inl UseAfterFree
    \<and> conn_event sample_ctl [Eof] [] 0 EPOLLIN 0 s = Inr s'
    \<and> run_next sample_ctl [] 0 (swap_batch 0 s') = Inl UseAfterFree"
proof -
  let ?s = "(new_life (\<lambda>l. l) True solo_serving)\<lparr>loops := new_looper(0 := push_runnable (Send_job 0 0) (new_looper 0))\<rparr>"
  have c: "closable sample_ctl (\<lambda>_ _. None) 0 ?s"
    using solo_reached solo_serving_fields
    by (auto simp: closable_def owned_by_server_def new_life_def new_looper_def push_runnable_def)
  have q: "mainLooper (sv ?s) = 0" "runnables (loops ?s 0) = [Send_job 0 0]"
    by (simp_all add: new_life_def solo_serving_fields push_runnable_def new_looper_def)
  have ev: "has (EPOLLHUP OR EPOLLIN) EPOLLHUP" "has (EPOLLHUP OR EPOLLIN) EVENT_READ"
    "\<not> has EPOLLIN EPOLLHUP" "\<not> has EPOLLIN EPOLLERR" "has EPOLLIN EVENT_READ" "\<not> has EPOLLIN EVENT_WRITE"
    by (simp_all add: EPOLLHUP_def EPOLLIN_def EPOLLERR_def EVENT_READ_def EVENT_WRITE_def EPOLLPRI_def
        EPOLLRDHUP_def EPOLLOUT_def)
  note D = closing_in_the_loop_dangles [OF sample_ctl_documented c]
  have "conn_event sample_ctl [] [] 0 (EPOLLHUP OR EPOLLIN) 0 ?s = Inl UseAfterFree"
    using D [of "EPOLLHUP OR EPOLLIN" "[]" "[]" 0] ev(1,2) by blast
  moreover have "ends Eof 0" by (simp add: ends_def)
  then obtain s' where "conn_event sample_ctl [Eof] [] 0 EPOLLIN 0 ?s = Inr s'"
    "run_next sample_ctl [] 0 (swap_batch 0 s') = Inl UseAfterFree"
    using D [of EPOLLIN "[]" "[]" 0 Eof 0 "[]", THEN conjunct2] ev(3-6) q by auto
  ultimately show ?thesis by blast
qed

end
