(* ===== verification/HashedWheelTimer.thy ===== *)
theory HashedWheelTimer
  imports Prelude
begin

text \<open>
  \<^verbatim>\<open>include/HashedWheelTimer.hpp\<close> and \<^verbatim>\<open>HashedWheelTimer.cpp\<close>: timeouts
  hashed into the buckets of a wheel, one bucket visited per tick. A timeout object is shared
  between its bucket and whoever keeps the pointer \<open>addTimeout\<close> returned, so the objects live
  in a store and buckets hold addresses. A task is an opaque token; running it is recorded in
  the result of \<open>tick\<close> with the address of its timeout. The theory \<open>WheelTasks\<close> has the visit with
  the tasks run inside it, where they may call back into the timer.
\<close>

section \<open>State\<close>

datatype timeout_state = ST_INIT | ST_CANCELLED | ST_EXPIRED

text \<open>\<open>function<void()>\<close>: empty, the \<open>[](){}\<close> that \<open>cancel\<close> installs, or a task.\<close>

datatype 'k task = Empty_function | Noop | Run 'k

record 'k timeout =
  to_state :: timeout_state
  remainingRounds :: u32
  to_deadline :: u64
  to_task :: "'k task"

record 'k wheel =
  timeouts :: "'k timeout list"     \<comment> \<open>the objects, by address\<close>
  buckets :: "nat list list"
  ticked :: u64
  normalizeShift :: nat
  ticksPerWheel :: u32
  msPerTick :: u32
  wheel_mask :: u32

section \<open>HashedWheelTimeout\<close>

definition new_timeout :: "u32 \<Rightarrow> u64 \<Rightarrow> 'k task \<Rightarrow> 'k timeout" where
  "new_timeout rounds deadline task =
     \<lparr>to_state = ST_INIT, remainingRounds = rounds, to_deadline = deadline, to_task = task\<rparr>"

definition isCancelled :: "'k timeout \<Rightarrow> bool" where
  "isCancelled t \<longleftrightarrow> to_state t = ST_CANCELLED"

definition isExpired :: "'k timeout \<Rightarrow> bool" where
  "isExpired t \<longleftrightarrow> to_state t = ST_EXPIRED"

definition cancel_timeout :: "'k timeout \<Rightarrow> 'k timeout" where
  "cancel_timeout t = t\<lparr>to_state := ST_CANCELLED, to_task := Noop\<rparr>"

text \<open>\<open>expire\<close>: the new object and the tasks run (none or one).\<close>

definition expire :: "'k timeout \<Rightarrow> 'k timeout \<times> 'k list" where
  "expire t =
     (if to_state t = ST_INIT
      then (t\<lparr>to_state := ST_EXPIRED\<rparr>, case to_task t of Run k \<Rightarrow> [k] | _ \<Rightarrow> [])
      else (t, []))"

definition decreaseRounds :: "'k timeout \<Rightarrow> 'k timeout res" where
  "decreaseRounds t = assert_then (remainingRounds t > 0)
     (Inr (t\<lparr>remainingRounds := remainingRounds t - 1\<rparr>))"

section \<open>HashedWheelBucket\<close>

text \<open>
  The visit of a bucket: the store, what stays in the bucket, and the tasks run, each with the
  address of its timeout.
\<close>

fun expireTimeouts ::
  "'k timeout list \<Rightarrow> nat list \<Rightarrow> ('k timeout list \<times> nat list \<times> (nat \<times> 'k) list) res" where
  "expireTimeouts st [] = Inr (st, [], [])"
| "expireTimeouts st (a # as) =
     (if remainingRounds (st ! a) = 0
      then (let (t, ks) = expire (st ! a) in
        bind_res (expireTimeouts (st[a := t]) as)
          (\<lambda>(st', left, fired). Inr (st', left, map (Pair a) ks @ fired)))
      else if isCancelled (st ! a) then expireTimeouts st as
      else bind_res (decreaseRounds (st ! a))
        (\<lambda>t. bind_res (expireTimeouts (st[a := t]) as)
          (\<lambda>(st', left, fired). Inr (st', a # left, fired))))"

section \<open>HashedWheelTimer\<close>

text \<open>
  The loop of \<open>calculateNormalizeShift\<close>. \<open>1 << shift\<close> is a shift of a 32-bit \<open>int\<close>: counts
  of 32 and more are undefined.
\<close>

function calculateNormalizeShift :: "u32 \<Rightarrow> nat \<Rightarrow> nat res" where
  "calculateNormalizeShift tpw shift =
     (if shift \<ge> 32 then Inl BadShift
      else if (push_bit shift 1 :: u32) < tpw then calculateNormalizeShift tpw (Suc shift)
      else Inr shift)"
  by pat_completeness auto
termination
  by (relation "measure (\<lambda>(tpw, shift). 32 - shift)") auto

declare calculateNormalizeShift.simps [simp del]

definition new_HashedWheelTimer :: "u32 \<Rightarrow> u32 \<Rightarrow> 'k wheel res" where
  "new_HashedWheelTimer ms tpw =
     bind_res (calculateNormalizeShift tpw 0)
       (\<lambda>shift. let n = push_bit shift 1 in
          Inr \<lparr>timeouts = [], buckets = replicate (unat n) [], ticked = 0, normalizeShift = shift,
               ticksPerWheel = n, msPerTick = ms, wheel_mask = n - 1\<rparr>)"

definition convertExpireMsToTicks :: "'k wheel \<Rightarrow> u64 \<Rightarrow> u32 res" where
  "convertExpireMsToTicks w expireMs =
     (if msPerTick w = 0 then Inl DivByZero
      else Inr (ucast ((expireMs + ucast (msPerTick w) - 1) div ucast (msPerTick w))))"

definition addTimeout :: "'k wheel \<Rightarrow> 'k task \<Rightarrow> u64 \<Rightarrow> ('k wheel \<times> nat) res" where
  "addTimeout w task expireMs =
     bind_res (convertExpireMsToTicks w expireMs)
       (\<lambda>ticks.
          let offTick = (ucast (ticked w AND ucast (wheel_mask w)) :: u32);
              rounds = drop_bit (normalizeShift w) ticks;
              index = unat ((ticks + offTick) AND wheel_mask w);
              a = length (timeouts w)
          in if index < length (buckets w)
             then Inr (w\<lparr>timeouts := timeouts w @ [new_timeout rounds (ucast ticks) task],
                         buckets := (buckets w)[index := buckets w ! index @ [a]]\<rparr>, a)
             else Inl OutOfBounds)"

definition tick :: "'k wheel \<Rightarrow> ('k wheel \<times> (nat \<times> 'k) list) res" where
  "tick w =
     (let index = unat (ticked w AND ucast (wheel_mask w)) in
      if index < length (buckets w)
      then bind_res (expireTimeouts (timeouts w) (buckets w ! index))
        (\<lambda>(st', left, fired).
           Inr (w\<lparr>timeouts := st', buckets := (buckets w)[index := left],
                  ticked := ticked w + 1\<rparr>, fired))
      else Inl OutOfBounds)"

text \<open>\<open>cancel()\<close> through a pointer to a timeout.\<close>

definition cancel :: "'k wheel \<Rightarrow> nat \<Rightarrow> 'k wheel" where
  "cancel w a = w\<lparr>timeouts := (timeouts w)[a := cancel_timeout (timeouts w ! a)]\<rparr>"

section \<open>The shift\<close>

lemma unat_shifted_one [simp]:
  assumes "s \<le> 31"
  shows "unat (2 ^ s :: u32) = 2 ^ s"
proof -
  from assms have "(2::nat) ^ s \<le> 2 ^ 31" by (intro power_increasing) simp_all
  then have "unat (of_nat (2 ^ s) :: u32) = 2 ^ s"
    by (simp only: unsigned_of_nat of_nat_id) (intro take_bit_nat_eq_self, simp)
  then show ?thesis by simp
qed

lemma calculateNormalizeShift_spec:
  assumes "shift \<le> 31" and "tpw \<le> 2 ^ 31" and "\<And>j. j < shift \<Longrightarrow> 2 ^ j < unat tpw"
  shows "\<exists>s. calculateNormalizeShift tpw shift = Inr s \<and> s \<le> 31 \<and> unat tpw \<le> 2 ^ s
    \<and> (\<forall>j < s. 2 ^ j < unat tpw)"
  using assms
proof (induction tpw shift rule: calculateNormalizeShift.induct)
  case (1 tpw shift)
  have p: "unat (push_bit shift 1 :: u32) = 2 ^ shift"
    using "1.prems"(1) by simp
  show ?case
  proof (cases "(push_bit shift 1 :: u32) < tpw")
    case True
    then have lt: "2 ^ shift < unat tpw" using p by (simp add: word_less_nat_alt)
    have "shift \<noteq> 31"
    proof
      assume "shift = 31"
      with lt "1.prems"(2) show False by (simp add: word_le_nat_alt)
    qed
    with "1.prems"(1) have "Suc shift \<le> 31" by simp
    moreover have "2 ^ j < unat tpw" if "j < Suc shift" for j
      using that lt "1.prems"(3) by (cases "j = shift") auto
    ultimately show ?thesis
      using "1.IH" "1.prems" True by (subst calculateNormalizeShift.simps) simp
  next
    case False
    then have "unat tpw \<le> 2 ^ shift" using p by (simp add: word_less_nat_alt)
    with False "1.prems" show ?thesis
      by (subst calculateNormalizeShift.simps) auto
  qed
qed

section \<open>Well-formed wheels\<close>

definition wheel_ok :: "'k wheel \<Rightarrow> bool" where
  "wheel_ok w \<longleftrightarrow> normalizeShift w \<le> 31
     \<and> length (buckets w) = 2 ^ normalizeShift w
     \<and> wheel_mask w = mask (normalizeShift w)
     \<and> ticksPerWheel w = push_bit (normalizeShift w) 1
     \<and> msPerTick w \<noteq> 0
     \<and> (\<forall>i < length (buckets w). distinct (buckets w ! i)
          \<and> (\<forall>a \<in> set (buckets w ! i). a < length (timeouts w)))
     \<and> (\<forall>i < length (buckets w). \<forall>j < length (buckets w).
          \<forall>a \<in> set (buckets w ! i). a \<in> set (buckets w ! j) \<longrightarrow> i = j)"

lemma minus_one_mask: "2 ^ s - 1 = (mask s :: u32)"
  by (simp add: mask_eq_exp_minus_1)

lemma new_wheel_ok:
  assumes "ms \<noteq> 0" and "new_HashedWheelTimer ms tpw = Inr w" and "tpw \<le> 2 ^ 31"
  shows "wheel_ok w" and "unat tpw \<le> length (buckets w)"
    and "timeouts w = []" and "ticked w = 0" and "msPerTick w = ms"
proof -
  have "\<exists>s. calculateNormalizeShift tpw 0 = Inr s \<and> s \<le> 31 \<and> unat tpw \<le> 2 ^ s
      \<and> (\<forall>j < s. 2 ^ j < unat tpw)"
    by (rule calculateNormalizeShift_spec) (use assms(3) in simp_all)
  then obtain s where s: "calculateNormalizeShift tpw 0 = Inr s" "s \<le> 31" "unat tpw \<le> 2 ^ s"
    by blast
  with assms show "wheel_ok w" and "unat tpw \<le> length (buckets w)"
    and "timeouts w = []" and "ticked w = 0" and "msPerTick w = ms"
    by (auto simp: new_HashedWheelTimer_def wheel_ok_def minus_one_mask Let_def)
qed

text \<open>The bucket visited by the next tick.\<close>

definition hand :: "'k wheel \<Rightarrow> nat" where
  "hand w = unat (ticked w AND ucast (wheel_mask w))"

lemma unat_and_mask:
  fixes x :: "'a::len word"
  shows "unat (x AND mask s) = unat x mod 2 ^ s"
  by (simp only: take_bit_eq_mask [symmetric] unsigned_take_bit_eq) (simp add: take_bit_eq_mod)

lemma ucast_mask64: "s \<le> 31 \<Longrightarrow> (ucast (mask s :: u32) :: u64) = mask s"
  by (rule bit_word_eqI) (auto simp: bit_simps)

lemma hand_eq: "wheel_ok w \<Longrightarrow> hand w = unat (ticked w) mod length (buckets w)"
  by (simp add: hand_def wheel_ok_def ucast_mask64 unat_and_mask)

lemma hand_bound: "wheel_ok w \<Longrightarrow> hand w < length (buckets w)"
  by (simp add: hand_eq) (simp add: wheel_ok_def)

text \<open>The counter wraps at \<open>2 ^ 64\<close>, a multiple of the number of buckets.\<close>

lemma ticked_Suc_mod:
  assumes "s \<le> 31"
  shows "unat (x + 1 :: u64) mod 2 ^ s = Suc (unat x) mod 2 ^ s"
proof -
  have "(2::nat) ^ s dvd 2 ^ 64"
    using assms by (intro le_imp_power_dvd) simp
  then have "(unat x + 1) mod 2 ^ 64 mod 2 ^ s = (unat x + 1) mod 2 ^ s"
    by (rule mod_mod_cancel)
  then show ?thesis by (simp add: unat_word_ariths)
qed

section \<open>One visit\<close>

text \<open>What a visit does to each timeout of the bucket.\<close>

definition visit :: "'k timeout \<Rightarrow> 'k timeout" where
  "visit t = (if remainingRounds t = 0 then fst (expire t)
     else if isCancelled t then t
     else t\<lparr>remainingRounds := remainingRounds t - 1\<rparr>)"

definition stays :: "'k timeout \<Rightarrow> bool" where
  "stays t \<longleftrightarrow> remainingRounds t \<noteq> 0 \<and> \<not> isCancelled t"

definition fires :: "'k timeout \<Rightarrow> 'k list" where
  "fires t = (if remainingRounds t = 0 then snd (expire t) else [])"

definition visit_all :: "'k timeout list \<Rightarrow> nat list \<Rightarrow> 'k timeout list" where
  "visit_all st as = map (\<lambda>a. if a \<in> set as then visit (st ! a) else st ! a) [0..<length st]"

lemma length_visit_all [simp]: "length (visit_all st as) = length st"
  by (simp add: visit_all_def)

lemma nth_visit_all:
  "a < length st \<Longrightarrow> visit_all st as ! a = (if a \<in> set as then visit (st ! a) else st ! a)"
  by (simp add: visit_all_def)

lemma visit_all_Cons:
  "a \<notin> set as \<Longrightarrow> visit_all (st[a := visit (st ! a)]) as = visit_all st (a # as)"
proof (rule nth_equalityI)
  fix i
  assume "a \<notin> set as" and "i < length (visit_all (st[a := visit (st ! a)]) as)"
  then show "visit_all (st[a := visit (st ! a)]) as ! i = visit_all st (a # as) ! i"
    by (cases "i = a") (auto simp: nth_visit_all)
qed simp

lemma decreaseRounds_eq:
  "remainingRounds t \<noteq> 0 \<Longrightarrow>
    decreaseRounds t = Inr (t\<lparr>remainingRounds := remainingRounds t - 1\<rparr>)"
  by (simp add: decreaseRounds_def word_neq_0_conv)

lemma expireTimeouts_eq:
  "distinct as \<Longrightarrow> \<forall>a \<in> set as. a < length st \<Longrightarrow>
    expireTimeouts st as = Inr (visit_all st as, filter (\<lambda>a. stays (st ! a)) as,
      concat (map (\<lambda>a. map (Pair a) (fires (st ! a))) as))"
proof (induction as arbitrary: st)
  case Nil
  then show ?case by (simp add: visit_all_def map_nth)
next
  case (Cons a as)
  let ?t = "visit (st ! a)"
  from Cons.prems have a: "a \<notin> set as" "a < length st" and d: "distinct as"
    "\<forall>b \<in> set as. b < length (st[a := ?t])" by auto
  from a have "filter (\<lambda>b. stays (st[a := ?t] ! b)) as = filter (\<lambda>b. stays (st ! b)) as"
    and "map (\<lambda>b. map (Pair b) (fires (st[a := ?t] ! b))) as
      = map (\<lambda>b. map (Pair b) (fires (st ! b))) as"
    by (auto intro!: filter_cong map_cong simp: nth_list_update)
  with Cons.IH [OF d] visit_all_Cons [OF a(1)] have IH:
    "expireTimeouts (st[a := ?t]) as = Inr (visit_all st (a # as),
       filter (\<lambda>a. stays (st ! a)) as, concat (map (\<lambda>a. map (Pair a) (fires (st ! a))) as))"
    by simp
  consider "remainingRounds (st ! a) = 0" | "remainingRounds (st ! a) \<noteq> 0" "isCancelled (st ! a)"
    | "remainingRounds (st ! a) \<noteq> 0" "\<not> isCancelled (st ! a)" by blast
  then show ?case
  proof cases
    case 1
    with IH show ?thesis
      by (simp add: visit_def stays_def fires_def Let_def split_beta)
  next
    case 2
    then have "?t = st ! a" by (simp add: visit_def)
    with 2 IH show ?thesis by (simp add: stays_def fires_def)
  next
    case 3
    with IH show ?thesis by (simp add: visit_def stays_def fires_def decreaseRounds_eq)
  qed
qed

text \<open>The wheel after a tick.\<close>

definition ticked_wheel :: "'k wheel \<Rightarrow> 'k wheel" where
  "ticked_wheel w =
     w\<lparr>timeouts := visit_all (timeouts w) (buckets w ! hand w),
       buckets := (buckets w)[hand w := filter (\<lambda>a. stays (timeouts w ! a)) (buckets w ! hand w)],
       ticked := ticked w + 1\<rparr>"

definition tick_fires :: "'k wheel \<Rightarrow> (nat \<times> 'k) list" where
  "tick_fires w = concat (map (\<lambda>a. map (Pair a) (fires (timeouts w ! a))) (buckets w ! hand w))"

lemma wheel_bucket:
  assumes "wheel_ok w" and "i < length (buckets w)"
  shows "distinct (buckets w ! i)" and "\<forall>a \<in> set (buckets w ! i). a < length (timeouts w)"
  using assms by (simp_all add: wheel_ok_def)

lemma tick_eq: "wheel_ok w \<Longrightarrow> tick w = Inr (ticked_wheel w, tick_fires w)"
  using hand_bound [of w] wheel_bucket [of w "hand w"]
  by (simp add: tick_def expireTimeouts_eq ticked_wheel_def tick_fires_def Let_def flip: hand_def)

text \<open>No timeout is in two buckets.\<close>

lemma bucket_unique:
  assumes "wheel_ok w" and "i < length (buckets w)" and "j < length (buckets w)"
    and "a \<in> set (buckets w ! i)" and "a \<in> set (buckets w ! j)"
  shows "i = j"
  using assms unfolding wheel_ok_def by blast

section \<open>Alarms\<close>

text \<open>
  The abstract view of a wheel: which timeouts are armed, in how many ticks each runs its
  task, and the task.
\<close>

definition bucket_of :: "'k wheel \<Rightarrow> nat \<Rightarrow> nat option" where
  "bucket_of w a = find (\<lambda>i. a \<in> set (buckets w ! i)) [0..<length (buckets w)]"

text \<open>Ticks until bucket \<open>i\<close> of \<open>n\<close> is visited when the hand is at \<open>h\<close>.\<close>

definition dist :: "nat \<Rightarrow> nat \<Rightarrow> nat \<Rightarrow> nat" where
  "dist n h i = (if h \<le> i then i - h else n - h + i)"

definition alarm :: "'k wheel \<Rightarrow> nat \<Rightarrow> 'k timeout \<Rightarrow> (nat \<times> 'k) option" where
  "alarm w i t =
     (if to_state t = ST_INIT
      then (case to_task t of
          Run k \<Rightarrow> Some (dist (length (buckets w)) (hand w) i
                      + length (buckets w) * unat (remainingRounds t), k)
        | _ \<Rightarrow> None)
      else None)"

definition due :: "'k wheel \<Rightarrow> nat \<Rightarrow> (nat \<times> 'k) option" where
  "due w a = (case bucket_of w a of None \<Rightarrow> None | Some i \<Rightarrow> alarm w i (timeouts w ! a))"

lemma bucket_of_Some:
  assumes "wheel_ok w"
  shows "bucket_of w a = Some i \<longleftrightarrow> i < length (buckets w) \<and> a \<in> set (buckets w ! i)"
proof
  assume "bucket_of w a = Some i"
  then show "i < length (buckets w) \<and> a \<in> set (buckets w ! i)"
    by (auto simp: bucket_of_def find_Some_iff)
next
  assume i: "i < length (buckets w) \<and> a \<in> set (buckets w ! i)"
  then have "bucket_of w a \<noteq> None"
    by (auto simp: bucket_of_def find_None_iff)
  then obtain j where j: "bucket_of w a = Some j" by auto
  then have "j < length (buckets w) \<and> a \<in> set (buckets w ! j)"
    by (auto simp: bucket_of_def find_Some_iff)
  with i bucket_unique [OF assms] j show "bucket_of w a = Some i" by blast
qed

lemma bucket_of_None:
  "bucket_of w a = None \<longleftrightarrow> (\<forall>i < length (buckets w). a \<notin> set (buckets w ! i))"
  by (auto simp: bucket_of_def find_None_iff)

lemma bucket_of_address: "wheel_ok w \<Longrightarrow> bucket_of w a = Some i \<Longrightarrow> a < length (timeouts w)"
  using bucket_of_Some [of w a i] wheel_bucket(2) [of w i] by blast

lemma ticked_wheel_ok: "wheel_ok w \<Longrightarrow> wheel_ok (ticked_wheel w)"
proof -
  assume ok: "wheel_ok w"
  let ?b = "(buckets w)[hand w := filter (\<lambda>a. stays (timeouts w ! a)) (buckets w ! hand w)]"
  have sub: "set (?b ! i) \<subseteq> set (buckets w ! i) \<and> distinct (?b ! i)"
    if "i < length (buckets w)" for i
    using that wheel_bucket(1) [OF ok that] by (cases "i = hand w") auto
  with wheel_bucket [OF ok] bucket_unique [OF ok] have
    "\<forall>i < length (buckets w). distinct (?b ! i) \<and> (\<forall>a \<in> set (?b ! i). a < length (timeouts w))"
    "\<forall>i < length (buckets w). \<forall>j < length (buckets w).
      \<forall>a \<in> set (?b ! i). a \<in> set (?b ! j) \<longrightarrow> i = j"
    by blast+
  with ok show ?thesis by (simp add: wheel_ok_def ticked_wheel_def)
qed

lemma hand_ticked:
  assumes "wheel_ok w"
  shows "hand (ticked_wheel w) = Suc (hand w) mod length (buckets w)"
proof -
  from assms have l: "length (buckets w) = 2 ^ normalizeShift w" "normalizeShift w \<le> 31"
    by (auto simp: wheel_ok_def)
  have "hand (ticked_wheel w) = unat (ticked w + 1) mod length (buckets w)"
    by (subst hand_eq [OF ticked_wheel_ok [OF assms]]) (simp add: ticked_wheel_def)
  also have "\<dots> = Suc (unat (ticked w)) mod length (buckets w)"
    unfolding l(1) by (rule ticked_Suc_mod [OF l(2)])
  also have "\<dots> = Suc (hand w) mod length (buckets w)"
    by (simp add: hand_eq [OF assms] mod_Suc_eq)
  finally show ?thesis .
qed

lemma dist_ticked:
  assumes "h < n" and "i < n"
  shows "i \<noteq> h \<Longrightarrow> dist n h i = Suc (dist n (Suc h mod n) i)"
    and "dist n (Suc h mod n) h = n - 1" and "dist n h h = 0" and "dist n h i < n"
  using assms by (auto simp: dist_def mod_Suc)

lemma bucket_of_ticked:
  assumes "wheel_ok w"
  shows "bucket_of (ticked_wheel w) a =
    (if bucket_of w a = Some (hand w) \<and> \<not> stays (timeouts w ! a) then None else bucket_of w a)"
proof -
  note T = bucket_of_Some [OF ticked_wheel_ok [OF assms]] bucket_of_Some [OF assms]
  have l: "length (buckets (ticked_wheel w)) = length (buckets w)"
    by (simp add: ticked_wheel_def)
  have m: "a \<in> set (buckets (ticked_wheel w) ! i) \<longleftrightarrow>
      a \<in> set (buckets w ! i) \<and> (i = hand w \<longrightarrow> stays (timeouts w ! a))"
    if "i < length (buckets w)" for i
    using that by (cases "i = hand w") (auto simp: ticked_wheel_def)
  show ?thesis
  proof (cases "bucket_of w a")
    case None
    then have "bucket_of (ticked_wheel w) a = None"
      using m by (auto simp: bucket_of_None l)
    with None show ?thesis by simp
  next
    case (Some i)
    then have i: "i < length (buckets w)" "a \<in> set (buckets w ! i)" by (simp_all add: T)
    show ?thesis
    proof (cases "i = hand w \<and> \<not> stays (timeouts w ! a)")
      case True
      have "a \<notin> set (buckets (ticked_wheel w) ! j)" if "j < length (buckets w)" for j
        using m [OF that] bucket_unique [OF assms i(1) that i(2)] True by auto
      then have "bucket_of (ticked_wheel w) a = None" by (auto simp: bucket_of_None l)
      with True Some show ?thesis by simp
    next
      case False
      with m [OF i(1)] i have "bucket_of (ticked_wheel w) a = Some i" by (auto simp: T l)
      with False Some show ?thesis by auto
    qed
  qed
qed

lemma unat_pred: "r \<noteq> 0 \<Longrightarrow> unat (r - 1 :: 'a::len word) = unat r - 1"
  by (simp add: unat_minus_one)

lemma alarm_elsewhere:
  assumes "wheel_ok w" and "i < length (buckets w)" and "i \<noteq> hand w" and "a \<in> set (buckets w ! i)"
  shows "due (ticked_wheel w) a = (case due w a of Some (Suc d, k) \<Rightarrow> Some (d, k) | _ \<Rightarrow> None)"
proof -
  have b: "bucket_of w a = Some i" using assms by (simp add: bucket_of_Some)
  with assms(3) have b': "bucket_of (ticked_wheel w) a = Some i"
    by (simp add: bucket_of_ticked [OF assms(1)])
  have "a \<notin> set (buckets w ! hand w)"
    using bucket_unique [OF assms(1,2) hand_bound [OF assms(1)] assms(4)] assms(3) by blast
  then have t: "timeouts (ticked_wheel w) ! a = timeouts w ! a"
    using bucket_of_address [OF assms(1) b] by (simp add: ticked_wheel_def nth_visit_all)
  have l: "length (buckets (ticked_wheel w)) = length (buckets w)" by (simp add: ticked_wheel_def)
  show ?thesis
    using dist_ticked(1) [OF hand_bound [OF assms(1)] assms(2,3)]
    by (simp add: due_def b b' alarm_def l t hand_ticked [OF assms(1)] split: task.split)
qed

lemma alarm_here:
  assumes "wheel_ok w" and "a \<in> set (buckets w ! hand w)"
  shows "due (ticked_wheel w) a = (case due w a of Some (Suc d, k) \<Rightarrow> Some (d, k) | _ \<Rightarrow> None)"
proof -
  let ?n = "length (buckets w)"
  let ?t = "timeouts w ! a"
  note h = hand_bound [OF assms(1)]
  have b: "bucket_of w a = Some (hand w)" using assms h by (simp add: bucket_of_Some)
  have a: "a < length (timeouts w)" by (rule bucket_of_address [OF assms(1) b])
  have l: "length (buckets (ticked_wheel w)) = ?n" by (simp add: ticked_wheel_def)
  have old: "due w a = alarm w (hand w) ?t" by (simp add: due_def b)
  show ?thesis
  proof (cases "stays ?t")
    case False
    then have "due (ticked_wheel w) a = None"
      by (simp add: due_def bucket_of_ticked [OF assms(1)] b)
    with False old show ?thesis
      by (auto simp: stays_def alarm_def isCancelled_def dist_ticked(3) [OF h h]
          split: task.split)
  next
    case True
    then have r: "remainingRounds ?t \<noteq> 0" and c: "\<not> isCancelled ?t" by (simp_all add: stays_def)
    have b': "bucket_of (ticked_wheel w) a = Some (hand w)"
      using True by (simp add: bucket_of_ticked [OF assms(1)] b)
    have t: "timeouts (ticked_wheel w) ! a = ?t\<lparr>remainingRounds := remainingRounds ?t - 1\<rparr>"
      using assms(2) a r c by (simp add: ticked_wheel_def nth_visit_all visit_def)
    obtain m where m: "unat (remainingRounds ?t) = Suc m"
      using r by (metis not0_implies_Suc unat_0_iff)
    with r have m': "unat (remainingRounds ?t - 1) = m" by (simp add: unat_pred)
    from h obtain q where q: "?n = Suc q" by (cases ?n) simp_all
    then have e: "?n - 1 + ?n * m = ?n * Suc m - 1" and "?n * Suc m = Suc (?n * Suc m - 1)"
      by simp_all
    have new: "due (ticked_wheel w) a
        = alarm (ticked_wheel w) (hand w) (?t\<lparr>remainingRounds := remainingRounds ?t - 1\<rparr>)"
      by (simp add: due_def b' t)
    show ?thesis
      unfolding new old alarm_def l hand_ticked [OF assms(1)]
      using m m' e \<open>?n * Suc m = Suc _\<close> dist_ticked(2,3) [OF h h] q
      by (auto split: task.split nat.split)
  qed
qed

text \<open>A tick lowers every alarm by one; the alarms at zero run and are gone.\<close>

lemma due_ticked:
  assumes "wheel_ok w"
  shows "due (ticked_wheel w) a = (case due w a of Some (Suc d, k) \<Rightarrow> Some (d, k) | _ \<Rightarrow> None)"
proof (cases "bucket_of w a")
  case None
  then show ?thesis by (simp add: due_def bucket_of_ticked [OF assms])
next
  case (Some i)
  then have "i < length (buckets w)" "a \<in> set (buckets w ! i)"
    by (simp_all add: bucket_of_Some [OF assms])
  then show ?thesis using alarm_here [OF assms] alarm_elsewhere [OF assms] by (cases "i = hand w") auto
qed

lemma fires_eq:
  "k \<in> set (fires t) \<longleftrightarrow> remainingRounds t = 0 \<and> to_state t = ST_INIT \<and> to_task t = Run k"
  by (auto simp: fires_def expire_def split: task.splits)

lemma tick_fires_iff:
  assumes "wheel_ok w"
  shows "(a, k) \<in> set (tick_fires w) \<longleftrightarrow> due w a = Some (0, k)"
proof
  note h = hand_bound [OF assms]
  assume "(a, k) \<in> set (tick_fires w)"
  then have a: "a \<in> set (buckets w ! hand w)" and k: "k \<in> set (fires (timeouts w ! a))"
    by (auto simp: tick_fires_def)
  from a h have "bucket_of w a = Some (hand w)" by (simp add: bucket_of_Some [OF assms])
  with k show "due w a = Some (0, k)"
    by (simp add: due_def alarm_def fires_eq dist_ticked(3) [OF h h])
next
  note h = hand_bound [OF assms]
  assume d: "due w a = Some (0, k)"
  then obtain i where b: "bucket_of w a = Some i" and al: "alarm w i (timeouts w ! a) = Some (0, k)"
    by (auto simp: due_def split: option.splits)
  from b have i: "i < length (buckets w)" "a \<in> set (buckets w ! i)"
    by (simp_all add: bucket_of_Some [OF assms])
  from al have z: "dist (length (buckets w)) (hand w) i = 0" "remainingRounds (timeouts w ! a) = 0"
    and t: "to_state (timeouts w ! a) = ST_INIT" "to_task (timeouts w ! a) = Run k"
    using i(1) h by (auto simp: alarm_def unat_eq_0 split: if_splits task.splits)
  from z(1) h i(1) have "i = hand w" by (simp add: dist_def split: if_splits)
  with i z t show "(a, k) \<in> set (tick_fires w)"
    by (auto simp: tick_fires_def fires_eq intro!: bexI [of _ a])
qed

lemma tick_fires_distinct:
  assumes "wheel_ok w"
  shows "distinct (map fst (tick_fires w))"
proof -
  have one: "fires t = [] \<or> (\<exists>k. fires t = [k])" for t :: "'a timeout"
    by (auto simp: fires_def expire_def split: task.split)
  have "distinct (map fst (concat (map (\<lambda>a. map (Pair a) (fires (timeouts w ! a))) as)))
      \<and> fst ` set (concat (map (\<lambda>a. map (Pair a) (fires (timeouts w ! a))) as)) \<subseteq> set as"
    if "distinct as" for as
    using that
  proof (induction as)
    case Nil
    then show ?case by simp
  next
    case (Cons a as)
    then show ?case using one [of "timeouts w ! a"] by auto
  qed
  then show ?thesis
    using wheel_bucket(1) [OF assms hand_bound [OF assms]] by (simp add: tick_fires_def)
qed

section \<open>Adding and cancelling\<close>

lemma convert_total: "msPerTick w \<noteq> 0 \<Longrightarrow> \<exists>t. convertExpireMsToTicks w ms = Inr t"
  by (simp add: convertExpireMsToTicks_def)

lemma unat_drop_bit: "unat (drop_bit s (x :: 'a::len word)) = unat x div 2 ^ s"
  by (subst unsigned_drop_bit_eq)
    (simp add: drop_bit_eq_div take_bit_nat_eq_self [OF unsigned_less])

lemma hand_offset:
  assumes "wheel_ok w"
  shows "unat (ucast (ticked w AND ucast (wheel_mask w)) :: u32) = hand w"
proof -
  from assms have l: "length (buckets w) = 2 ^ normalizeShift w" "normalizeShift w \<le> 31"
    by (auto simp: wheel_ok_def)
  from l(2) have "(2::nat) ^ normalizeShift w \<le> 2 ^ 31" by (intro power_increasing) simp_all
  with hand_bound [OF assms] l have "hand w < 2 ^ 32" by simp
  then show ?thesis
    by (simp add: hand_def unsigned_ucast_eq take_bit_nat_eq_self)
qed

lemma slot_index:
  assumes "wheel_ok w"
  shows "unat ((t + ucast (ticked w AND ucast (wheel_mask w)) :: u32) AND wheel_mask w)
    = (unat t + hand w) mod length (buckets w)"
proof -
  from assms have l: "length (buckets w) = 2 ^ normalizeShift w" "normalizeShift w \<le> 31"
    "wheel_mask w = mask (normalizeShift w)"
    by (auto simp: wheel_ok_def)
  from l(2) have "(2::nat) ^ normalizeShift w dvd 2 ^ 32"
    by (intro le_imp_power_dvd) simp
  then have "(unat t + hand w) mod 2 ^ 32 mod 2 ^ normalizeShift w
    = (unat t + hand w) mod 2 ^ normalizeShift w"
    by (rule mod_mod_cancel)
  then show ?thesis
    using hand_offset [OF assms] by (simp add: l unat_and_mask unat_word_ariths)
qed

lemma dist_slot:
  assumes "h < n"
  shows "dist n h ((t + h) mod n) + n * (t div n) = t"
proof -
  define r where "r = t mod n"
  have r: "r < n" using assms by (simp add: r_def)
  have "(t + h) mod n = (r + h) mod n" by (simp add: r_def mod_add_left_eq)
  also have "\<dots> = (if r + h < n then r + h else r + h - n)"
    using r assms by (simp add: le_mod_geq)
  finally have "dist n h ((t + h) mod n) = t mod n"
    using r assms by (auto simp: dist_def r_def [symmetric])
  then show ?thesis by simp
qed

text \<open>The wheel \<open>addTimeout\<close> leaves.\<close>

definition added_wheel :: "'k wheel \<Rightarrow> 'k task \<Rightarrow> u32 \<Rightarrow> 'k wheel" where
  "added_wheel w task t =
     (let i = (unat t + hand w) mod length (buckets w) in
      w\<lparr>timeouts := timeouts w @ [new_timeout (drop_bit (normalizeShift w) t) (ucast t) task],
        buckets := (buckets w)[i := buckets w ! i @ [length (timeouts w)]]\<rparr>)"

lemma buckets_nonempty: "wheel_ok w \<Longrightarrow> 0 < length (buckets w)"
  using hand_bound [of w] by linarith

lemma addTimeout_eq:
  assumes "wheel_ok w" and "convertExpireMsToTicks w ms = Inr t"
  shows "addTimeout w task ms = Inr (added_wheel w task t, length (timeouts w))"
  using buckets_nonempty [OF assms(1)]
  by (simp add: addTimeout_def assms(2) slot_index [OF assms(1)] added_wheel_def Let_def)

lemma added_bucket:
  assumes "wheel_ok w" and "j < length (buckets w)"
  shows "buckets (added_wheel w task t) ! j =
    (if j = (unat t + hand w) mod length (buckets w)
     then buckets w ! j @ [length (timeouts w)] else buckets w ! j)"
  using assms(2) by (simp add: added_wheel_def Let_def)

lemma added_lengths [simp]:
  "length (buckets (added_wheel w task t)) = length (buckets w)"
  "length (timeouts (added_wheel w task t)) = Suc (length (timeouts w))"
  "ticked (added_wheel w task t) = ticked w"
  "wheel_mask (added_wheel w task t) = wheel_mask w"
  "msPerTick (added_wheel w task t) = msPerTick w"
  "normalizeShift (added_wheel w task t) = normalizeShift w"
  "ticksPerWheel (added_wheel w task t) = ticksPerWheel w"
  by (simp_all add: added_wheel_def Let_def)

lemma added_wheel_ok:
  assumes "wheel_ok w"
  shows "wheel_ok (added_wheel w task t)"
proof -
  let ?w = "added_wheel w task t" and ?n = "length (buckets w)" and ?a = "length (timeouts w)"
  have fresh: "?a \<notin> set (buckets w ! j)" if "j < ?n" for j
    using wheel_bucket(2) [OF assms that] by blast
  have "distinct (buckets ?w ! j) \<and> (\<forall>a \<in> set (buckets ?w ! j). a < length (timeouts ?w))"
    if "j < ?n" for j
    using wheel_bucket [OF assms that] fresh [OF that]
    by (auto simp: added_bucket [OF assms that] less_SucI)
  moreover have "i = j" if "i < ?n" "j < ?n" "a \<in> set (buckets ?w ! i)" "a \<in> set (buckets ?w ! j)"
    for i j a
    using that(3,4) fresh [OF that(1)] fresh [OF that(2)] bucket_unique [OF assms that(1,2)]
    by (auto simp: added_bucket [OF assms that(1)] added_bucket [OF assms that(2)]
        split: if_splits)
  ultimately show ?thesis
    using assms unfolding wheel_ok_def added_lengths by (intro conjI) (blast | simp)+
qed

text \<open>A new timeout rings after the number of ticks its milliseconds amount to.\<close>

lemma hand_added [simp]: "hand (added_wheel w task t) = hand w"
  by (simp add: hand_def)

lemma added_timeout:
  "timeouts (added_wheel w task t) =
    timeouts w @ [new_timeout (drop_bit (normalizeShift w) t) (ucast t) task]"
  by (simp add: added_wheel_def Let_def)

lemma bucket_of_added:
  assumes "wheel_ok w"
  shows "bucket_of (added_wheel w task t) a =
    (if a = length (timeouts w) then Some ((unat t + hand w) mod length (buckets w))
     else bucket_of w a)"
proof (cases "a = length (timeouts w)")
  case True
  then show ?thesis
    using buckets_nonempty [OF assms]
    by (simp add: bucket_of_Some [OF added_wheel_ok [OF assms]] added_bucket [OF assms])
next
  case False
  then have "a \<in> set (buckets (added_wheel w task t) ! j) \<longleftrightarrow> a \<in> set (buckets w ! j)"
    if "j < length (buckets w)" for j
    by (simp add: added_bucket [OF assms that])
  then have "bucket_of (added_wheel w task t) a = Some i \<longleftrightarrow> bucket_of w a = Some i" for i
    by (auto simp: bucket_of_Some [OF assms] bucket_of_Some [OF added_wheel_ok [OF assms]])
  then have "bucket_of (added_wheel w task t) a = bucket_of w a"
    by (metis option.exhaust)
  with False show ?thesis by simp
qed

lemma due_added:
  assumes "wheel_ok w"
  shows "due (added_wheel w (Run k) t) a =
    (if a = length (timeouts w) then Some (unat t, k) else due w a)"
proof (cases "a = length (timeouts w)")
  case True
  have n: "length (buckets w) = 2 ^ normalizeShift w" using assms by (simp add: wheel_ok_def)
  from True show ?thesis
    using dist_slot [OF hand_bound [OF assms], of "unat t"]
    by (simp add: due_def bucket_of_added [OF assms] alarm_def added_timeout new_timeout_def
        unat_drop_bit n)
next
  case False
  have "due (added_wheel w (Run k) t) a = due w a"
  proof (cases "bucket_of w a")
    case None
    with False show ?thesis by (simp add: due_def bucket_of_added [OF assms])
  next
    case (Some i)
    with False bucket_of_address [OF assms Some] show ?thesis
      by (simp add: due_def bucket_of_added [OF assms] alarm_def added_timeout nth_append
          split: task.split)
  qed
  with False show ?thesis by simp
qed

lemma cancel_fields [simp]:
  "buckets (cancel w a) = buckets w" "ticked (cancel w a) = ticked w"
  "length (timeouts (cancel w a)) = length (timeouts w)"
  "wheel_mask (cancel w a) = wheel_mask w" "msPerTick (cancel w a) = msPerTick w"
  "normalizeShift (cancel w a) = normalizeShift w" "ticksPerWheel (cancel w a) = ticksPerWheel w"
  by (simp_all add: cancel_def)

lemma cancel_wheel_ok: "wheel_ok w \<Longrightarrow> wheel_ok (cancel w a)"
  by (simp add: wheel_ok_def)

lemma due_cancel:
  assumes "wheel_ok w"
  shows "due (cancel w a) b = (if b = a then None else due w b)"
proof -
  have b: "bucket_of (cancel w a) b = bucket_of w b" by (simp add: bucket_of_def)
  have h: "hand (cancel w a) = hand w" by (simp add: hand_def)
  show ?thesis
  proof (cases "bucket_of w b")
    case None
    then show ?thesis by (simp add: due_def b)
  next
    case (Some i)
    note ad = bucket_of_address [OF assms Some]
    have "timeouts (cancel w a) ! b
      = (if b = a then cancel_timeout (timeouts w ! a) else timeouts w ! b)"
      using ad by (simp add: cancel_def nth_list_update)
    then show ?thesis
      by (simp add: due_def b Some alarm_def h cancel_timeout_def split: task.split)
  qed
qed

section \<open>The contract of a timer\<close>

text \<open>
  What the client of a timer does: let it tick, add a timeout, cancel one. A run yields, for
  each tick, the timeouts that rang with their tasks.
\<close>

datatype 'k timer_op = Tick | Add 'k u64 | Cancel nat

fun run_timer :: "('s \<Rightarrow> ('s \<times> (nat \<times> 'k) list) res) \<Rightarrow> ('s \<Rightarrow> 'k \<Rightarrow> u64 \<Rightarrow> ('s \<times> nat) res)
    \<Rightarrow> ('s \<Rightarrow> nat \<Rightarrow> 's) \<Rightarrow> 'k timer_op list \<Rightarrow> 's \<Rightarrow> ('s \<times> (nat \<times> 'k) list list) res" where
  "run_timer tk ad ca [] s = Inr (s, [])"
| "run_timer tk ad ca (Tick # es) s =
     bind_res (tk s) (\<lambda>(s', f). bind_res (run_timer tk ad ca es s') (\<lambda>(s'', fs). Inr (s'', f # fs)))"
| "run_timer tk ad ca (Add k ms # es) s =
     bind_res (ad s k ms) (\<lambda>(s', a). run_timer tk ad ca es s')"
| "run_timer tk ad ca (Cancel a # es) s = run_timer tk ad ca es (ca s a)"

text \<open>The abstract effect of a tick on one alarm: one tick less to go, gone when it was zero.\<close>

definition count_down :: "(nat \<times> 'k) option \<Rightarrow> (nat \<times> 'k) option" where
  "count_down d = (case d of Some (Suc n, k) \<Rightarrow> Some (n, k) | _ \<Rightarrow> None)"

lemma count_down_Some [simp]: "count_down d = Some (n, k) \<longleftrightarrow> d = Some (Suc n, k)"
  by (cases d) (auto simp: count_down_def split: nat.splits)

locale timer =
  fixes tk :: "'s \<Rightarrow> ('s \<times> (nat \<times> 'k) list) res"
    and ad :: "'s \<Rightarrow> 'k \<Rightarrow> u64 \<Rightarrow> ('s \<times> nat) res"
    and ca :: "'s \<Rightarrow> nat \<Rightarrow> 's"
    and invar :: "'s \<Rightarrow> bool"
    and alarms :: "'s \<Rightarrow> nat \<Rightarrow> (nat \<times> 'k) option"
    and issued :: "'s \<Rightarrow> nat"
    and ticks_of :: "'s \<Rightarrow> u64 \<Rightarrow> nat"
  assumes tick_law: "invar s \<Longrightarrow> \<exists>s' f. tk s = Inr (s', f) \<and> invar s'
      \<and> issued s' = issued s \<and> (\<forall>ms. ticks_of s' ms = ticks_of s ms)
      \<and> (\<forall>a. alarms s' a = count_down (alarms s a))
      \<and> (\<forall>a k. (a, k) \<in> set f \<longleftrightarrow> alarms s a = Some (0, k)) \<and> distinct (map fst f)"
    and add_law: "invar s \<Longrightarrow> \<exists>s'. ad s k ms = Inr (s', issued s) \<and> invar s'
      \<and> issued s' = Suc (issued s) \<and> (\<forall>ms. ticks_of s' ms = ticks_of s ms)
      \<and> alarms s' = (alarms s)(issued s \<mapsto> (ticks_of s ms, k))"
    and cancel_law: "invar s \<Longrightarrow> invar (ca s a) \<and> issued (ca s a) = issued s
      \<and> (\<forall>ms. ticks_of (ca s a) ms = ticks_of s ms)
      \<and> alarms (ca s a) = (alarms s)(a := None)"
    and issued_law: "invar s \<Longrightarrow> issued s \<le> a \<Longrightarrow> alarms s a = None"
begin

lemma run_total:
  "invar s \<Longrightarrow> \<exists>s' fs. run_timer tk ad ca es s = Inr (s', fs) \<and> invar s' \<and> issued s \<le> issued s'
    \<and> (\<forall>ms. ticks_of s' ms = ticks_of s ms) \<and> (\<forall>f \<in> set fs. distinct (map fst f))
    \<and> length fs = length (filter (\<lambda>e. e = Tick) es)"
proof (induction es arbitrary: s)
  case Nil
  then show ?case by simp
next
  case (Cons e es)
  show ?case
  proof (cases e)
    case Tick
    from tick_law [OF Cons.prems] obtain s1 f where t: "tk s = Inr (s1, f)" "invar s1"
      "issued s1 = issued s" "\<forall>ms. ticks_of s1 ms = ticks_of s ms" "distinct (map fst f)" by blast
    with Cons.IH [OF t(2)] Tick show ?thesis by force
  next
    case (Add k ms)
    from add_law [OF Cons.prems, of k ms] obtain s1 where t: "ad s k ms = Inr (s1, issued s)"
      "invar s1" "issued s1 = Suc (issued s)" "\<forall>ms. ticks_of s1 ms = ticks_of s ms" by blast
    from Cons.IH [OF t(2)] obtain s' fs where "run_timer tk ad ca es s1 = Inr (s', fs)" "invar s'"
      "issued s1 \<le> issued s'" "\<forall>ms. ticks_of s' ms = ticks_of s1 ms"
      "\<forall>f \<in> set fs. distinct (map fst f)" "length fs = length (filter (\<lambda>e. e = Tick) es)"
      by blast
    with t Add show ?thesis by simp
  next
    case (Cancel a)
    with cancel_law [OF Cons.prems, of a] Cons.IH [of "ca s a"] show ?thesis by simp
  qed
qed

text \<open>
  Over any run that does not cancel it, a timeout already issued rings in exactly the tick its
  alarm names, and in no other.
\<close>

lemma rings_iff_due:
  assumes "invar s" and "a < issued s" and "run_timer tk ad ca es s = Inr (s', fs)"
    and "Cancel a \<notin> set es" and "j < length fs"
  shows "(a, k) \<in> set (fs ! j) \<longleftrightarrow> alarms s a = Some (j, k)"
  using assms
proof (induction es arbitrary: s fs j)
  case Nil
  then show ?case by simp
next
  case (Cons e es)
  show ?case
  proof (cases e)
    case Tick
    from tick_law [OF Cons.prems(1)] obtain s1 f where t: "tk s = Inr (s1, f)" "invar s1"
      "issued s1 = issued s" "\<forall>a. alarms s1 a = count_down (alarms s a)"
      "\<forall>a k. (a, k) \<in> set f \<longleftrightarrow> alarms s a = Some (0, k)" by blast
    with Cons.prems(3) Tick obtain fs1 where r: "run_timer tk ad ca es s1 = Inr (s', fs1)"
      "fs = f # fs1" by auto
    show ?thesis
    proof (cases j)
      case 0
      with t r show ?thesis by simp
    next
      case (Suc i)
      with Cons.IH [OF t(2) _ r(1), of i] Cons.prems t(3,4) r(2) show ?thesis by simp
    qed
  next
    case (Add q ms)
    from add_law [OF Cons.prems(1), of q ms] obtain s1 where t: "ad s q ms = Inr (s1, issued s)"
      "invar s1" "issued s1 = Suc (issued s)"
      "alarms s1 = (alarms s)(issued s \<mapsto> (ticks_of s ms, q))" by blast
    with Cons.prems(3) Add have r: "run_timer tk ad ca es s1 = Inr (s', fs)" by simp
    show ?thesis
      using Cons.IH [OF t(2) _ r, of j] Cons.prems(2,4,5) t(3,4) by simp
  next
    case (Cancel b)
    with Cons.prems(4) have "b \<noteq> a" by auto
    with Cancel cancel_law [OF Cons.prems(1), of b] Cons.IH [of "ca s b" fs j] Cons.prems
    show ?thesis by simp
  qed
qed

text \<open>Once its alarm is off, a timeout never rings again, cancelled again or not.\<close>

lemma silent:
  assumes "invar s" and "a < issued s" and "run_timer tk ad ca es s = Inr (s', fs)"
    and "alarms s a = None" and "f \<in> set fs"
  shows "a \<notin> fst ` set f"
  using assms
proof (induction es arbitrary: s fs)
  case Nil
  then show ?case by simp
next
  case (Cons e es)
  show ?case
  proof (cases e)
    case Tick
    from tick_law [OF Cons.prems(1)] obtain s1 g where t: "tk s = Inr (s1, g)" "invar s1"
      "issued s1 = issued s" "\<forall>a. alarms s1 a = count_down (alarms s a)"
      "\<forall>a k. (a, k) \<in> set g \<longleftrightarrow> alarms s a = Some (0, k)" by blast
    with Cons.prems(3) Tick obtain fs1 where r: "run_timer tk ad ca es s1 = Inr (s', fs1)"
      "fs = g # fs1" by auto
    have "alarms s1 a = None" using t(4) Cons.prems(4) by (simp add: count_down_def)
    with Cons.IH [OF t(2) _ r(1)] Cons.prems t(3,5) r(2) show ?thesis by auto
  next
    case (Add q ms)
    from add_law [OF Cons.prems(1), of q ms] obtain s1 where t: "ad s q ms = Inr (s1, issued s)"
      "invar s1" "issued s1 = Suc (issued s)"
      "alarms s1 = (alarms s)(issued s \<mapsto> (ticks_of s ms, q))" by blast
    with Cons.prems(3) Add have "run_timer tk ad ca es s1 = Inr (s', fs)" by simp
    with Cons.IH [OF t(2)] Cons.prems(2,4,5) t(3,4) show ?thesis by simp
  next
    case (Cancel b)
    with cancel_law [OF Cons.prems(1), of b] Cons.IH [of "ca s b" fs] Cons.prems
    show ?thesis by simp
  qed
qed

end

section \<open>The wheel keeps the contract\<close>

definition wheel_ticks :: "'k wheel \<Rightarrow> u64 \<Rightarrow> nat" where
  "wheel_ticks w ms =
     unat (ucast ((ms + ucast (msPerTick w) - 1) div ucast (msPerTick w)) :: u32)"

lemma convert_eq:
  "msPerTick w \<noteq> 0 \<Longrightarrow> \<exists>t. convertExpireMsToTicks w ms = Inr t \<and> unat t = wheel_ticks w ms"
  by (simp add: convertExpireMsToTicks_def wheel_ticks_def)

abbreviation add_run :: "'k wheel \<Rightarrow> 'k \<Rightarrow> u64 \<Rightarrow> ('k wheel \<times> nat) res" where
  "add_run w k ms \<equiv> addTimeout w (Run k) ms"

abbreviation run_wheel where
  "run_wheel \<equiv> run_timer tick add_run cancel"

lemma due_beyond: "wheel_ok w \<Longrightarrow> length (timeouts w) \<le> a \<Longrightarrow> due w a = None"
  by (cases "bucket_of w a") (auto simp: due_def dest: bucket_of_address)

interpretation wheel: timer tick add_run cancel wheel_ok due "\<lambda>w. length (timeouts w)" wheel_ticks
proof unfold_locales
  fix s :: "'a wheel"
  assume "wheel_ok s"
  then show "\<exists>s' f. tick s = Inr (s', f) \<and> wheel_ok s'
      \<and> length (timeouts s') = length (timeouts s) \<and> (\<forall>ms. wheel_ticks s' ms = wheel_ticks s ms)
      \<and> (\<forall>a. due s' a = count_down (due s a))
      \<and> (\<forall>a k. (a, k) \<in> set f \<longleftrightarrow> due s a = Some (0, k)) \<and> distinct (map fst f)"
    by (intro exI [of _ "ticked_wheel s"] exI [of _ "tick_fires s"])
      (simp add: tick_eq ticked_wheel_ok due_ticked tick_fires_iff tick_fires_distinct
        count_down_def wheel_ticks_def, simp add: ticked_wheel_def)
next
  fix s :: "'a wheel" and k ms
  assume ok: "wheel_ok s"
  then obtain t where t: "convertExpireMsToTicks s ms = Inr t" "unat t = wheel_ticks s ms"
    using convert_eq [of s ms] by (auto simp: wheel_ok_def)
  have "wheel_ticks (added_wheel s (Run k) t) m = wheel_ticks s m" for m
    by (simp add: wheel_ticks_def)
  moreover have "due (added_wheel s (Run k) t)
      = (due s)(length (timeouts s) \<mapsto> (wheel_ticks s ms, k))"
    by (rule ext) (simp add: due_added [OF ok] t(2))
  ultimately show "\<exists>s'. add_run s k ms = Inr (s', length (timeouts s)) \<and> wheel_ok s'
      \<and> length (timeouts s') = Suc (length (timeouts s))
      \<and> (\<forall>ms. wheel_ticks s' ms = wheel_ticks s ms)
      \<and> due s' = (due s)(length (timeouts s) \<mapsto> (wheel_ticks s ms, k))"
    by (simp add: addTimeout_eq [OF ok t(1)] added_wheel_ok [OF ok])
next
  fix s :: "'a wheel" and a
  assume ok: "wheel_ok s"
  then show "wheel_ok (cancel s a) \<and> length (timeouts (cancel s a)) = length (timeouts s)
      \<and> (\<forall>ms. wheel_ticks (cancel s a) ms = wheel_ticks s ms)
      \<and> due (cancel s a) = (due s)(a := None)"
    by (simp add: cancel_wheel_ok wheel_ticks_def due_cancel fun_eq_iff)
next
  fix s :: "'a wheel" and a
  assume "wheel_ok s" and "length (timeouts s) \<le> a"
  then show "due s a = None" by (rule due_beyond)
qed

lemma ticks_ceiling:
  assumes "unat ms + unat (msPerTick w) \<le> 2 ^ 64" and "msPerTick w \<noteq> 0"
  shows "wheel_ticks w ms
    = ((unat ms + unat (msPerTick w) - 1) div unat (msPerTick w)) mod 2 ^ 32"
proof -
  have u: "unat (ucast (msPerTick w) :: u64) = unat (msPerTick w)"
    using unsigned_less [of "msPerTick w", where 'a = nat]
    by (simp add: unsigned_ucast_eq take_bit_nat_eq_self)
  have p: "0 < unat (msPerTick w)" using assms(2) by (simp add: unat_gt_0)
  have "(ms + ucast (msPerTick w) - 1 :: u64)
      = of_nat (unat ms + unat (msPerTick w) - 1)"
    using p by (simp add: of_nat_diff u [symmetric])
  moreover have "unat ms + unat (msPerTick w) - 1 < 2 ^ 64" using assms(1) p by linarith
  ultimately have "unat (ms + ucast (msPerTick w) - 1 :: u64) = unat ms + unat (msPerTick w) - 1"
    by (simp only: unsigned_of_nat) (simp add: take_bit_nat_eq_self)
  moreover have "unat (msPerTick w) mod two64 = unat (msPerTick w)"
    using unsigned_less [of "msPerTick w", where 'a = nat] by simp
  ultimately show ?thesis
    by (simp add: wheel_ticks_def unsigned_ucast_eq unat_div_distrib take_bit_eq_mod)
qed

section \<open>Properties\<close>

text \<open>C10: A timeout of \<open>d\<close> milliseconds, added at any moment of the life of a wheel and never
  cancelled, runs its task in exactly one tick: the one numbered \<open>\<lceil>d / msPerTick\<rceil>\<close> (modulo
  \<open>2 ^ 32\<close>, the width of the tick count), counting the next tick as 0. In that tick it runs
  once and with no other task, in every other tick it does not run. (The wheel has at most
  \<open>2 ^ 31\<close> ticks and a period that is not 0, and the sum that rounds \<open>d\<close> up does not wrap.)\<close>

theorem timeout_rings_once_on_time:
  assumes "new_HashedWheelTimer ms tpw = Inr w0" and "ms \<noteq> 0" and "tpw \<le> 2 ^ 31"
    and "run_wheel before w0 = Inr (w1, fs0)"
    and "addTimeout w1 (Run task) d = Inr (w2, a)"
    and "run_wheel after w2 = Inr (w3, fs)" and "Cancel a \<notin> set after"
    and "unat d + unat ms \<le> 2 ^ 64" and "j < length fs"
  shows "filter (\<lambda>p. fst p = a) (fs ! j)
    = (if j = ((unat d + unat ms - 1) div unat ms) mod 2 ^ 32 then [(a, task)] else [])"
proof (rule filter_key)
  note w0 = new_wheel_ok [OF assms(2,1,3)]
  from wheel.run_total [OF w0(1), of before] assms(4) have w1: "wheel_ok w1"
    "\<forall>m. wheel_ticks w1 m = wheel_ticks w0 m" by auto
  from wheel.add_law [OF w1(1), of task d] assms(5) have w2: "wheel_ok w2" "a < length (timeouts w2)"
    "due w2 a = Some (wheel_ticks w1 d, task)" by auto
  show "(a, k) \<in> set (fs ! j)
    \<longleftrightarrow> k = task \<and> j = ((unat d + unat ms - 1) div unat ms) mod 2 ^ 32" for k
    using wheel.rings_iff_due [OF w2(1,2) assms(6,7,9), of k] w2(3) w1(2)
      ticks_ceiling [of d w0] assms(2,8) w0(5) by auto
  show "distinct (map fst (fs ! j))"
    using wheel.run_total [OF w2(1), of after] assms(6,9) by auto
qed

theorem timeout_rings_once_on_time_witness:
  "\<exists>w0 w1 w2 w3 fs0 fs a. new_HashedWheelTimer 100 2 = Inr w0
    \<and> run_wheel [Tick, Add 1 50] w0 = Inr (w1, fs0)
    \<and> addTimeout w1 (Run (7::nat)) 350 = Inr (w2, a)
    \<and> run_wheel [Tick, Tick, Cancel (Suc a), Tick, Tick, Tick] w2 = Inr (w3, fs)
    \<and> length fs = 5 \<and> filter (\<lambda>p. fst p = a) (fs ! 4) = [(a, 7)]
    \<and> filter (\<lambda>p. fst p = a) (fs ! 3) = []"
proof -
  define w0 :: "nat wheel" where "w0 = projr (new_HashedWheelTimer 100 2)"
  have 0: "new_HashedWheelTimer 100 2 = Inr w0" unfolding w0_def by code_simp
  note ok0 = new_wheel_ok(1) [OF _ 0, simplified]
  from wheel.run_total [OF ok0, of "[Tick, Add 1 50]"] obtain w1 fs0
    where 1: "run_wheel [Tick, Add 1 50] w0 = Inr (w1, fs0)" "wheel_ok w1" by blast
  from wheel.add_law [OF 1(2), of 7 350] obtain w2 a
    where 2: "addTimeout w1 (Run 7) 350 = Inr (w2, a)" "wheel_ok w2" by blast
  from wheel.run_total [OF 2(2), of "[Tick, Tick, Cancel (Suc a), Tick, Tick, Tick]"] obtain w3 fs
    where 3: "run_wheel [Tick, Tick, Cancel (Suc a), Tick, Tick, Tick] w2 = Inr (w3, fs)"
      "length fs = 5" by auto
  note rings = timeout_rings_once_on_time [OF 0 _ _ 1(1) 2(1) 3(1)]
  from rings [of 4] rings [of 3] 3(2)
  have "filter (\<lambda>p. fst p = a) (fs ! 4) = [(a, 7)]" "filter (\<lambda>p. fst p = a) (fs ! 3) = []"
    by simp_all
  with 0 1 2 3 show ?thesis by blast
qed

text \<open>From the moment a timeout is cancelled its task never runs, whatever ticks, additions
  and cancellations follow.\<close>

theorem cancelled_never_rings:
  assumes "new_HashedWheelTimer ms tpw = Inr w0" and "ms \<noteq> 0" and "tpw \<le> 2 ^ 31"
    and "run_wheel before w0 = Inr (w1, fs0)" and "a < length (timeouts w1)"
    and "run_wheel after (cancel w1 a) = Inr (w2, fs)" and "f \<in> set fs"
  shows "a \<notin> fst ` set f"
proof -
  note w0 = new_wheel_ok [OF assms(2,1,3)]
  from wheel.run_total [OF w0(1), of before] assms(4) have w1: "wheel_ok w1" by auto
  from wheel.cancel_law [OF w1, of a] assms(5)
  show ?thesis by (intro wheel.silent [OF _ _ assms(6) _ assms(7)]) simp_all
qed

theorem cancelled_never_rings_witness:
  "\<exists>w0 w1 w2 fs0 fs a. new_HashedWheelTimer 100 4 = Inr (w0 :: nat wheel)
    \<and> addTimeout w0 (Run 5) 100 = Inr (w1, a)
    \<and> run_wheel [Tick, Tick, Tick] (cancel w1 a) = Inr (w2, fs)
    \<and> length fs = 3 \<and> a \<notin> fst ` set (fs ! 1)"
proof -
  define w0 :: "nat wheel" where "w0 = projr (new_HashedWheelTimer 100 4)"
  have 0: "new_HashedWheelTimer 100 4 = Inr w0" unfolding w0_def by code_simp
  note ok0 = new_wheel_ok(1) [OF _ 0, simplified]
  from wheel.add_law [OF ok0, of 5 100] obtain w1 a
    where 1: "addTimeout w0 (Run 5) 100 = Inr (w1, a)" "wheel_ok w1" "a < length (timeouts w1)"
    by auto
  then have r: "run_wheel [Add 5 100] w0 = Inr (w1, [])" by simp
  from wheel.cancel_law [OF 1(2), of a] wheel.run_total [of "cancel w1 a" "[Tick, Tick, Tick]"]
  obtain w2 fs where 2: "run_wheel [Tick, Tick, Tick] (cancel w1 a) = Inr (w2, fs)" "length fs = 3"
    by auto
  from 2(2) have "fs ! 1 \<in> set fs" by simp
  from cancelled_never_rings [OF 0 _ _ r 1(3) 2(1) this]
  have "a \<notin> fst ` set (fs ! 1)" by simp
  with 0 1 2 show ?thesis by blast
qed

text \<open>The constructor rounds the number of buckets up to the least power of two, for every
  wheel of at most \<open>2 ^ 31\<close> ticks, and the wheel it makes is well formed; every sequence of
  ticks, additions and cancellations then completes, keeps the wheel well formed, and rings no
  timeout twice in a tick.\<close>

theorem wheel_wellformed:
  fixes es :: "'k timer_op list"
  assumes "ms \<noteq> 0" and "tpw \<le> 2 ^ 31"
  shows "\<exists>(w :: 'k wheel) s. new_HashedWheelTimer ms tpw = Inr w \<and> length (buckets w) = 2 ^ s
    \<and> unat tpw \<le> 2 ^ s \<and> (\<forall>i < s. 2 ^ i < unat tpw)
    \<and> (\<exists>w' fs. run_wheel es w = Inr (w', fs) \<and> wheel_ok w' \<and> buckets w' \<noteq> []
         \<and> (\<forall>f \<in> set fs. distinct (map fst f)))"
proof -
  have "\<exists>s. calculateNormalizeShift tpw 0 = Inr s \<and> s \<le> 31 \<and> unat tpw \<le> 2 ^ s
      \<and> (\<forall>j < s. 2 ^ j < unat tpw)"
    by (rule calculateNormalizeShift_spec) (use assms(2) in simp_all)
  then obtain s and w :: "'k wheel" where s: "new_HashedWheelTimer ms tpw = Inr w" "length (buckets w) = 2 ^ s"
    "unat tpw \<le> 2 ^ s" "\<forall>j < s. 2 ^ j < unat tpw"
    by (auto simp: new_HashedWheelTimer_def Let_def)
  from wheel.run_total [OF new_wheel_ok(1) [OF assms(1) s(1) assms(2)], of es] obtain w' fs
    where r: "run_wheel es w = Inr (w', fs)" "wheel_ok w'" "\<forall>f \<in> set fs. distinct (map fst f)"
    by blast
  moreover from buckets_nonempty [OF r(2)] have "buckets w' \<noteq> []" by auto
  ultimately show ?thesis using s by blast
qed

theorem wheel_wellformed_witness:
  "\<exists>w :: nat wheel. new_HashedWheelTimer 100 5 = Inr w \<and> length (buckets w) = 8"
proof -
  obtain w :: "nat wheel" and s where w: "new_HashedWheelTimer 100 5 = Inr w"
    "length (buckets w) = 2 ^ s" "unat (5 :: u32) \<le> 2 ^ s" "\<forall>i < s. 2 ^ i < unat (5 :: u32)"
    using wheel_wellformed [of 100 5 "[]"] by (auto simp: word_le_nat_alt)
  have "\<not> s < 3"
  proof
    assume "s < 3"
    then have "s \<in> {0, 1, 2}" by auto
    with w(3) show False by auto
  qed
  moreover have "\<not> 3 < s" using w(4) by auto
  ultimately have "s = 3" by simp
  with w show ?thesis by auto
qed

text \<open>Asking for more than \<open>2 ^ 31\<close> ticks per wheel drives the loop of
  \<open>calculateNormalizeShift\<close> to a shift by 32, which is undefined.\<close>

theorem wheel_too_large:
  assumes "2 ^ 31 < tpw"
  shows "new_HashedWheelTimer ms tpw = Inl BadShift"
proof -
  have "calculateNormalizeShift tpw s = Inl BadShift" for s
    using assms
  proof (induction tpw s rule: calculateNormalizeShift.induct)
    case (1 tpw shift)
    show ?case
    proof (cases "32 \<le> shift")
      case False
      then have "(2::nat) ^ shift \<le> 2 ^ 31" by (intro power_increasing) simp_all
      moreover have "unat (push_bit shift 1 :: u32) = 2 ^ shift" using False by simp
      ultimately have "(push_bit shift 1 :: u32) < tpw"
        using "1.prems" by (simp add: word_less_nat_alt)
      with "1.IH" "1.prems" False show ?thesis
        by (subst calculateNormalizeShift.simps) simp
    qed (subst calculateNormalizeShift.simps, simp)
  qed
  then show ?thesis by (simp add: new_HashedWheelTimer_def)
qed

theorem wheel_too_large_witness:
  "new_HashedWheelTimer 100 3000000000 = Inl BadShift"
  by (rule wheel_too_large) (simp add: word_less_nat_alt)

end
