(* ===== verification/UdpEndpoint.thy ===== *)
theory UdpEndpoint
  imports VecBuffer Channel InetSock
begin

text \<open>
  \<^verbatim>\<open>include/UdpEndpoint.hpp\<close>: receiving datagrams, each into a buffer of its own, and
  sending the queued ones. The results of \<open>recvfrom\<close> and \<open>sendto\<close> are given, in order; a
  handler whose results are used up is where it would make its next call.
\<close>

section \<open>State\<close>

record cached_buffer =
  cb_buffer :: nat
  cb_raddr :: sockaddr_in

datatype udp_callback = Udp_handleRead | Udp_handleWrite | Udp_handleClose

record endpoint =
  u_store :: mem
  mtu :: nat
  u_rcvBuf :: nat
  sndList :: "cached_buffer list"
  u_channel :: "udp_callback channel"
  u_epoll :: interest
  u_open :: bool
  received :: "(byte list \<times> u32 \<times> u16) list"     \<comment> \<open>the calls of the message handler\<close>
  user_handler :: bool        \<comment> \<open>the user's message handler, or \<open>dummyNewMessageHandler\<close>\<close>
  buffer_opts :: "(sockopt \<times> int) list"            \<comment> \<open>the buffer sizes set on the socket\<close>
  sent :: "(byte list \<times> sockaddr_in) list"         \<comment> \<open>what was passed to \<open>sendto\<close>\<close>

definition new_CachedBuffer :: "nat \<Rightarrow> u32 \<Rightarrow> u16 \<Rightarrow> cached_buffer" where
  "new_CachedBuffer b rip rport = \<lparr>cb_buffer = b, cb_raddr = InetAddr_ip rip rport\<rparr>"

definition getBufferPtr :: "mem \<Rightarrow> cached_buffer \<Rightarrow> nat" where
  "getBufferPtr m cb = writtablePtr m (cb_buffer cb)"

definition getBufferSize :: "mem \<Rightarrow> cached_buffer \<Rightarrow> nat" where
  "getBufferSize m cb = writtableSize m (cb_buffer cb)"

text \<open>A size of 0, the default, leaves the socket's buffer as it is.\<close>

definition new_UdpEndpoint ::
  "epoll_ctl \<Rightarrow> interest \<Rightarrow> mem \<Rightarrow> int \<Rightarrow> (sockaddr_in \<Rightarrow> int) \<Rightarrow> u16 \<Rightarrow> nat \<Rightarrow> int \<Rightarrow> int \<Rightarrow> endpoint res" where
  "new_UdpEndpoint ctl k m fd call_bind p n rcvBufSize sndBufSize =
     bind_res (new_DGramSocket fd call_bind p) (\<lambda>fd.
     bind_res (new_VecBuffer m n) (\<lambda>(m', b).
     let ch = setCloseHandler (User Udp_handleClose) (setWriteCallback (User Udp_handleWrite)
                (setReadCallback (User Udp_handleRead) (new_Channel fd)))
     in bind_res (enableRead ctl True (ch, k)) (\<lambda>(ch', k').
     Inr \<lparr>u_store = m', mtu = n, u_rcvBuf = b, sndList = [], u_channel = ch', u_epoll = k',
          u_open = True, received = [], user_handler = False,
          buffer_opts = (if rcvBufSize \<noteq> 0 then [(SO_RCVBUF, rcvBufSize)] else [])
            @ (if sndBufSize \<noteq> 0 then [(SO_SNDBUF, sndBufSize)] else []), sent = []\<rparr>)))"

text \<open>An empty function puts the dummy handler back, so that \<open>ASSERT(_newMessageHandler)\<close> in
  \<open>attach\<close> always holds.\<close>

definition udp_setNewMessageHandler :: "bool \<Rightarrow> endpoint \<Rightarrow> endpoint" where
  "udp_setNewMessageHandler h e = e\<lparr>user_handler := h\<rparr>"

definition udp_attach :: "epoll_ctl \<Rightarrow> endpoint \<Rightarrow> endpoint res" where
  "udp_attach ctl e = bind_res (attach ctl (u_channel e, u_epoll e))
     (\<lambda>(ch, k). Inr (e\<lparr>u_channel := ch, u_epoll := k\<rparr>))"

definition udp_detach :: "epoll_ctl \<Rightarrow> endpoint \<Rightarrow> endpoint res" where
  "udp_detach ctl e = bind_res (detach ctl (u_channel e, u_epoll e))
     (\<lambda>(ch, k). Inr (e\<lparr>u_channel := ch, u_epoll := k\<rparr>))"

definition udp_close :: "endpoint \<Rightarrow> endpoint" where
  "udp_close e =
     (if u_open e
      then e\<lparr>u_open := False, u_epoll := (u_epoll e)(ch_fd (u_channel e) := None)\<rparr>
      else e)"

section \<open>Receiving\<close>

text \<open>A datagram that is there, or the \<open>errno\<close> of a failed call.\<close>

datatype recv_result = Datagram "byte list" sockaddr_in | Recv_error int

text \<open>What \<open>recvfrom\<close> returns for a datagram, and its effect: the bytes that do not fit are lost.\<close>

definition recv_size :: "mem \<Rightarrow> nat \<Rightarrow> byte list \<Rightarrow> nat" where
  "recv_size m b bs = min (length bs) (writtableSize m b)"

definition recvfrom :: "mem \<Rightarrow> nat \<Rightarrow> byte list \<Rightarrow> mem res" where
  "recvfrom m b bs = append_bytes m b (take (writtableSize m b) bs)"

fun udp_handleRead :: "epoll_ctl \<Rightarrow> recv_result list \<Rightarrow> endpoint \<Rightarrow> endpoint res" where
  "udp_handleRead ctl [] e = Inr e"
| "udp_handleRead ctl (Datagram bs raddr # rs) e =
     (if recv_size (u_store e) (u_rcvBuf e) bs > 0
      then bind_res (recvfrom (u_store e) (u_rcvBuf e) bs) (\<lambda>m.
           bind_res (new_VecBuffer m (mtu e)) (\<lambda>(m', b).
           udp_handleRead ctl rs (e\<lparr>u_store := m', u_rcvBuf := b,
             received := received e @ [(readable m (u_rcvBuf e), ip raddr, port raddr)]\<rparr>)))
      else bind_res (udp_detach ctl e) (\<lambda>e'. Inr (udp_close e')))"
| "udp_handleRead ctl (Recv_error errno # rs) e =
     (if errno \<noteq> 11 \<and> errno \<noteq> 4
      then bind_res (udp_detach ctl e) (\<lambda>e'. Inr (udp_close e')) else Inr e)"

section \<open>Sending\<close>

datatype send_result = Sent nat | Send_error int

text \<open>What \<open>sendto\<close> is given: the memory at \<open>getBufferPtr()\<close>.\<close>

definition payload :: "mem \<Rightarrow> cached_buffer \<Rightarrow> byte list" where
  "payload m cb = take (getBufferSize m cb) (drop (getBufferPtr m cb) (data_of m (cb_buffer cb)))"

text \<open>\<open>sendInternal\<close>: the endpoint and whether the call has returned.\<close>

fun udp_sendInternal :: "epoll_ctl \<Rightarrow> send_result list \<Rightarrow> endpoint \<Rightarrow> (endpoint \<times> bool) res" where
  "udp_sendInternal ctl [] e = Inr (e, sndList e = [])"
| "udp_sendInternal ctl (r # rs) e = (case sndList e of
       [] \<Rightarrow> Inr (e, True)
     | cb # q \<Rightarrow>
         let e1 = e\<lparr>sent := sent e @ [(payload (u_store e) cb, cb_raddr cb)]\<rparr> in
         case r of
           Sent n \<Rightarrow>
             if n = writtableSize (u_store e) (cb_buffer cb)
             then udp_sendInternal ctl rs (e1\<lparr>sndList := q\<rparr>)
             else if n > 0 then Inr (e1, True) else udp_sendInternal ctl rs e1
         | Send_error errno \<Rightarrow>
             if errno = 11 \<or> errno = 4
             then bind_res (enableWrite_oneShot ctl True True (u_channel e1, u_epoll e1))
               (\<lambda>(ch, k). udp_sendInternal ctl rs (e1\<lparr>u_channel := ch, u_epoll := k\<rparr>))
             else udp_sendInternal ctl rs (udp_close e1))"

definition udp_send ::
  "epoll_ctl \<Rightarrow> send_result list \<Rightarrow> nat \<Rightarrow> u32 \<Rightarrow> u16 \<Rightarrow> endpoint \<Rightarrow> (endpoint \<times> bool) res" where
  "udp_send ctl rs b rip rport e =
     udp_sendInternal ctl rs (e\<lparr>sndList := sndList e @ [new_CachedBuffer b rip rport]\<rparr>)"

definition udp_handleWrite :: "epoll_ctl \<Rightarrow> send_result list \<Rightarrow> endpoint \<Rightarrow> (endpoint \<times> bool) res" where
  "udp_handleWrite ctl rs e = udp_sendInternal ctl rs e"

section \<open>Lemmas\<close>

definition ready_to_receive :: "endpoint \<Rightarrow> bool" where
  "ready_to_receive e \<longleftrightarrow> valid (u_store e) (u_rcvBuf e) \<and> readable (u_store e) (u_rcvBuf e) = []
     \<and> writtableSize (u_store e) (u_rcvBuf e) = mtu e \<and> 0 < mtu e \<and> mtu e \<le> max_vec
     \<and> length (data_of (u_store e) (u_rcvBuf e)) = mtu e"

lemma receive_one:
  assumes "ready_to_receive e" and "bs \<noteq> []"
  shows "\<exists>e'. udp_handleRead ctl (Datagram bs a # rs) e = udp_handleRead ctl rs e'
    \<and> ready_to_receive e' \<and> mtu e' = mtu e \<and> u_channel e' = u_channel e \<and> u_epoll e' = u_epoll e
    \<and> received e' = received e @ [(take (mtu e) bs, ip a, port a)]"
proof -
  let ?m = "u_store e" and ?b = "u_rcvBuf e"
  from assms(1) have v: "valid ?m ?b" "readable ?m ?b = []" "writtableSize ?m ?b = mtu e"
    "mtu e \<le> max_vec" "0 < mtu e" by (simp_all add: ready_to_receive_def)
  obtain m where m: "append_bytes ?m ?b (take (mtu e) bs) = Inr m"
    using v(3) by (simp add: append_bytes_eq [OF v(1)])
  note A = append_bytes_valid [OF v(1) m v(1)] append_bytes_readable [OF v(1) m]
  have mo: "mem_ok m" using A(1) by (simp add: valid_def)
  obtain m' q where n: "new_VecBuffer m (mtu e) = Inr (m', q)"
    using v(4) by (simp add: new_VecBuffer_def)
  note N = new_VecBuffer_Inr [OF mo n]
  let ?e = "e\<lparr>u_store := m', u_rcvBuf := q,
      received := received e @ [(readable m ?b, ip a, port a)]\<rparr>"
  have "udp_handleRead ctl (Datagram bs a # rs) e = udp_handleRead ctl rs ?e"
    using m n v(3,5) assms(2) by (simp add: recvfrom_def recv_size_def)
  moreover have "ready_to_receive ?e" using N v(4,5) by (simp add: ready_to_receive_def)
  ultimately show ?thesis using A(2) v(2) by (intro exI [of _ ?e]) simp
qed

lemma receive_all:
  "ready_to_receive e \<Longrightarrow> \<forall>d \<in> set ds. fst d \<noteq> [] \<Longrightarrow>
    \<exists>e'. udp_handleRead ctl (map (\<lambda>(bs, a). Datagram bs a) ds @ rs) e = udp_handleRead ctl rs e'
    \<and> ready_to_receive e' \<and> u_channel e' = u_channel e \<and> u_epoll e' = u_epoll e
    \<and> received e' = received e @ map (\<lambda>(bs, a). (take (mtu e) bs, ip a, port a)) ds"
proof (induction ds arbitrary: e)
  case Nil
  then show ?case by auto
next
  case (Cons d ds)
  obtain bs a where d: "d = (bs, a)" by fastforce
  with Cons.prems(2) have "bs \<noteq> []" by simp
  from receive_one [OF Cons.prems(1) this, of ctl a "map (\<lambda>(bs, a). Datagram bs a) ds @ rs"] obtain e1 where
    e1: "udp_handleRead ctl (Datagram bs a # map (\<lambda>(bs, a). Datagram bs a) ds @ rs) e
        = udp_handleRead ctl (map (\<lambda>(bs, a). Datagram bs a) ds @ rs) e1"
      "ready_to_receive e1" "mtu e1 = mtu e" "u_channel e1 = u_channel e" "u_epoll e1 = u_epoll e"
      "received e1 = received e @ [(take (mtu e) bs, ip a, port a)]" by blast
  from Cons.prems(2) have ne: "\<forall>d \<in> set ds. fst d \<noteq> []" by simp
  from Cons.IH [OF e1(2) ne] obtain e' where
    "udp_handleRead ctl (map (\<lambda>(bs, a). Datagram bs a) ds @ rs) e1 = udp_handleRead ctl rs e'"
    "ready_to_receive e'" "u_channel e' = u_channel e1" "u_epoll e' = u_epoll e1"
    "received e' = received e1 @ map (\<lambda>(bs, a). (take (mtu e1) bs, ip a, port a)) ds" by blast
  with e1 d show ?case by (intro exI [of _ e']) simp
qed

lemma errors_spin:
  "sndList e \<noteq> [] \<Longrightarrow> \<forall>r \<in> set rs. \<exists>errno. r = Send_error errno \<and> errno \<noteq> 11 \<and> errno \<noteq> 4 \<Longrightarrow>
    \<exists>e'. udp_sendInternal ctl rs e = Inr (e', False) \<and> sndList e' = sndList e"
proof (induction rs arbitrary: e)
  case Nil
  then show ?case by simp
next
  case (Cons r rs)
  then obtain cb q errno where s: "sndList e = cb # q" "r = Send_error errno" "errno \<noteq> 11" "errno \<noteq> 4"
    by (cases "sndList e") auto
  let ?e = "udp_close (e\<lparr>sent := sent e @ [(payload (u_store e) cb, cb_raddr cb)]\<rparr>)"
  have "sndList ?e = sndList e" by (simp add: udp_close_def)
  with Cons.IH [of ?e] Cons.prems s show ?case by simp
qed

section \<open>Properties\<close>

text \<open>A readable endpoint takes every datagram that is there, as long as none is empty: the handler is called once for
  each, in order, with its bytes (cut to the MTU) and the sender's address and port in host
  order, and each gets a buffer of its own; the loop ends at \<open>EAGAIN\<close> with the endpoint ready
  for more.\<close>

theorem datagrams_delivered:
  assumes "ready_to_receive e" and "\<forall>d \<in> set ds. fst d \<noteq> []"
  shows "\<exists>e'. udp_handleRead ctl (map (\<lambda>(bs, a). Datagram bs a) ds @ Recv_error 11 # rs) e = Inr e'
    \<and> ready_to_receive e'
    \<and> received e' = received e @ map (\<lambda>(bs, a). (take (mtu e) bs, ip a, port a)) ds"
  using receive_all [OF assms, of ctl "Recv_error 11 # rs"] by auto

definition demo_endpoint :: endpoint where
  "demo_endpoint = \<lparr>u_store = \<lparr>vecs = [[0, 0, 0, 0]],
       bufs = [\<lparr>vb_offset = 0, vb_len = 0, vb_buffer = 0\<rparr>]\<rparr>, mtu = 4, u_rcvBuf = 0, sndList = [],
     u_channel = (new_Channel 6)\<lparr>attached := True\<rparr>, u_epoll = Map.empty(6 \<mapsto> EVENT_READ),
     u_open = True, received = [], user_handler = True, buffer_opts = [], sent = []\<rparr>"

lemma demo_endpoint_ready: "ready_to_receive demo_endpoint"
  by (simp add: ready_to_receive_def demo_endpoint_def valid_def mem_ok_def vb_ok_def readable_def
      writtableSize_def max_vec_def)

theorem datagrams_delivered_witness:
  "\<exists>e'. udp_handleRead sample_ctl [Datagram [1, 2] (InetAddr_ip 9 80), Datagram [3] (InetAddr_ip 8 81),
      Recv_error 11] demo_endpoint = Inr e'
    \<and> received e' = [([1, 2], 9, 80), ([3], 8, 81)]"
  using datagrams_delivered [OF demo_endpoint_ready,
      of "[([1, 2], InetAddr_ip 9 80), ([3], InetAddr_ip 8 81)]" sample_ctl "[]"] InetAddr_reads
  by (auto simp: demo_endpoint_def simp del: udp_handleRead.simps)

text \<open>One empty datagram, which anybody can send, makes the endpoint detach and close its
  socket: every datagram after it is lost.\<close>

theorem empty_datagram_closes:
  assumes "epoll_documented ctl" and "ch_fd (u_channel e) \<ge> 0" and "attached (u_channel e)"
    and "u_epoll e (ch_fd (u_channel e)) \<noteq> None"
  shows "\<exists>e'. udp_handleRead ctl (Datagram [] raddr # rs) e = Inr e' \<and> \<not> u_open e' \<and> received e' = received e
    \<and> \<not> attached (u_channel e') \<and> u_epoll e' (ch_fd (u_channel e)) = None"
  using assms by (auto simp: recv_size_def udp_detach_def udp_close_def detach_def detachChannel_def
      updateChannel_def epoll_documented_def)

theorem empty_datagram_closes_witness:
  "\<exists>e'. udp_handleRead sample_ctl [Datagram [] (InetAddr_ip 7 7), Datagram [1] (InetAddr_ip 9 80)] demo_endpoint = Inr e'
    \<and> \<not> u_open e' \<and> received e' = []"
  using empty_datagram_closes [OF sample_ctl_documented, of demo_endpoint "InetAddr_ip 7 7"
      "[Datagram [1] (InetAddr_ip 9 80)]"]
  by (auto simp: demo_endpoint_def new_Channel_def simp del: udp_handleRead.simps)

text \<open>C40: What \<open>send\<close> puts on the wire is the free room of the buffer, never its content: the
  bytes passed to \<open>sendto\<close> are those behind the readable ones, and none when the buffer is full.\<close>

theorem send_transmits_free_room:
  assumes "valid (u_store e) b" and "sndList e = []" and "udp_send ctl [Sent n] b rip rport e = Inr (e', x)"
  shows "sent e' = sent e @ [(drop (vb_offset (vb (u_store e) b) + vb_len (vb (u_store e) b))
      (data_of (u_store e) b), InetAddr_ip rip rport)]"
proof -
  have p: "payload (u_store e) (new_CachedBuffer b rip rport)
      = drop (vb_offset (vb (u_store e) b) + vb_len (vb (u_store e) b)) (data_of (u_store e) b)"
    by (simp add: payload_def getBufferSize_def getBufferPtr_def new_CachedBuffer_def
        writtableSize_eq [OF assms(1)] writtablePtr_def)
  from assms(2,3) p show ?thesis
    by (auto simp: udp_send_def Let_def new_CachedBuffer_def split: if_splits)
qed

theorem send_transmits_free_room_witness:
  "\<exists>e'. udp_send sample_ctl [Sent 2] 0 9 80 (demo_endpoint\<lparr>u_store := \<lparr>vecs = [[65, 66, 0, 0]],
       bufs = [\<lparr>vb_offset = 0, vb_len = 2, vb_buffer = 0\<rparr>]\<rparr>\<rparr>) = Inr (e', True)
    \<and> sent e' = [([0, 0], InetAddr_ip 9 80)]"
proof -
  let ?e = "demo_endpoint\<lparr>u_store := \<lparr>vecs = [[65, 66, 0, 0]],
       bufs = [\<lparr>vb_offset = 0, vb_len = 2, vb_buffer = 0\<rparr>]\<rparr>\<rparr>"
  have v: "valid (u_store ?e) 0" by (simp add: valid_def mem_ok_def vb_ok_def max_vec_def)
  obtain e' where e': "udp_send sample_ctl [Sent 2] 0 9 80 ?e = Inr (e', True)"
    by (simp add: udp_send_def demo_endpoint_def Let_def new_CachedBuffer_def writtableSize_def)
  from send_transmits_free_room [OF v _ e'] e' show ?thesis
    by (auto simp: demo_endpoint_def simp del: udp_sendInternal.simps)
qed

text \<open>A send that fails for good is retried for ever: however many times \<open>sendto\<close> fails,
  \<open>sendInternal\<close> has not returned and the buffer is still at the head of the list.\<close>

theorem failing_send_spins:
  assumes "\<forall>errno \<in> set es. errno \<noteq> 11 \<and> errno \<noteq> 4"
  shows "\<exists>e'. udp_send ctl (map Send_error es) b rip rport e = Inr (e', False) \<and> sndList e' \<noteq> []"
  using errors_spin [of "e\<lparr>sndList := sndList e @ [new_CachedBuffer b rip rport]\<rparr>" "map Send_error es" ctl]
    assms by (fastforce simp: udp_send_def)

theorem failing_send_spins_witness:
  "\<exists>e'. udp_send sample_ctl [Send_error 9, Send_error 9] 0 9 80 demo_endpoint = Inr (e', False)"
  using failing_send_spins [of "[9, 9]" sample_ctl 0 9 80 demo_endpoint] by auto

end
