(* ===== verification/Source.thy ===== *)
theory Source
  imports TcpConnection UdpEndpoint
begin

text \<open>
  \<open>TcpSource\<close> and \<open>UdpSource\<close> of \<^verbatim>\<open>netpack/Dispatcher.hpp\<close>: where a message came from, as a
  handler of the dispatcher sees it, and the way to answer it. Both hold a shared pointer to
  their transport and tell the peer's address and port.
\<close>

section \<open>Sources\<close>

record 'c source =
  transport :: 'c
  getPeerIp :: u32
  getPeerPort :: u16

text \<open>A TCP source asks its connection for the peer; a UDP source is made for a peer, whose
  address it keeps as an \<open>InetAddr\<close>.\<close>

definition new_TcpSource :: "'c \<Rightarrow> connection \<Rightarrow> 'c source" where
  "new_TcpSource conn c =
     \<lparr>transport = conn, getPeerIp = fst (peerAddr c), getPeerPort = snd (peerAddr c)\<rparr>"

definition new_UdpSource :: "'c \<Rightarrow> u32 \<Rightarrow> u16 \<Rightarrow> 'c source" where
  "new_UdpSource ept rip rport = (let raddr = InetAddr_ip rip rport in
     \<lparr>transport = ept, getPeerIp = ip raddr, getPeerPort = port raddr\<rparr>)"

lemma new_UdpSource_reads [simp]:
  "transport (new_UdpSource ept rip rport) = ept" "getPeerIp (new_UdpSource ept rip rport) = rip"
  "getPeerPort (new_UdpSource ept rip rport) = rport"
  by (simp_all add: new_UdpSource_def InetAddr_reads)

section \<open>Answering\<close>

text \<open>The operations of a TCP source, on its connection.\<close>

definition tcp_source_send ::
  "epoll_ctl \<Rightarrow> (write_result \<times> int) list \<Rightarrow> nat \<Rightarrow> connection \<Rightarrow> connection res" where
  "tcp_source_send ctl rs b c = tcp_send ctl rs b c"

definition tcp_source_sendMultiple ::
  "epoll_ctl \<Rightarrow> (write_result \<times> int) list \<Rightarrow> nat list \<Rightarrow> connection \<Rightarrow> connection res" where
  "tcp_source_sendMultiple ctl rs bs c = tcp_sendMultiple ctl rs bs c"

text \<open>The operations of a UDP source, on its endpoint; \<open>sendMultiple\<close> has an empty body.\<close>

definition udp_source_send ::
  "epoll_ctl \<Rightarrow> send_result list \<Rightarrow> nat \<Rightarrow> 'c source \<Rightarrow> endpoint \<Rightarrow> (endpoint \<times> bool) res" where
  "udp_source_send ctl rs b s e = udp_send ctl rs b (getPeerIp s) (getPeerPort s) e"

definition udp_source_sendMultiple :: "nat list \<Rightarrow> 'c source \<Rightarrow> endpoint \<Rightarrow> endpoint" where
  "udp_source_sendMultiple bs s e = e"

text \<open>An answer to a UDP source goes to the address its message came from.\<close>

lemma udp_answer_address:
  assumes "sndList e = []"
    and "udp_source_send ctl [Sent n] b (new_UdpSource ept (ip a) (port a)) e = Inr (e', x)"
  shows "\<exists>bs. sent e' = sent e @ [(bs, InetAddr_ip (ip a) (port a))]"
  using assms
  by (auto simp: udp_source_send_def udp_send_def Let_def new_CachedBuffer_def split: if_splits)

end
