(* ===== verification/Session.thy ===== *)
theory Session
  imports HashedWheelTimer Source
begin

text \<open>
  \<^verbatim>\<open>netpack/Session.hpp\<close>: sessions of users, found by connection or by user, and removed
  when no heartbeat renewed them in time. The timer is the wheel of
  \<^verbatim>\<open>HashedWheelTimer.thy\<close>; the task of a timeout is the address of the session it removes.
  Session objects live in a list, by address.
\<close>

section \<open>Sessions\<close>

definition genConnectId :: "'c source \<Rightarrow> u64" where
  "genConnectId src = push_bit 32 (ucast (getPeerIp src)) OR ucast (getPeerPort src)"

text \<open>
  The protected \<open>addrToCid\<close>, which nothing calls: \<open>rport << 16\<close> and \<open>localFd & 0xFF\<close> are \<open>int\<close>s, and
  the \<open>or\<close> with a \<open>uint64_t\<close> extends their sign.
\<close>

definition addrToCid :: "int \<Rightarrow> u32 \<Rightarrow> u16 \<Rightarrow> u64" where
  "addrToCid localFd rip rport =
     push_bit 32 (ucast rip) OR scast (push_bit 16 (ucast rport) :: u32)
       OR scast (word_of_int localFd AND 0xFF :: u32)"

text \<open>From port 32768 on the sign bits cover the address: peers are no longer told apart by it.\<close>

lemma addrToCid_loses_ip:
  assumes "bit rport 15"
  shows "addrToCid fd rip rport = addrToCid fd rip' rport"
proof (rule bit_word_eqI)
  fix n
  assume "n < LENGTH(64)"
  have "bit (scast (push_bit 16 (ucast rport) :: u32) :: u64) m" if "31 \<le> m" "m < 64" for m
    using assms that by (simp add: bit_simps min_def)
  with \<open>n < LENGTH(64)\<close> show "bit (addrToCid fd rip rport) n = bit (addrToCid fd rip' rport) n"
    by (cases "31 \<le> n") (simp_all add: addrToCid_def bit_or_iff bit_push_bit_iff)
qed

record 'c session =
  s_cid :: u64
  s_uin :: u32
  s_sk :: u32
  tsCreate :: u64
  tsUpdate :: u64
  s_seq :: u32
  s_timeout :: "nat option"      \<comment> \<open>\<open>weak_ptr\<close> to a timeout, by address\<close>
  s_source :: "'c source"

definition new_Session :: "u32 \<Rightarrow> u32 \<Rightarrow> 'c source \<Rightarrow> u64 \<Rightarrow> 'c session" where
  "new_Session uin sessKey src now =
     \<lparr>s_cid = genConnectId src, s_uin = uin, s_sk = sessKey, tsCreate = now, tsUpdate = now,
      s_seq = 0, s_timeout = None, s_source = src\<rparr>"

text \<open>The constructor with a creation time, which is 32 bits wide.\<close>

definition new_Session_at :: "u32 \<Rightarrow> u32 \<Rightarrow> u32 \<Rightarrow> 'c source \<Rightarrow> 'c session" where
  "new_Session_at uin sessKey createTime src = new_Session uin sessKey src (ucast createTime)"

definition touch :: "u64 \<Rightarrow> 'c session \<Rightarrow> 'c session" where
  "touch now s = s\<lparr>tsUpdate := now\<rparr>"

definition incSeq :: "'c session \<Rightarrow> 'c session \<times> u32" where
  "incSeq s = (s\<lparr>s_seq := s_seq s + 1\<rparr>, s_seq s)"

text \<open>\<open>weak_ptr::lock\<close>: a timeout is alive while a bucket holds it.\<close>

definition lock_timeout :: "nat wheel \<Rightarrow> nat option \<Rightarrow> nat option" where
  "lock_timeout w t = (case t of None \<Rightarrow> None
     | Some a \<Rightarrow> if bucket_of w a = None then None else Some a)"

definition cancelTimeout :: "nat wheel \<Rightarrow> 'c session \<Rightarrow> nat wheel" where
  "cancelTimeout w s = (case lock_timeout w (s_timeout s) of None \<Rightarrow> w | Some a \<Rightarrow> cancel w a)"

definition resetTimeout :: "nat wheel \<Rightarrow> nat \<Rightarrow> 'c session \<Rightarrow> nat wheel \<times> 'c session" where
  "resetTimeout w t s = (cancelTimeout w s, s\<lparr>s_timeout := Some t\<rparr>)"

section \<open>The manager\<close>

record 'c manager =
  sessions :: "'c session list"
  uinMap :: "(u32 \<times> nat) list"       \<comment> \<open>a multimap, in insertion order\<close>
  cidMap :: "u64 \<Rightarrow> nat option"
  idleExpireMs :: u32
  timer :: "nat wheel"
  removeHandler_set :: bool
  removed :: "nat list"               \<comment> \<open>the calls of \<open>_sessionRemoveHandler\<close>\<close>

abbreviation TimerInterval :: u32 where
  "TimerInterval \<equiv> 100"

definition new_SessionManager :: "u32 \<Rightarrow> 'c manager res" where
  "new_SessionManager expireMS =
     bind_res (new_HashedWheelTimer TimerInterval (expireMS div TimerInterval))
       (\<lambda>w. Inr \<lparr>sessions = [], uinMap = [], cidMap = (\<lambda>_. None), idleExpireMs = expireMS,
                 timer = w, removeHandler_set = False, removed = []\<rparr>)"

definition setSessionRemoveHandler :: "bool \<Rightarrow> 'c manager \<Rightarrow> 'c manager" where
  "setSessionRemoveHandler h m = m\<lparr>removeHandler_set := h\<rparr>"

text \<open>\<open>map::insert\<close> keeps an entry that is there; \<open>multimap::insert\<close> always adds one.\<close>

definition addSession :: "nat \<Rightarrow> 'c manager \<Rightarrow> 'c manager" where
  "addSession a m =
     (let s = sessions m ! a in
      m\<lparr>cidMap := (case cidMap m (s_cid s) of None \<Rightarrow> (cidMap m)(s_cid s \<mapsto> a) | Some _ \<Rightarrow> cidMap m),
        uinMap := uinMap m @ [(s_uin s, a)]\<rparr>)"

text \<open>\<open>multimap::erase(key)\<close> removes every entry of the key.\<close>

definition removeSession :: "nat \<Rightarrow> 'c manager \<Rightarrow> 'c manager res" where
  "removeSession a m =
     (let s = sessions m ! a in
      if removeHandler_set m
      then Inr (m\<lparr>removed := removed m @ [a], cidMap := (cidMap m)(s_cid s := None),
                  uinMap := filter (\<lambda>p. fst p \<noteq> s_uin s) (uinMap m)\<rparr>)
      else Inl BadFunctionCall)"

definition findSessionByCid :: "u64 \<Rightarrow> 'c manager \<Rightarrow> nat option" where
  "findSessionByCid cid m = cidMap m cid"

definition touchSession :: "nat \<Rightarrow> u64 \<Rightarrow> 'c manager \<Rightarrow> 'c manager res" where
  "touchSession a now m =
     bind_res (addTimeout (timer m) (Run a) (ucast (idleExpireMs m)))
       (\<lambda>(w, t). let (w', s') = resetTimeout w t (sessions m ! a) in
          Inr (m\<lparr>timer := w', sessions := (sessions m)[a := touch now s']\<rparr>))"

definition touchSession_cid :: "u64 \<Rightarrow> u64 \<Rightarrow> 'c manager \<Rightarrow> 'c manager res" where
  "touchSession_cid cid now m =
     (case findSessionByCid cid m of None \<Rightarrow> Inl NullDeref | Some a \<Rightarrow> touchSession a now m)"

definition handlerHeartbeatReq ::
  "'c source \<Rightarrow> u32 \<Rightarrow> u32 \<Rightarrow> u64 \<Rightarrow> 'c manager \<Rightarrow> 'c manager res" where
  "handlerHeartbeatReq src uin sessKey now m =
     (case findSessionByCid (genConnectId src) m of
        Some a \<Rightarrow> touchSession a now m
      | None \<Rightarrow>
          (let a = length (sessions m) in
           touchSession a now
             (addSession a (m\<lparr>sessions := sessions m @ [new_Session uin sessKey src now]\<rparr>))))"

text \<open>The sessions \<open>sendToUin\<close> and \<open>sendMultipleToUin\<close> send to.\<close>

definition sessions_of_uin :: "u32 \<Rightarrow> 'c manager \<Rightarrow> nat list" where
  "sessions_of_uin uin m = map snd (filter (\<lambda>p. fst p = uin) (uinMap m))"

text \<open>
  The loop over them. What a session does with the data is a parameter: \<open>Session\<close> has no
  member \<open>send\<close> or \<open>sendMultiple\<close>.
\<close>

fun send_each :: "(nat \<Rightarrow> 'b \<Rightarrow> 's \<Rightarrow> 's res) \<Rightarrow> 'b \<Rightarrow> nat list \<Rightarrow> 's \<Rightarrow> 's res" where
  "send_each send data [] s = Inr s"
| "send_each send data (a # as) s = bind_res (send a data s) (send_each send data as)"

definition sendToUin :: "(nat \<Rightarrow> 'b \<Rightarrow> 's \<Rightarrow> 's res) \<Rightarrow> u32 \<Rightarrow> 'b \<Rightarrow> 'c manager \<Rightarrow> 's \<Rightarrow> 's res" where
  "sendToUin send uin buffer m = send_each send buffer (sessions_of_uin uin m)"

definition sendMultipleToUin ::
  "(nat \<Rightarrow> 'b list \<Rightarrow> 's \<Rightarrow> 's res) \<Rightarrow> u32 \<Rightarrow> 'b list \<Rightarrow> 'c manager \<Rightarrow> 's \<Rightarrow> 's res" where
  "sendMultipleToUin sendMultiple uin datas m = send_each sendMultiple datas (sessions_of_uin uin m)"

text \<open>A tick of the manager's timer: the tasks that ring are calls of \<open>removeSession\<close>.\<close>

fun remove_all :: "nat list \<Rightarrow> 'c manager \<Rightarrow> 'c manager res" where
  "remove_all [] m = Inr m"
| "remove_all (a # as) m = bind_res (removeSession a m) (remove_all as)"

definition manager_tick :: "'c manager \<Rightarrow> 'c manager res" where
  "manager_tick m = bind_res (tick (timer m))
     (\<lambda>(w, fired). remove_all (map snd fired) (m\<lparr>timer := w\<rparr>))"

datatype 'c manager_op = Heartbeat "'c source" u32 u32 u64 | TimerTick

fun run_manager :: "'c manager_op list \<Rightarrow> 'c manager \<Rightarrow> 'c manager res" where
  "run_manager [] m = Inr m"
| "run_manager (Heartbeat src uin sk now # es) m =
     bind_res (handlerHeartbeatReq src uin sk now m) (run_manager es)"
| "run_manager (TimerTick # es) m = bind_res (manager_tick m) (run_manager es)"

section \<open>Connection ids\<close>

text \<open>The connection id identifies the peer: sources have the same id exactly when they have
  the same address and the same port.\<close>

theorem genConnectId_injective:
  "genConnectId s = genConnectId t \<longleftrightarrow>
    getPeerIp s = getPeerIp t \<and> getPeerPort s = getPeerPort t"
proof
  assume eq: "genConnectId s = genConnectId t"
  have b: "bit (genConnectId u) n \<longleftrightarrow>
      n \<ge> 32 \<and> n < 64 \<and> bit (getPeerIp u) (n - 32) \<or> n < 16 \<and> bit (getPeerPort u) n"
    for u :: "'c source" and n
    by (auto simp: genConnectId_def bit_simps dest: bit_imp_le_length)
  have b': "bit (genConnectId t) n \<longleftrightarrow>
      n \<ge> 32 \<and> n < 64 \<and> bit (getPeerIp t) (n - 32) \<or> n < 16 \<and> bit (getPeerPort t) n" for n
    by (auto simp: genConnectId_def bit_simps dest: bit_imp_le_length)
  have "bit (getPeerIp s) n \<longleftrightarrow> bit (getPeerIp t) n" if "n < 32" for n
    using b [of s "n + 32"] b' [of "n + 32"] eq that by auto
  moreover have "bit (getPeerPort s) n \<longleftrightarrow> bit (getPeerPort t) n" if "n < 16" for n
    using b [of s n] b' [of n] eq that by auto
  ultimately show "getPeerIp s = getPeerIp t \<and> getPeerPort s = getPeerPort t"
    by (auto intro!: bit_word_eqI)
qed (simp add: genConnectId_def)

section \<open>Sessions and their timeouts\<close>

text \<open>The ticks a session lives without a heartbeat.\<close>

definition idle_ticks :: "'c manager \<Rightarrow> nat" where
  "idle_ticks m = wheel_ticks (timer m) (ucast (idleExpireMs m))"

text \<open>
  Every registered session has one armed timeout, the one its pointer names, and every armed
  timeout belongs to the session registered under that session's connection id.
\<close>

definition manager_ok :: "'c manager \<Rightarrow> bool" where
  "manager_ok m \<longleftrightarrow> wheel_ok (timer m) \<and> removeHandler_set m
     \<and> (\<forall>cid a. cidMap m cid = Some a \<longrightarrow> a < length (sessions m) \<and> s_cid (sessions m ! a) = cid
          \<and> (\<exists>t d. s_timeout (sessions m ! a) = Some t \<and> due (timer m) t = Some (d, a)))
     \<and> (\<forall>t d a. due (timer m) t = Some (d, a) \<longrightarrow> a < length (sessions m)
          \<and> cidMap m (s_cid (sessions m ! a)) = Some a \<and> s_timeout (sessions m ! a) = Some t)"

lemma manager_okD:
  assumes "manager_ok m"
  shows "wheel_ok (timer m)" and "removeHandler_set m"
    and "cidMap m cid = Some a \<Longrightarrow> a < length (sessions m) \<and> s_cid (sessions m ! a) = cid
          \<and> (\<exists>t d. s_timeout (sessions m ! a) = Some t \<and> due (timer m) t = Some (d, a))"
    and "due (timer m) t = Some (d, a) \<Longrightarrow> a < length (sessions m)
          \<and> cidMap m (s_cid (sessions m ! a)) = Some a \<and> s_timeout (sessions m ! a) = Some t"
  using assms unfolding manager_ok_def by blast+

text \<open>The abstract state: for a connection id, its session and the ticks it has left.\<close>

definition life :: "'c manager \<Rightarrow> u64 \<Rightarrow> (nat \<times> nat) option" where
  "life m cid = (case cidMap m cid of None \<Rightarrow> None
     | Some a \<Rightarrow> (case s_timeout (sessions m ! a) of None \<Rightarrow> None
         | Some t \<Rightarrow> (case due (timer m) t of None \<Rightarrow> None | Some (d, _) \<Rightarrow> Some (a, d))))"

lemma life_Some:
  assumes "manager_ok m"
  shows "life m cid = Some (a, d) \<longleftrightarrow> cidMap m cid = Some a
    \<and> (\<exists>t. s_timeout (sessions m ! a) = Some t \<and> due (timer m) t = Some (d, a))"
  using manager_okD(3,4) [OF assms]
  by (fastforce simp: life_def split: option.splits)

lemma due_life:
  assumes "manager_ok m"
  shows "(\<exists>t. due (timer m) t = Some (d, a)) \<longleftrightarrow> life m (s_cid (sessions m ! a)) = Some (a, d)"
  using manager_okD(4) [OF assms] by (auto simp: life_Some [OF assms])

lemma life_cid: "manager_ok m \<Longrightarrow> life m cid = Some (a, d) \<Longrightarrow> s_cid (sessions m ! a) = cid"
  using manager_okD(3) [of m cid a] by (simp add: life_Some)

lemma life_None: "manager_ok m \<Longrightarrow> life m cid = None \<longleftrightarrow> cidMap m cid = None"
  using manager_okD(3) [of m cid] by (fastforce simp: life_def split: option.splits)

lemma cancel_locked_due:
  assumes "wheel_ok w"
  shows "wheel_ok (cancelTimeout w s)"
    and "due (cancelTimeout w s) = (case s_timeout s of None \<Rightarrow> due w | Some t \<Rightarrow> (due w)(t := None))"
    and "wheel_ticks (cancelTimeout w s) = wheel_ticks w"
proof -
  have off: "bucket_of w t = None \<Longrightarrow> (due w)(t := None) = due w" for t
    by (rule ext) (simp add: due_def)
  have can: "due (cancel w t) = (due w)(t := None)" for t
    by (rule ext) (simp add: due_cancel [OF assms])
  show "wheel_ok (cancelTimeout w s)"
    and "due (cancelTimeout w s) = (case s_timeout s of None \<Rightarrow> due w | Some t \<Rightarrow> (due w)(t := None))"
    and "wheel_ticks (cancelTimeout w s) = wheel_ticks w"
    using assms off can by (auto simp: cancelTimeout_def lock_timeout_def cancel_wheel_ok
        wheel_ticks_def fun_eq_iff split: option.splits)
qed

lemma touchSession_eq:
  assumes "wheel_ok (timer m)"
  shows "\<exists>m'. touchSession a now m = Inr m' \<and> wheel_ok (timer m')
    \<and> due (timer m') = (let f = (due (timer m))(length (timeouts (timer m)) \<mapsto> (idle_ticks m, a)) in
        case s_timeout (sessions m ! a) of None \<Rightarrow> f | Some t \<Rightarrow> f(t := None))
    \<and> sessions m' = (sessions m)[a := (sessions m ! a)
        \<lparr>s_timeout := Some (length (timeouts (timer m))), tsUpdate := now\<rparr>]
    \<and> cidMap m' = cidMap m \<and> idle_ticks m' = idle_ticks m \<and> removed m' = removed m
    \<and> removeHandler_set m' = removeHandler_set m"
proof -
  from wheel.add_law [OF assms, of a "ucast (idleExpireMs m)"] obtain w where
    w: "addTimeout (timer m) (Run a) (ucast (idleExpireMs m)) = Inr (w, length (timeouts (timer m)))"
      "wheel_ok w" "\<forall>ms. wheel_ticks w ms = wheel_ticks (timer m) ms"
      "due w = (due (timer m))(length (timeouts (timer m)) \<mapsto> (idle_ticks m, a))"
    unfolding idle_ticks_def by blast
  let ?m = "m\<lparr>timer := cancelTimeout w (sessions m ! a), sessions := (sessions m)[a :=
      touch now ((sessions m ! a)\<lparr>s_timeout := Some (length (timeouts (timer m)))\<rparr>)]\<rparr>"
  have "touchSession a now m = Inr ?m" by (simp add: touchSession_def w(1) resetTimeout_def)
  with cancel_locked_due [OF w(2), of "sessions m ! a"] w(3,4) show ?thesis
    by (intro exI [of _ ?m]) (simp add: touch_def idle_ticks_def Let_def split: option.splits)
qed

lemma due_fresh: "wheel_ok w \<Longrightarrow> due w (length (timeouts w)) = None"
  by (rule due_beyond) simp_all

text \<open>
  What arming a timeout for session \<open>a\<close> under \<open>cid\<close> keeps and changes, whatever state it starts from:
  the other sessions and their timeouts stay, and \<open>a\<close> has exactly the timeout \<open>n\<close>.
\<close>

lemma arm_session:
  assumes ok: "manager_ok m" and w: "wheel_ok (timer m')" "removeHandler_set m'"
    and cid: "cidMap m' = (cidMap m)(cid \<mapsto> a)" "cidMap m cid = None \<or> cidMap m cid = Some a"
      "\<And>c. cidMap m c = Some a \<Longrightarrow> c = cid"
    and a: "length (sessions m) \<le> length (sessions m')" "a < length (sessions m')"
      "s_cid (sessions m' ! a) = cid" "s_timeout (sessions m' ! a) = Some n"
    and other: "\<And>b. b < length (sessions m) \<Longrightarrow> b \<noteq> a \<Longrightarrow> sessions m' ! b = sessions m ! b"
    and n: "due (timer m) n = None" "due (timer m') n = Some (k, a)"
    and due: "\<And>t d b. t \<noteq> n \<Longrightarrow>
      due (timer m') t = Some (d, b) \<longleftrightarrow> due (timer m) t = Some (d, b) \<and> b \<noteq> a"
  shows "manager_ok m' \<and> life m' = (life m)(cid \<mapsto> (a, k))"
proof (rule conjI)
  note M = manager_okD [OF ok]
  have kept: "b < length (sessions m) \<and> s_cid (sessions m' ! b) = c \<and> (\<exists>t d.
      s_timeout (sessions m' ! b) = Some t \<and> s_timeout (sessions m ! b) = Some t
      \<and> due (timer m) t = Some (d, b) \<and> due (timer m') t = Some (d, b))"
    if "cidMap m c = Some b" "c \<noteq> cid" for c b
  proof -
    have "b \<noteq> a" using that cid(3) by blast
    moreover from M(3) [OF that(1)] obtain t d where t: "b < length (sessions m)"
      "s_cid (sessions m ! b) = c" "s_timeout (sessions m ! b) = Some t" "due (timer m) t = Some (d, b)"
      by blast
    moreover from t(4) n(1) have "t \<noteq> n" by auto
    ultimately show ?thesis using due other by simp
  qed
  show "manager_ok m'"
    unfolding manager_ok_def
  proof (intro conjI allI impI)
    fix c b
    assume c: "cidMap m' c = Some b"
    show "b < length (sessions m')" and "s_cid (sessions m' ! b) = c"
      and "\<exists>t d. s_timeout (sessions m' ! b) = Some t \<and> due (timer m') t = Some (d, b)"
      using c cid(1) a n(2) kept [of c b] by (auto split: if_splits)
  next
    fix t d b
    assume "due (timer m') t = Some (d, b)"
    then have t: "t = n \<and> b = a \<or> b \<noteq> a \<and> due (timer m) t = Some (d, b)"
      using n(2) due by (cases "t = n") auto
    show "b < length (sessions m')" and "cidMap m' (s_cid (sessions m' ! b)) = Some b"
      and "s_timeout (sessions m' ! b) = Some t"
      using t M(4) [of t d b] other [of b] a cid(1,2) by auto
  qed (use w in simp_all)
  show "life m' = (life m)(cid \<mapsto> (a, k))"
  proof
    fix c
    show "life m' c = ((life m)(cid \<mapsto> (a, k))) c"
    proof (cases "c = cid")
      case True
      with a n(2) cid(1) show ?thesis by (simp add: life_def)
    next
      case False
      with kept [of c] cid(1) show ?thesis by (fastforce simp: life_def split: option.splits)
    qed
  qed
qed

text \<open>A heartbeat gives the source's session, old or new, its full time.\<close>

lemma heartbeat_known:
  assumes "manager_ok m" and "cidMap m cid = Some a" and "cid = genConnectId src"
  shows "\<exists>m'. handlerHeartbeatReq src uin sk now m = Inr m' \<and> manager_ok m'
    \<and> idle_ticks m' = idle_ticks m \<and> removed m' = removed m
    \<and> life m' = (life m)(cid \<mapsto> (a, idle_ticks m))"
proof -
  note M = manager_okD [OF assms(1)]
  let ?n = "length (timeouts (timer m))"
  from M(3) [OF assms(2)] obtain t0 d0 where a: "a < length (sessions m)"
    "s_cid (sessions m ! a) = cid" "s_timeout (sessions m ! a) = Some t0"
    "due (timer m) t0 = Some (d0, a)" by blast
  from touchSession_eq [OF M(1), of a now] a(3) obtain m' where m': "touchSession a now m = Inr m'"
    "wheel_ok (timer m')" "due (timer m') = (due (timer m))(?n \<mapsto> (idle_ticks m, a), t0 := None)"
    "sessions m' = (sessions m)[a := (sessions m ! a)\<lparr>s_timeout := Some ?n, tsUpdate := now\<rparr>]"
    "cidMap m' = cidMap m" "idle_ticks m' = idle_ticks m" "removed m' = removed m"
    "removeHandler_set m'" using M(2) by (auto simp: Let_def)
  have n: "due (timer m) ?n = None" "t0 \<noteq> ?n" using due_fresh [OF M(1)] a(4) by auto
  have only: "t = t0" if "due (timer m) t = Some (d, a)" for t d using M(4) [OF that] a(3) by simp
  have "manager_ok m' \<and> life m' = (life m)(cid \<mapsto> (a, idle_ticks m))"
  proof (rule arm_session [OF assms(1), where n = ?n])
    show "due (timer m') t = Some (d, b) \<longleftrightarrow> due (timer m) t = Some (d, b) \<and> b \<noteq> a"
      if "t \<noteq> ?n" for t d b
      using that a(4) only [of t d] by (cases "t = t0") (auto simp: m'(3))
    show "c = cid" if "cidMap m c = Some a" for c using M(3) [OF that] a(2) by simp
    show "cidMap m' = (cidMap m)(cid \<mapsto> a)" using m'(5) assms(2) by (simp add: map_upd_triv)
  qed (use m'(2-4,8) n a assms(2) in simp_all)
  with m' show ?thesis
    using assms(2,3) by (intro exI [of _ m']) (auto simp: handlerHeartbeatReq_def findSessionByCid_def)
qed

lemma heartbeat_new:
  assumes "manager_ok m" and "cidMap m cid = None" and "cid = genConnectId src"
  shows "\<exists>m'. handlerHeartbeatReq src uin sk now m = Inr m' \<and> manager_ok m'
    \<and> idle_ticks m' = idle_ticks m \<and> removed m' = removed m
    \<and> life m' = (life m)(cid \<mapsto> (length (sessions m), idle_ticks m))"
proof -
  note M = manager_okD [OF assms(1)]
  let ?n = "length (timeouts (timer m))" and ?a = "length (sessions m)"
  let ?s = "new_Session uin sk src now"
  let ?m0 = "addSession ?a (m\<lparr>sessions := sessions m @ [?s]\<rparr>)"
  have s: "s_cid ?s = cid" "s_timeout ?s = None" using assms(3) by (simp_all add: new_Session_def)
  have m0: "timer ?m0 = timer m" "sessions ?m0 = sessions m @ [?s]" "idle_ticks ?m0 = idle_ticks m"
    "removed ?m0 = removed m" "removeHandler_set ?m0" "cidMap ?m0 = (cidMap m)(cid \<mapsto> ?a)"
    using assms(2) s M(2) by (simp_all add: addSession_def idle_ticks_def Let_def)
  from touchSession_eq [of ?m0 ?a now] M(1) obtain m' where m': "touchSession ?a now ?m0 = Inr m'"
    "wheel_ok (timer m')" "due (timer m') = (due (timer m))(?n \<mapsto> (idle_ticks m, ?a))"
    "sessions m' = sessions m @ [?s\<lparr>s_timeout := Some ?n, tsUpdate := now\<rparr>]"
    "cidMap m' = (cidMap m)(cid \<mapsto> ?a)" "idle_ticks m' = idle_ticks m" "removed m' = removed m"
    "removeHandler_set m'" by (auto simp: m0 s Let_def)
  have n: "due (timer m) ?n = None" by (rule due_fresh [OF M(1)])
  have "manager_ok m' \<and> life m' = (life m)(cid \<mapsto> (?a, idle_ticks m))"
  proof (rule arm_session [OF assms(1), where n = ?n])
    show "due (timer m') t = Some (d, b) \<longleftrightarrow> due (timer m) t = Some (d, b) \<and> b \<noteq> ?a"
      if "t \<noteq> ?n" for t d b using that M(4) [of t d b] m'(3) by auto
    show "c = cid" if "cidMap m c = Some ?a" for c using M(3) [OF that] by simp
    show "sessions m' ! b = sessions m ! b" if "b < ?a" "b \<noteq> ?a" for b
      using that m'(4) by (simp add: nth_append)
  qed (use m' n s assms(2) in simp_all)
  with m' show ?thesis
    using assms(2,3) by (intro exI [of _ m'])
      (auto simp: handlerHeartbeatReq_def findSessionByCid_def Let_def)
qed

lemma heartbeat_eq:
  assumes "manager_ok m"
  shows "\<exists>m' a. handlerHeartbeatReq src uin sk now m = Inr m' \<and> manager_ok m'
    \<and> idle_ticks m' = idle_ticks m \<and> removed m' = removed m
    \<and> life m' = (life m)(genConnectId src \<mapsto> (a, idle_ticks m))
    \<and> (cidMap m (genConnectId src) = Some a
       \<or> cidMap m (genConnectId src) = None \<and> a = length (sessions m))"
proof (cases "cidMap m (genConnectId src)")
  case None
  from heartbeat_new [OF assms None refl, of uin sk now] None show ?thesis by blast
next
  case (Some a)
  from heartbeat_known [OF assms Some refl, of uin sk now] Some show ?thesis by blast
qed

text \<open>A tick takes one from every life and removes the sessions that had none left.\<close>

lemma remove_all_eq:
  "removeHandler_set m \<Longrightarrow>
    \<exists>m'. remove_all as m = Inr m' \<and> sessions m' = sessions m \<and> timer m' = timer m
      \<and> idleExpireMs m' = idleExpireMs m \<and> removeHandler_set m' \<and> removed m' = removed m @ as
      \<and> (\<forall>cid. cidMap m' cid = (if \<exists>a \<in> set as. s_cid (sessions m ! a) = cid then None else cidMap m cid))"
proof (induction as arbitrary: m)
  case Nil
  then show ?case by simp
next
  case (Cons a as)
  let ?m = "m\<lparr>removed := removed m @ [a], cidMap := (cidMap m)(s_cid (sessions m ! a) := None),
      uinMap := filter (\<lambda>p. fst p \<noteq> s_uin (sessions m ! a)) (uinMap m)\<rparr>"
  have r: "removeSession a m = Inr ?m" using Cons.prems by (simp add: removeSession_def Let_def)
  have h: "removeHandler_set ?m" using Cons.prems by simp
  from Cons.IH [OF h] obtain m' where "remove_all as ?m = Inr m'" "sessions m' = sessions ?m"
    "timer m' = timer ?m" "idleExpireMs m' = idleExpireMs ?m" "removeHandler_set m'"
    "removed m' = removed ?m @ as"
    "\<forall>cid. cidMap m' cid = (if \<exists>a \<in> set as. s_cid (sessions ?m ! a) = cid then None else cidMap ?m cid)"
    by blast
  with r show ?case by (intro exI [of _ m']) auto
qed

text \<open>A state is one tick on from another when every life has one tick less and those of none left are gone.\<close>

lemma tick_session:
  assumes ok: "manager_ok m" and w: "wheel_ok (timer m')" "removeHandler_set m'" "sessions m' = sessions m"
    and due: "\<forall>t. due (timer m') t = count_down (due (timer m) t)"
    and cid: "\<And>cid. cidMap m' cid = (if \<exists>a. life m cid = Some (a, 0) then None else cidMap m cid)"
  shows "manager_ok m' \<and> life m' = (\<lambda>cid. case life m cid of Some (a, Suc d) \<Rightarrow> Some (a, d) | _ \<Rightarrow> None)"
proof (rule conjI)
  note M = manager_okD [OF ok]
  have cid': "cidMap m' c = Some a \<longleftrightarrow> (\<exists>d. life m c = Some (a, Suc d))" for c a
  proof
    assume c: "cidMap m' c = Some a"
    with cid have m: "cidMap m c = Some a" "\<nexists>a. life m c = Some (a, 0)" by (auto split: if_splits)
    with M(3) [of c a] obtain d where d: "life m c = Some (a, d)" by (auto simp: life_Some [OF ok])
    with m(2) show "\<exists>d. life m c = Some (a, Suc d)" by (cases d) auto
  next
    assume "\<exists>d. life m c = Some (a, Suc d)"
    then show "cidMap m' c = Some a" using cid [of c] by (auto simp: life_Some [OF ok])
  qed
  show ok': "manager_ok m'"
    unfolding manager_ok_def
  proof (intro conjI allI impI)
    fix c a
    assume "cidMap m' c = Some a"
    then obtain d where d: "life m c = Some (a, Suc d)" using cid' by blast
    with M(3) [of c a] show "a < length (sessions m')" and "s_cid (sessions m' ! a) = c"
      and "\<exists>t d. s_timeout (sessions m' ! a) = Some t \<and> due (timer m') t = Some (d, a)"
      using w(3) due by (auto simp: life_Some [OF ok])
  next
    fix t d a
    assume "due (timer m') t = Some (d, a)"
    then have d: "due (timer m) t = Some (Suc d, a)" using due by simp
    note D = M(4) [OF d]
    then have "life m (s_cid (sessions m ! a)) = Some (a, Suc d)" using d by (simp add: life_Some [OF ok])
    with D show "a < length (sessions m')" and "cidMap m' (s_cid (sessions m' ! a)) = Some a"
      and "s_timeout (sessions m' ! a) = Some t"
      using w(3) cid' by auto
  qed (use w in simp_all)
  show "life m' = (\<lambda>c. case life m c of Some (a, Suc d) \<Rightarrow> Some (a, d) | _ \<Rightarrow> None)"
  proof
    fix c
    show "life m' c = (case life m c of Some (a, Suc d) \<Rightarrow> Some (a, d) | _ \<Rightarrow> None)"
    proof (cases "\<exists>a d. life m c = Some (a, Suc d)")
      case True
      then obtain a d where d: "life m c = Some (a, Suc d)" by blast
      then have "life m' c = Some (a, d)"
        using cid' [of c a] w(3) due by (auto simp: life_Some [OF ok'] life_Some [OF ok])
      with d show ?thesis by simp
    next
      case False
      then have "life m' c = None" using cid' by (cases "cidMap m' c") (auto simp: life_None [OF ok'])
      with False show ?thesis by (auto split: option.split nat.split)
    qed
  qed
qed

lemma manager_tick_eq:
  assumes "manager_ok m"
  shows "\<exists>m' rs. manager_tick m = Inr m' \<and> manager_ok m' \<and> idle_ticks m' = idle_ticks m
    \<and> life m' = (\<lambda>cid. case life m cid of Some (a, Suc d) \<Rightarrow> Some (a, d) | _ \<Rightarrow> None)
    \<and> removed m' = removed m @ rs \<and> distinct rs
    \<and> (\<forall>a. a \<in> set rs \<longleftrightarrow> (\<exists>cid. life m cid = Some (a, 0)))"
proof -
  note M = manager_okD [OF assms]
  from wheel.tick_law [OF M(1)] obtain w f where w: "tick (timer m) = Inr (w, f)" "wheel_ok w"
    "\<forall>ms. wheel_ticks w ms = wheel_ticks (timer m) ms"
    "\<forall>t. due w t = count_down (due (timer m) t)"
    "\<forall>t a. (t, a) \<in> set f \<longleftrightarrow> due (timer m) t = Some (0, a)" "distinct (map fst f)" by blast
  let ?rs = "map snd f"
  have "removeHandler_set (m\<lparr>timer := w\<rparr>)" using M(2) by simp
  from remove_all_eq [OF this, of ?rs] obtain m' where m': "remove_all ?rs (m\<lparr>timer := w\<rparr>) = Inr m'"
    "sessions m' = sessions m" "timer m' = w" "idleExpireMs m' = idleExpireMs m"
    "removeHandler_set m'" "removed m' = removed m @ ?rs"
    "\<forall>cid. cidMap m' cid = (if \<exists>a \<in> set ?rs. s_cid (sessions m ! a) = cid then None else cidMap m cid)"
    by auto
  have fired: "a \<in> set ?rs \<longleftrightarrow> (\<exists>t. due (timer m) t = Some (0, a))" for a
    using w(5) by force
  have gone: "(\<exists>a \<in> set ?rs. s_cid (sessions m ! a) = cid) \<longleftrightarrow> (\<exists>a. life m cid = Some (a, 0))" for cid
    unfolding Bex_def fired due_life [OF assms] using life_cid [OF assms] by blast
  have "manager_ok m'
    \<and> life m' = (\<lambda>cid. case life m cid of Some (a, Suc d) \<Rightarrow> Some (a, d) | _ \<Rightarrow> None)"
  proof (rule tick_session [OF assms])
    show "cidMap m' cid = (if \<exists>a. life m cid = Some (a, 0) then None else cidMap m cid)" for cid
      using m'(7) by (simp only: gone)
  qed (use m' w(2,4) in simp_all)
  moreover have "inj_on snd (set f)"
    using w(5) M(4) by (intro inj_onI) (metis option.inject prod.collapse)
  then have "distinct ?rs" using w(6) by (simp add: distinct_map)
  moreover have "a \<in> set ?rs \<longleftrightarrow> (\<exists>cid. life m cid = Some (a, 0))" for a
    unfolding fired due_life [OF assms] using life_cid [OF assms] by blast
  moreover have "manager_tick m = Inr m'" using w(1) m'(1) by (simp add: manager_tick_def)
  moreover have "idle_ticks m' = idle_ticks m" using m'(3,4) w(3) by (simp add: idle_ticks_def)
  ultimately show ?thesis using m'(6) by blast
qed

section \<open>Runs\<close>

lemma new_manager_ok:
  assumes "new_SessionManager idle = Inr m"
  shows "manager_ok (setSessionRemoveHandler True m)"
    and "idle_ticks (setSessionRemoveHandler True m) = (unat idle + 99) div 100"
    and "removed m = []" and "cidMap m = (\<lambda>_. None)"
proof -
  from assms obtain w where w: "new_HashedWheelTimer TimerInterval (idle div TimerInterval) = Inr w"
    "m = \<lparr>sessions = [], uinMap = [], cidMap = (\<lambda>_. None), idleExpireMs = idle, timer = w,
      removeHandler_set = False, removed = []\<rparr>" by (auto simp: new_SessionManager_def)
  have "unat (idle div TimerInterval) \<le> 2 ^ 31"
    using unsigned_less [of idle, where 'a = nat] by (simp add: unat_div_distrib)
  then have tpw: "idle div TimerInterval \<le> 2 ^ 31" by (simp add: word_le_nat_alt)
  note W = new_wheel_ok [OF _ w(1) tpw, simplified]
  have due: "due w t = None" for t using W(1,3) by (simp add: due_beyond)
  show "manager_ok (setSessionRemoveHandler True m)"
    using W(1) due by (simp add: manager_ok_def setSessionRemoveHandler_def w(2))
  have small: "unat idle < 2 ^ 32" using unsigned_less [of idle, where 'a = nat] by simp
  have u: "unat (ucast idle :: u64) = unat idle"
    using small by (simp add: unsigned_ucast_eq take_bit_nat_eq_self)
  have "wheel_ticks w (ucast idle) = ((unat idle + 100 - 1) div 100) mod 2 ^ 32"
    using ticks_ceiling [of "ucast idle" w] small W(5) u by simp
  also have "\<dots> = (unat idle + 99) div 100" using small by simp
  finally show "idle_ticks (setSessionRemoveHandler True m) = (unat idle + 99) div 100"
    by (simp add: idle_ticks_def setSessionRemoveHandler_def w(2))
  show "removed m = []" and "cidMap m = (\<lambda>_. None)" by (simp_all add: w(2))
qed

lemma new_manager_total: "\<exists>m. new_SessionManager idle = Inr m"
proof -
  have "idle div TimerInterval \<le> 2 ^ 31"
    using unsigned_less [of idle, where 'a = nat] by (simp add: word_le_nat_alt unat_div_distrib)
  with calculateNormalizeShift_spec [of 0 "idle div TimerInterval"] obtain s where
    "calculateNormalizeShift (idle div TimerInterval) 0 = Inr s" by auto
  then show ?thesis by (simp add: new_SessionManager_def new_HashedWheelTimer_def Let_def)
qed

lemma run_manager_total:
  "manager_ok m \<Longrightarrow> \<exists>m' rs. run_manager es m = Inr m' \<and> manager_ok m' \<and> idle_ticks m' = idle_ticks m
    \<and> removed m' = removed m @ rs"
proof (induction es arbitrary: m)
  case Nil
  then show ?case by simp
next
  case (Cons e es)
  show ?case
  proof (cases e)
    case (Heartbeat src uin sk now)
    from heartbeat_eq [OF Cons.prems, of src uin sk now] obtain m1 where
      "handlerHeartbeatReq src uin sk now m = Inr m1" "manager_ok m1"
      "idle_ticks m1 = idle_ticks m" "removed m1 = removed m" by blast
    with Cons.IH [of m1] Heartbeat show ?thesis by auto
  next
    case TimerTick
    from manager_tick_eq [OF Cons.prems] obtain m1 rs where
      "manager_tick m = Inr m1" "manager_ok m1" "idle_ticks m1 = idle_ticks m"
      "removed m1 = removed m @ rs" by blast
    with Cons.IH [of m1] TimerTick show ?thesis by auto
  qed
qed

abbreviation ticks_in :: "'c manager_op list \<Rightarrow> nat" where
  "ticks_in es \<equiv> length (filter (\<lambda>e. e = TimerTick) es)"

definition heartbeats_of :: "u64 \<Rightarrow> 'c manager_op list \<Rightarrow> bool" where
  "heartbeats_of cid es \<longleftrightarrow> (\<exists>src uin sk now. Heartbeat src uin sk now \<in> set es \<and> genConnectId src = cid)"

lemma heartbeats_of_Cons:
  "heartbeats_of cid (e # es) \<longleftrightarrow>
    (\<exists>src uin sk now. e = Heartbeat src uin sk now \<and> genConnectId src = cid) \<or> heartbeats_of cid es"
  unfolding heartbeats_of_def list.set insert_iff by blast

lemma stays_removed:
  "manager_ok m \<Longrightarrow> life m cid = None \<Longrightarrow> \<not> heartbeats_of cid es \<Longrightarrow> run_manager es m = Inr m' \<Longrightarrow>
    life m' cid = None"
proof (induction es arbitrary: m)
  case Nil
  then show ?case by simp
next
  case (Cons e es)
  show ?case
  proof (cases e)
    case (Heartbeat src uin sk now)
    with Cons.prems(3) have src: "genConnectId src \<noteq> cid" "\<not> heartbeats_of cid es"
      by (auto simp: heartbeats_of_Cons)
    from heartbeat_eq [OF Cons.prems(1), of src uin sk now] obtain m1 a where
      "handlerHeartbeatReq src uin sk now m = Inr m1" "manager_ok m1"
      "life m1 = (life m)(genConnectId src \<mapsto> (a, idle_ticks m))" by blast
    with Cons.IH [of m1] Cons.prems(2,4) src Heartbeat show ?thesis by simp
  next
    case TimerTick
    from manager_tick_eq [OF Cons.prems(1)] obtain m1 where
      "manager_tick m = Inr m1" "manager_ok m1"
      "life m1 = (\<lambda>cid. case life m cid of Some (a, Suc d) \<Rightarrow> Some (a, d) | _ \<Rightarrow> None)" by blast
    with Cons.IH [of m1] Cons.prems(2-4) TimerTick show ?thesis by (simp add: heartbeats_of_Cons)
  qed
qed

lemma life_runs_out:
  "manager_ok m \<Longrightarrow> life m cid = Some (a, d) \<Longrightarrow> \<not> heartbeats_of cid es \<Longrightarrow> run_manager es m = Inr m' \<Longrightarrow>
    life m' cid = (if ticks_in es \<le> d then Some (a, d - ticks_in es) else None)
    \<and> (\<exists>rs. removed m' = removed m @ rs \<and> (a \<in> set rs \<or> ticks_in es \<le> d)
         \<and> (ticks_in es \<le> d \<longrightarrow> a \<notin> set rs))"
proof (induction es arbitrary: m d)
  case Nil
  then show ?case by simp
next
  case (Cons e es)
  show ?case
  proof (cases e)
    case (Heartbeat src uin sk now)
    with Cons.prems(3) have src: "genConnectId src \<noteq> cid" "\<not> heartbeats_of cid es"
      by (auto simp: heartbeats_of_Cons)
    from heartbeat_eq [OF Cons.prems(1), of src uin sk now] obtain m1 b where m1:
      "handlerHeartbeatReq src uin sk now m = Inr m1" "manager_ok m1" "removed m1 = removed m"
      "life m1 = (life m)(genConnectId src \<mapsto> (b, idle_ticks m))" by blast
    with Cons.IH [of m1 d] Cons.prems(2,4) src Heartbeat show ?thesis by simp
  next
    case TimerTick
    from manager_tick_eq [OF Cons.prems(1)] obtain m1 rs where m1:
      "manager_tick m = Inr m1" "manager_ok m1" "removed m1 = removed m @ rs"
      "life m1 = (\<lambda>cid. case life m cid of Some (a, Suc d) \<Rightarrow> Some (a, d) | _ \<Rightarrow> None)"
      "\<forall>a. a \<in> set rs \<longleftrightarrow> (\<exists>cid. life m cid = Some (a, 0))" by blast
    have rest: "run_manager es m1 = Inr m'" "\<not> heartbeats_of cid es"
      using Cons.prems(3,4) TimerTick m1(1) by (simp_all add: heartbeats_of_Cons)
    from run_manager_total [OF m1(2), of es] rest(1) obtain rs' where rs': "removed m' = removed m1 @ rs'"
      by auto
    show ?thesis
    proof (cases d)
      case 0
      then have "life m1 cid = None" "a \<in> set rs" using Cons.prems(2) m1(4,5) by auto
      with stays_removed [OF m1(2) _ rest(2,1)] rs' m1(3) 0 TimerTick show ?thesis by simp
    next
      case (Suc k)
      then have l: "life m1 cid = Some (a, k)" using Cons.prems(2) m1(4) by simp
      have "a \<notin> set rs"
      proof
        assume "a \<in> set rs"
        then obtain c where c: "life m c = Some (a, 0)" using m1(5) by blast
        with life_cid [OF Cons.prems(1)] Cons.prems(2) have "c = cid" by metis
        with c Cons.prems(2) Suc show False by simp
      qed
      with Cons.IH [OF m1(2) l rest(2,1)] m1(3) Suc TimerTick show ?thesis by auto
    qed
  qed
qed

text \<open>A heartbeat, then none of that source: the session is there until its ticks are used up.\<close>

lemma heartbeat_then_silence:
  assumes "manager_ok m1" and "handlerHeartbeatReq src uin sk now m1 = Inr m2"
    and "\<not> heartbeats_of (genConnectId src) es" and "run_manager es m2 = Inr m3"
  shows "\<exists>a rs. findSessionByCid (genConnectId src) m2 = Some a
    \<and> findSessionByCid (genConnectId src) m3 = (if ticks_in es \<le> idle_ticks m1 then Some a else None)
    \<and> removed m3 = removed m2 @ rs \<and> (a \<in> set rs \<longleftrightarrow> ticks_in es > idle_ticks m1)"
proof -
  let ?cid = "genConnectId src"
  from heartbeat_eq [OF assms(1), of src uin sk now] assms(2) obtain a where m2: "manager_ok m2"
    "life m2 ?cid = Some (a, idle_ticks m1)" by auto
  from run_manager_total [OF m2(1), of es] assms(4) have m3: "manager_ok m3" by auto
  from life_runs_out [OF m2 assms(3,4)] obtain rs where
    l: "life m3 ?cid = (if ticks_in es \<le> idle_ticks m1
        then Some (a, idle_ticks m1 - ticks_in es) else None)"
      "removed m3 = removed m2 @ rs" "a \<in> set rs \<longleftrightarrow> \<not> ticks_in es \<le> idle_ticks m1" by blast
  have "cidMap m2 ?cid = Some a" using m2(2) by (simp add: life_Some [OF m2(1)])
  moreover have "cidMap m3 ?cid = (if ticks_in es \<le> idle_ticks m1 then Some a else None)"
    using l(1) life_None [OF m3, of ?cid] by (auto simp: life_Some [OF m3] split: if_splits)
  ultimately show ?thesis using l(2,3) by (auto simp: findSessionByCid_def)
qed

section \<open>Properties\<close>

text \<open>C6: A session lives exactly as long as its heartbeats renew it. Whatever happened before and
  whatever other sources do, after a heartbeat of a source the manager keeps that source's
  session, the same one, through \<open>\<lceil>idle / 100\<rceil>\<close> ticks of the timer without another heartbeat;
  the next tick removes it and calls the remove handler for it, and not before.\<close>

theorem session_expires_on_time:
  assumes "new_SessionManager idle = Inr m0"
    and "run_manager before (setSessionRemoveHandler True m0) = Inr m1"
    and "handlerHeartbeatReq src uin sk now m1 = Inr m2"
    and "run_manager after m2 = Inr m3" and "\<not> heartbeats_of (genConnectId src) after"
  shows "\<exists>a rs. findSessionByCid (genConnectId src) m2 = Some a
    \<and> findSessionByCid (genConnectId src) m3
       = (if ticks_in after \<le> (unat idle + 99) div 100 then Some a else None)
    \<and> removed m3 = removed m2 @ rs \<and> (a \<in> set rs \<longleftrightarrow> ticks_in after > (unat idle + 99) div 100)"
proof -
  note new = new_manager_ok [OF assms(1)]
  from run_manager_total [OF new(1), of before] assms(2) new(2) have "manager_ok m1"
    "idle_ticks m1 = (unat idle + 99) div 100" by auto
  with heartbeat_then_silence [OF _ assms(3,5,4)] show ?thesis by auto
qed

definition peer :: "u32 \<Rightarrow> u16 \<Rightarrow> unit source" where
  "peer rip rport = \<lparr>transport = (), getPeerIp = rip, getPeerPort = rport\<rparr>"

theorem session_expires_on_time_witness:
  "\<exists>m0 m1 m2 m3 a rs. new_SessionManager 150 = Inr m0
    \<and> run_manager [TimerTick] (setSessionRemoveHandler True m0) = Inr m1
    \<and> handlerHeartbeatReq (peer 1 2) 7 0 0 m1 = Inr m2
    \<and> run_manager [TimerTick, Heartbeat (peer 1 3) 7 0 0, TimerTick, TimerTick] m2 = Inr m3
    \<and> findSessionByCid (genConnectId (peer 1 2)) m3 = None
    \<and> removed m3 = removed m2 @ rs \<and> a \<in> set rs"
proof -
  obtain m0 :: "unit manager" where m0: "new_SessionManager 150 = Inr m0"
    using new_manager_total by blast
  note ok0 = new_manager_ok(1) [OF m0]
  from run_manager_total [OF ok0, of "[TimerTick]"] obtain m1 where
    m1: "run_manager [TimerTick] (setSessionRemoveHandler True m0) = Inr m1" "manager_ok m1" by blast
  from heartbeat_eq [OF m1(2), of "peer 1 2" 7 0 0] obtain m2 where
    m2: "handlerHeartbeatReq (peer 1 2) 7 0 0 m1 = Inr m2" "manager_ok m2" by blast
  let ?es = "[TimerTick, Heartbeat (peer 1 3) 7 0 0, TimerTick, TimerTick]"
  from run_manager_total [OF m2(2), of ?es] obtain m3 where m3: "run_manager ?es m2 = Inr m3" by blast
  have "\<not> heartbeats_of (genConnectId (peer 1 2)) ?es"
    by (auto simp: heartbeats_of_def genConnectId_injective peer_def)
  from session_expires_on_time [OF m0 m1(1) m2(1) m3 this] m0 m1(1) m2(1) m3
  show ?thesis by auto
qed

text \<open>C7: No manager with a remove handler ever fails, whatever heartbeats and ticks come, and in
  every state it reaches each registered session has exactly one armed timeout and each armed
  timeout belongs to a registered session.\<close>

theorem manager_invariant:
  assumes "new_SessionManager idle = Inr m0"
  shows "\<exists>m. run_manager es (setSessionRemoveHandler True m0) = Inr m
    \<and> (\<forall>cid a. findSessionByCid cid m = Some a \<longrightarrow> a < length (sessions m)
         \<and> s_cid (sessions m ! a) = cid
         \<and> (\<exists>!t. \<exists>d. due (timer m) t = Some (d, a)))
    \<and> (\<forall>t d a. due (timer m) t = Some (d, a) \<longrightarrow>
         findSessionByCid (s_cid (sessions m ! a)) m = Some a)"
proof -
  from run_manager_total [OF new_manager_ok(1) [OF assms], of es] obtain m where
    m: "run_manager es (setSessionRemoveHandler True m0) = Inr m" "manager_ok m" by blast
  note M = manager_okD(3,4) [OF m(2)]
  have "\<exists>!t. \<exists>d. due (timer m) t = Some (d, a)" if "cidMap m cid = Some a" for cid a
    using M(1) [OF that] M(2) by (metis option.inject)
  with m(1) M show ?thesis unfolding findSessionByCid_def by blast
qed

theorem manager_invariant_witness:
  "\<exists>m0 m. new_SessionManager 150 = Inr m0
    \<and> run_manager [Heartbeat (peer 1 2) 7 0 0, TimerTick] (setSessionRemoveHandler True m0) = Inr m"
proof -
  obtain m0 :: "unit manager" where m0: "new_SessionManager 150 = Inr m0"
    using new_manager_total by blast
  from manager_invariant [OF m0, of "[Heartbeat (peer 1 2) 7 0 0, TimerTick]"] m0
  show ?thesis by blast
qed

text \<open>Removing a session removes every login of its user from the user map, those on other
  connections too, although those sessions stay registered under their connection ids: nothing
  sent to the user reaches them any more.\<close>

theorem removal_hides_other_logins:
  assumes "removeSession a m = Inr m'" and "s_uin (sessions m ! b) = s_uin (sessions m ! a)"
    and "s_cid (sessions m ! b) \<noteq> s_cid (sessions m ! a)" and "cidMap m (s_cid (sessions m ! b)) = Some b"
  shows "sessions_of_uin (s_uin (sessions m ! b)) m' = []
    \<and> findSessionByCid (s_cid (sessions m ! b)) m' = Some b"
  using assms by (auto simp: removeSession_def sessions_of_uin_def findSessionByCid_def Let_def
      filter_empty_conv split: if_splits)

theorem removal_hides_other_logins_witness:
  "\<exists>(m :: unit manager) m'. removeSession 0 m = Inr m' \<and> sessions_of_uin 7 m = [0, 1] \<and> sessions_of_uin 7 m' = []
    \<and> findSessionByCid (genConnectId (peer 1 3)) m' = Some 1"
proof -
  define w :: "nat wheel" where "w = undefined"
  let ?s = "new_Session 7 0 (peer 1 2) 0" and ?t = "new_Session 7 0 (peer 1 3) 0"
  define m where "m = addSession 1 (addSession 0 \<lparr>sessions = [?s, ?t], uinMap = [],
    cidMap = (\<lambda>_. None), idleExpireMs = 100, timer = w, removeHandler_set = True, removed = []\<rparr>)"
  have ne: "genConnectId (peer 1 3) \<noteq> genConnectId (peer 1 2)"
    by (simp add: genConnectId_injective peer_def)
  then have f: "sessions m = [?s, ?t]" "uinMap m = [(7, 0), (7, 1)]" "removeHandler_set m"
    "cidMap m (genConnectId (peer 1 3)) = Some 1"
    by (simp_all add: m_def addSession_def new_Session_def Let_def)
  then obtain m' where m': "removeSession 0 m = Inr m'" by (simp add: removeSession_def Let_def)
  from removal_hides_other_logins [OF m', of 1] f ne m' show ?thesis
    by (intro exI [of _ m] exI [of _ m']) (simp add: new_Session_def sessions_of_uin_def)
qed

text \<open>C38: Removing a session by hand leaves its timeout armed. When the same peer has come back
  with a heartbeat, the old timeout, if it is due at the next tick, removes the new session
  from the connection map, whatever time the heartbeat gave it.\<close>

theorem stale_timeout_removes_new_session:
  assumes "manager_ok m" and "due (timer m) t = Some (0, a)"
    and "genConnectId src = s_cid (sessions m ! a)" and "removeSession a m = Inr m1"
    and "handlerHeartbeatReq src uin sk now m1 = Inr m2"
  shows "findSessionByCid (genConnectId src) m2 = Some (length (sessions m))
    \<and> (\<exists>m3. manager_tick m2 = Inr m3 \<and> findSessionByCid (genConnectId src) m3 = None)"
proof -
  note M = manager_okD [OF assms(1)]
  let ?n = "length (timeouts (timer m))" and ?b = "length (sessions m)" and ?cid = "genConnectId src"
  from M(4) [OF assms(2)] have a: "a < ?b" by blast
  have m1: "timer m1 = timer m" "sessions m1 = sessions m" "cidMap m1 ?cid = None"
    "removeHandler_set m1" using assms(3,4) M(2) by (auto simp: removeSession_def Let_def)
  let ?s = "new_Session uin sk src now"
  let ?m0 = "addSession ?b (m1\<lparr>sessions := sessions m @ [?s]\<rparr>)"
  have s: "s_timeout ?s = None" "s_cid ?s = ?cid" by (simp_all add: new_Session_def)
  have m0: "timer ?m0 = timer m" "sessions ?m0 = sessions m @ [?s]" "removeHandler_set ?m0"
    "cidMap ?m0 ?cid = Some ?b" using m1 s by (simp_all add: addSession_def Let_def)
  have "touchSession ?b now ?m0 = Inr m2"
    using assms(5) m1(2,3) by (simp add: handlerHeartbeatReq_def findSessionByCid_def Let_def)
  with touchSession_eq [of ?m0 ?b now] M(1) m0(1-3) s(1) have m2: "wheel_ok (timer m2)"
    "due (timer m2) = (due (timer m))(?n \<mapsto> (idle_ticks ?m0, ?b))"
    "sessions m2 = sessions m @ [?s\<lparr>s_timeout := Some ?n, tsUpdate := now\<rparr>]"
    "cidMap m2 = cidMap ?m0" "removeHandler_set m2" by (auto simp: Let_def)
  have "t \<noteq> ?n" using assms(2) due_fresh [OF M(1)] by auto
  then have t: "due (timer m2) t = Some (0, a)" using assms(2) m2(2) by simp
  from wheel.tick_law [OF m2(1)] obtain w f where w: "tick (timer m2) = Inr (w, f)"
    "\<forall>t a. (t, a) \<in> set f \<longleftrightarrow> due (timer m2) t = Some (0, a)" by blast
  with t have af: "a \<in> set (map snd f)" by force
  have "removeHandler_set (m2\<lparr>timer := w\<rparr>)" using m2(5) by simp
  from remove_all_eq [OF this, of "map snd f"] obtain m3 where
    m3: "remove_all (map snd f) (m2\<lparr>timer := w\<rparr>) = Inr m3" "\<forall>cid. cidMap m3 cid
      = (if \<exists>a \<in> set (map snd f). s_cid (sessions m2 ! a) = cid then None else cidMap m2 cid)" by auto
  have "s_cid (sessions m2 ! a) = ?cid" using a m2(3) assms(3) by (simp add: nth_append)
  with af m3(2) have "cidMap m3 ?cid = None" by auto
  moreover have "manager_tick m2 = Inr m3" using w(1) m3(1) by (simp add: manager_tick_def)
  ultimately show ?thesis using m0(4) m2(4) by (simp add: findSessionByCid_def)
qed

theorem stale_timeout_removes_new_session_witness:
  "\<exists>(m :: unit manager) m1 m2 m3. removeSession 0 m = Inr m1
    \<and> handlerHeartbeatReq (peer 1 2) 7 0 5 m1 = Inr m2 \<and> manager_tick m2 = Inr m3
    \<and> findSessionByCid (genConnectId (peer 1 2)) m2 \<noteq> None
    \<and> findSessionByCid (genConnectId (peer 1 2)) m3 = None"
proof -
  obtain m0 :: "unit manager" where m0: "new_SessionManager 0 = Inr m0"
    using new_manager_total by blast
  let ?m0 = "setSessionRemoveHandler True m0"
  note ok0 = new_manager_ok [OF m0]
  have e: "cidMap ?m0 (genConnectId (peer 1 2)) = None" "sessions ?m0 = []"
    using ok0(4) m0 by (auto simp: setSessionRemoveHandler_def new_SessionManager_def)
  from heartbeat_new [OF ok0(1) e(1) refl, of 7 0 0] obtain m :: "unit manager" where
    h: "manager_ok m" "life m = (life ?m0)(genConnectId (peer 1 2) \<mapsto> (length (sessions ?m0), idle_ticks ?m0))"
    by blast
  have m: "manager_ok m" "life m (genConnectId (peer 1 2)) = Some (0, 0)"
    using h ok0(2) e(2) by simp_all
  then obtain t where t: "due (timer m) t = Some (0, 0)" by (auto simp: life_Some)
  have cid: "genConnectId (peer 1 2) = s_cid (sessions m ! 0)" using life_cid [OF m] by simp
  obtain m1 where m1: "removeSession 0 m = Inr m1"
    using manager_okD(2) [OF m(1)] by (simp add: removeSession_def Let_def)
  have w1: "wheel_ok (timer m1)" "cidMap m1 (genConnectId (peer 1 2)) = None"
    using m1 manager_okD(1,2) [OF m(1)] cid by (auto simp: removeSession_def Let_def)
  let ?m1 = "addSession (length (sessions m1))
      (m1\<lparr>sessions := sessions m1 @ [new_Session 7 0 (peer 1 2) 5]\<rparr>)"
  have "wheel_ok (timer ?m1)" using w1(1) by (simp add: addSession_def Let_def)
  from touchSession_eq [OF this] obtain m2 where "touchSession (length (sessions m1)) 5 ?m1 = Inr m2"
    by blast
  then have m2: "handlerHeartbeatReq (peer 1 2) 7 0 5 m1 = Inr m2"
    using w1(2) by (simp add: handlerHeartbeatReq_def findSessionByCid_def Let_def)
  from stale_timeout_removes_new_session [OF m(1) t cid m1 m2] obtain m3 where
    m3: "manager_tick m2 = Inr m3" "findSessionByCid (genConnectId (peer 1 2)) m2 \<noteq> None"
      "findSessionByCid (genConnectId (peer 1 2)) m3 = None" by auto
  show ?thesis
    by (intro exI [of _ m] exI [of _ m1] exI [of _ m2] exI [of _ m3] conjI m1 m2 m3)
qed

end
