(* ===== verification/FieldLenNetPack.thy ===== *)
theory FieldLenNetPack
  imports VecBuffer
begin

text \<open>
  \<^verbatim>\<open>netpack/FieldLenNetPack.hpp\<close>: the length-prefixed packet format. A packet is a
  packed 12-byte header in network byte order (total length, protocol, version, sequence
  number, a reserved field, command) and the content. \<open>FLNPack\<close> writes packets into fresh
  buffers and reads them off the front of a receive buffer.
\<close>

section \<open>Messages and headers\<close>

text \<open>
  The protocol field of a received message is a \<open>static_cast\<close> of one byte: values that are no
  enumerator are kept as they are.
\<close>

datatype FLNPProto =
    FLNPProto_UNKNOWN
  | FLNPProto_PROTOBUF
  | FLNPProto_JSON
  | FLNPProto_other u8

definition proto_of :: "u8 \<Rightarrow> FLNPProto" where
  "proto_of b = (if b = 0 then FLNPProto_UNKNOWN else if b = 1 then FLNPProto_PROTOBUF
     else if b = 2 then FLNPProto_JSON else FLNPProto_other b)"

fun proto_code :: "FLNPProto \<Rightarrow> u8" where
  "proto_code FLNPProto_UNKNOWN = 0"
| "proto_code FLNPProto_PROTOBUF = 1"
| "proto_code FLNPProto_JSON = 2"
| "proto_code (FLNPProto_other b) = b"

text \<open>
  The integer members are signed in the message and unsigned in the header; the conversions
  keep the bits, so both are words here.
\<close>

record PeerMessage =
  pm_cmd :: u32
  pm_buffer :: "nat option"
  pm_proto :: FLNPProto
  pm_version :: u8
  pm_seq :: u16

record FLNPHeader =
  h_len :: u16
  h_proto :: u8
  h_ver :: u8
  h_seq :: u16
  h_reserv :: u16
  h_cmd :: u32

definition header_size :: nat where
  "header_size = 12"

text \<open>The packed layout of the structure in memory.\<close>

definition header_bytes :: "FLNPHeader \<Rightarrow> byte list" where
  "header_bytes h = store_le 2 (h_len h) @ [h_proto h, h_ver h] @ store_le 2 (h_seq h)
     @ store_le 2 (h_reserv h) @ store_le 4 (h_cmd h)"

definition header_of :: "byte list \<Rightarrow> FLNPHeader" where
  "header_of bs =
     \<lparr>h_len = load_le (take 2 bs), h_proto = bs ! 2, h_ver = bs ! 3,
      h_seq = load_le (take 2 (drop 4 bs)), h_reserv = load_le (take 2 (drop 6 bs)),
      h_cmd = load_le (take 4 (drop 8 bs))\<rparr>"

section \<open>The header codec\<close>

text \<open>
  \<open>peekPacketLength\<close> on raw memory (\<open>bufptr\<close> is null or a position in a vector) and on a
  buffer. The second goes through \<open>int16_t\<close>, so its result is sign extended.
\<close>

definition peekPacketLength_raw :: "mem \<Rightarrow> (nat \<times> nat) option \<Rightarrow> nat \<Rightarrow> int res" where
  "peekPacketLength_raw m bufptr buflen =
     (case bufptr of
        None \<Rightarrow> Inr (- 1)
      | Some (a, pos) \<Rightarrow>
          if buflen > 2
          then bind_res (mem_read m a pos 2) (\<lambda>bs. Inr (int (unat (ntoh16 (load_le bs)))))
          else Inr (- 1))"

definition peekPacketLength :: "mem \<Rightarrow> nat \<Rightarrow> int res" where
  "peekPacketLength m p =
     (if readableSize m p \<ge> 2
      then bind_res (peekInt16 m p) (\<lambda>w. Inr (sint w))
      else Inr (- 1))"

definition encode_raw ::
  "u16 \<Rightarrow> u8 \<Rightarrow> u8 \<Rightarrow> u16 \<Rightarrow> u32 \<Rightarrow> mem \<Rightarrow> nat \<Rightarrow> nat \<Rightarrow> nat \<Rightarrow> mem res" where
  "encode_raw conlen proto version seq cmd m a pos buflen =
     assert_then (buflen \<ge> header_size)
       (mem_write m a pos (header_bytes
          \<lparr>h_len = hton16 (conlen + of_nat header_size), h_proto = proto, h_ver = version,
           h_seq = hton16 seq, h_reserv = 0, h_cmd = hton32 cmd\<rparr>))"

definition encode_buf ::
  "u16 \<Rightarrow> u8 \<Rightarrow> u8 \<Rightarrow> u16 \<Rightarrow> u32 \<Rightarrow> mem \<Rightarrow> nat \<Rightarrow> mem res" where
  "encode_buf conlen proto version seq cmd m p =
     bind_res (encode_raw conlen proto version seq cmd m (vb_buffer (vb m p))
                 (writtablePtr m p) (writtableSize m p))
       (\<lambda>m'. markWrite m' p header_size)"

definition encode_msg :: "PeerMessage \<Rightarrow> mem \<Rightarrow> nat \<Rightarrow> mem res" where
  "encode_msg pm m p =
     (case pm_buffer pm of
        None \<Rightarrow> Inl NullDeref
      | Some c \<Rightarrow>
          bind_res (encode_raw (of_nat (readableSize m c)) (proto_code (pm_proto pm))
                      (pm_version pm) (pm_seq pm) (pm_cmd pm) m (vb_buffer (vb m p))
                      (writtablePtr m p) (writtableSize m p))
            (\<lambda>m'. markWrite m' p header_size))"

definition decode :: "mem \<Rightarrow> nat \<Rightarrow> PeerMessage \<Rightarrow> (mem \<times> PeerMessage) res" where
  "decode m p pm =
     assert_then (readableSize m p > header_size)
       (let a = vb_buffer (vb m p); pos = readablePtr m p
        in bind_res (markRead m p header_size)
             (\<lambda>m'. bind_res (mem_read m' a pos header_size)
               (\<lambda>bs. let h = header_of bs in
                  Inr (m', pm\<lparr>pm_cmd := ntoh32 (h_cmd h), pm_seq := ntoh16 (h_seq h),
                              pm_proto := proto_of (h_proto h), pm_version := h_ver h,
                              pm_buffer := Some p\<rparr>))))"

section \<open>FLNPack\<close>

text \<open>\<open>new PeerMessage\<close> leaves the scalar members indeterminate; \<open>decode\<close> sets all of them.\<close>

definition new_PeerMessage :: PeerMessage where
  "new_PeerMessage = \<lparr>pm_cmd = 0, pm_buffer = None, pm_proto = FLNPProto_UNKNOWN,
     pm_version = 0, pm_seq = 0\<rparr>"

definition peekPackLength :: "mem \<Rightarrow> nat \<Rightarrow> int res" where
  "peekPackLength m p = peekPacketLength m p"

definition readMessage :: "mem \<Rightarrow> nat \<Rightarrow> (mem \<times> PeerMessage option) res" where
  "readMessage m p =
     bind_res (peekPacketLength m p)
       (\<lambda>packSize.
          if packSize > 0
          then bind_res (split_buf m p (nat packSize))
            (\<lambda>(m1, splited). case splited of
               None \<Rightarrow> Inr (m1, None)
             | Some q \<Rightarrow> bind_res (decode m1 q new_PeerMessage) (\<lambda>(m2, pm). Inr (m2, Some pm)))
          else Inr (m, None))"

definition createNetPackBuffer :: "mem \<Rightarrow> nat \<Rightarrow> (mem \<times> nat) res" where
  "createNetPackBuffer m conlen = new_VecBuffer m (sz_add header_size conlen)"

definition createNetPackBuffer_hdr ::
  "mem \<Rightarrow> u16 \<Rightarrow> u8 \<Rightarrow> u8 \<Rightarrow> u16 \<Rightarrow> u32 \<Rightarrow> (mem \<times> nat) res" where
  "createNetPackBuffer_hdr m conlen proto version seq cmd =
     bind_res (createNetPackBuffer m (unat conlen))
       (\<lambda>(m1, q). bind_res (encode_buf conlen proto version seq cmd m1 q)
          (\<lambda>m2. Inr (m2, q)))"

definition writeMessage_raw ::
  "mem \<Rightarrow> u8 \<Rightarrow> u8 \<Rightarrow> u16 \<Rightarrow> u32 \<Rightarrow> byte list \<Rightarrow> (mem \<times> nat) res" where
  "writeMessage_raw m proto version seq cmd con =
     bind_res (createNetPackBuffer_hdr m (of_nat (length con)) proto version seq cmd)
       (\<lambda>(m1, q). if length con > 0
          then bind_res (append_bytes m1 q con) (\<lambda>m2. Inr (m2, q))
          else Inr (m1, q))"

definition writeMessage :: "mem \<Rightarrow> PeerMessage \<Rightarrow> (mem \<times> nat) res" where
  "writeMessage m pm =
     (case pm_buffer pm of
        None \<Rightarrow> Inl NullDeref
      | Some c \<Rightarrow>
          bind_res (createNetPackBuffer_hdr m (of_nat (readableSize m c)) (proto_code (pm_proto pm))
                      (pm_version pm) (pm_seq pm) (pm_cmd pm))
            (\<lambda>(m1, q). if readableSize m1 c > 0
               then bind_res (mem_read m1 (vb_buffer (vb m1 c)) (readablePtr m1 c) (readableSize m1 c))
                 (\<lambda>bs. bind_res (append_bytes m1 q bs) (\<lambda>m2. Inr (m2, q)))
               else Inr (m1, q)))"

section \<open>The format on byte strings\<close>

text \<open>
  The abstract view: the packet of a message as bytes, and one decoding step on a byte string.
  \<open>Need_more\<close> is "no message yet"; \<open>Malformed\<close> stands for a packet at which the code aborts.
\<close>

definition packet_bytes :: "u16 \<Rightarrow> u8 \<Rightarrow> u8 \<Rightarrow> u16 \<Rightarrow> u32 \<Rightarrow> byte list \<Rightarrow> byte list" where
  "packet_bytes conlen proto version seq cmd con =
     header_bytes \<lparr>h_len = hton16 (conlen + 12), h_proto = proto, h_ver = version,
       h_seq = hton16 seq, h_reserv = 0, h_cmd = hton32 cmd\<rparr> @ con"

datatype view = View (v_cmd: u32) (v_proto: FLNPProto) (v_version: u8) (v_seq: u16)
  (v_content: "byte list")

datatype 'v frame = Need_more | Malformed | Frame 'v "byte list"

definition frame_length :: "byte list \<Rightarrow> int" where
  "frame_length bs = sint (ntoh16 (load_le (take 2 bs)))"

definition header_view :: "byte list \<Rightarrow> byte list \<Rightarrow> view" where
  "header_view hdr con = (let h = header_of hdr in
     View (ntoh32 (h_cmd h)) (proto_of (h_proto h)) (h_ver h) (ntoh16 (h_seq h)) con)"

definition next_frame :: "byte list \<Rightarrow> view frame" where
  "next_frame bs =
     (if length bs < 2 \<or> frame_length bs \<le> 0 \<or> int (length bs) < frame_length bs then Need_more
      else if frame_length bs \<le> 12 then Malformed
      else let n = nat (frame_length bs) in
        Frame (header_view (take 12 bs) (take (n - 12) (drop 12 bs))) (drop n bs))"

text \<open>What a handler can see of a message.\<close>

definition msg_view :: "mem \<Rightarrow> PeerMessage \<Rightarrow> view" where
  "msg_view m pm = View (pm_cmd pm) (pm_proto pm) (pm_version pm) (pm_seq pm)
     (case pm_buffer pm of None \<Rightarrow> [] | Some q \<Rightarrow> readable m q)"

section \<open>The header layout\<close>

lemma header_size_eq [simp]: "header_size = 12"
  by (simp add: header_size_def)

lemma length_header_bytes [simp]: "length (header_bytes h) = 12"
  by (simp add: header_bytes_def)

lemma header_of_bytes [simp]: "header_of (header_bytes h @ rest) = h"
proof -
  have l2: "load_le (store_le 2 x) = x" for x :: u16 by (simp add: load_store_le)
  have l4: "load_le (store_le 4 x) = x" for x :: u32 by (simp add: load_store_le)
  show ?thesis
    by (simp add: header_of_def header_bytes_def l2 l4 nth_append)
qed

lemma header_of_bytes_exact [simp]: "header_of (header_bytes h) = h"
  using header_of_bytes [of h "[]"] by simp

lemma take_header_bytes:
  "take 12 (header_bytes h @ rest) = header_bytes h"
  "drop 12 (header_bytes h @ rest) = rest"
  by simp_all

lemma header_of_take [simp]: "12 \<le> length bs \<Longrightarrow> header_of (take 12 bs) = header_of bs"
  by (simp add: header_of_def drop_take)

lemma h_len_header_of: "h_len (header_of bs) = load_le (take 2 bs)"
  by (simp add: header_of_def)

lemma frame_length_header: "frame_length bs = sint (ntoh16 (h_len (header_of bs)))"
  by (simp add: frame_length_def h_len_header_of)

section \<open>Frames\<close>

lemma length_packet_bytes [simp]: "length (packet_bytes n proto ver seq cmd con) = 12 + length con"
  by (simp add: packet_bytes_def)

lemma frame_length_packet:
  "frame_length (packet_bytes n proto ver seq cmd con @ rest) = sint (n + 12)"
  by (simp add: frame_length_header packet_bytes_def net16.ntoh_hton)

lemma sint_len16: "k < 32768 \<Longrightarrow> sint (of_nat k :: u16) = int k"
  by (simp add: signed_of_nat signed_take_bit_int_eq_self)

lemma sint_wrap16:
  assumes "32768 \<le> k" and "k < 65536"
  shows "sint (of_nat k :: u16) = int k - 65536"
proof -
  have "sint (of_nat k :: u16) = signed_take_bit 15 (int k)"
    by (simp add: signed_of_nat)
  also have "\<dots> = (int k + 32768) mod 65536 - 32768"
    by (simp add: signed_take_bit_eq_take_bit_shift take_bit_eq_mod)
  also have "(int k + 32768) mod 65536 = (int k - 32768) mod 65536"
    using mod_add_self2 [of "int k - 32768" 65536] by (simp add: add.commute)
  also have "\<dots> = int k - 32768"
    by (rule mod_pos_pos_trivial) (use assms in linarith)+
  finally show ?thesis by simp
qed

lemma next_frame_packet:
  assumes "0 < length con" and "length con + 12 < 32768"
  shows "next_frame (packet_bytes (of_nat (length con)) proto ver seq cmd con @ rest)
    = Frame (View cmd (proto_of proto) ver seq con) rest"
proof -
  let ?bs = "packet_bytes (of_nat (length con)) proto ver seq cmd con @ rest"
  have "frame_length ?bs = sint (of_nat (length con + 12) :: u16)"
    by (simp add: frame_length_packet add.commute)
  also have "\<dots> = int (length con + 12)"
    using assms(2) by (rule sint_len16)
  finally have l: "frame_length ?bs = int (length con + 12)" .
  have "header_view (take 12 ?bs) con = View cmd (proto_of proto) ver seq con"
    by (simp add: header_view_def packet_bytes_def net16.ntoh_hton net32.ntoh_hton Let_def)
  moreover have "take (length con) (drop 12 ?bs) = con" and "drop (length con + 12) ?bs = rest"
    by (simp_all add: packet_bytes_def)
  ultimately show ?thesis
    using assms(1) unfolding next_frame_def l Let_def by simp
qed

text \<open>More input never changes a frame that is already complete.\<close>

lemma frame_length_append: "2 \<le> length bs \<Longrightarrow> frame_length (bs @ x) = frame_length bs"
  by (simp add: frame_length_def)

lemma next_frame_append:
  assumes "next_frame bs = Frame v r"
  shows "next_frame (bs @ x) = Frame v (r @ x)"
proof -
  from assms have 2: "2 \<le> length bs" and pos: "12 < frame_length bs"
    and le: "frame_length bs \<le> int (length bs)"
    and v: "v = header_view (take 12 bs) (take (nat (frame_length bs) - 12) (drop 12 bs))"
    and r: "r = drop (nat (frame_length bs)) bs"
    by (auto simp: next_frame_def Let_def split: if_splits)
  from le pos have "nat (frame_length bs) - 12 \<le> length bs - 12" and "12 \<le> length bs"
    and "nat (frame_length bs) \<le> length bs"
    by simp_all
  with 2 pos le v r show ?thesis
    by (simp add: next_frame_def frame_length_append Let_def)
qed

lemma next_frame_Frame_length:
  assumes "next_frame bs = Frame v r"
  shows "length r + 12 < length bs" and "length r + length (v_content v) + 12 = length bs"
  using assms by (auto simp: next_frame_def header_view_def Let_def split: if_splits)

lemma next_frame_malformed:
  assumes "next_frame bs = Malformed"
  shows "next_frame (bs @ x) = Malformed"
proof -
  from assms have "2 \<le> length bs" "0 < frame_length bs" "frame_length bs \<le> int (length bs)"
    "frame_length bs \<le> 12" by (auto simp: next_frame_def Let_def split: if_splits)
  then show ?thesis by (simp add: next_frame_def frame_length_def)
qed

lemma next_frame_consumes: "next_frame bs = Frame v r \<Longrightarrow> length r < length bs"
  using next_frame_Frame_length(1) by fastforce

section \<open>Reading implements the format\<close>

lemma peekPacketLength_eq:
  "valid m p \<Longrightarrow> peekPacketLength m p =
    Inr (if 2 \<le> length (readable m p) then frame_length (readable m p) else - 1)"
  by (simp add: peekPacketLength_def readableSize_def peekInt16_eq frame_length_def)

lemma decode_eq:
  assumes "valid m q" and "12 < length (readable m q)"
  obtains m' where
    "decode m q pm = Inr (m', pm\<lparr>pm_cmd := ntoh32 (h_cmd (header_of (readable m q))),
        pm_seq := ntoh16 (h_seq (header_of (readable m q))),
        pm_proto := proto_of (h_proto (header_of (readable m q))),
        pm_version := h_ver (header_of (readable m q)), pm_buffer := Some q\<rparr>)"
    and "markRead m q 12 = Inr m'" and "readable m' q = drop 12 (readable m q)"
proof -
  from assms have len: "12 < vb_len (vb m q)" by simp
  then obtain m' where m': "markRead m q 12 = Inr m'"
    by (simp add: markRead_eq [OF assms(1)])
  then have "vecs m' = vecs m"
    by (auto simp: markRead_def split: if_splits)
  then have "mem_read m' (vb_buffer (vb m q)) (readablePtr m q) 12 = Inr (take 12 (readable m q))"
    using mem_read_readable [OF assms(1), of 12] len
    by (simp only: mem_read_def less_imp_le)
  moreover from assms(2) have "header_of (take 12 (readable m q)) = header_of (readable m q)"
    by simp
  ultimately show ?thesis
    using that [of m'] m' len markRead_readable [OF assms(1) m']
    by (simp add: decode_def readableSize_def Let_def)
qed

lemma decode_short:
  "valid m q \<Longrightarrow> length (readable m q) \<le> 12 \<Longrightarrow> decode m q pm = Inl AssertFail"
  by (simp add: decode_def readableSize_def assert_then_def)

text \<open>
  What the caller can rely on after a message has been read off buffer \<open>p\<close>: the store is
  well formed, the message's buffer lies apart from \<open>p\<close>, older windows that lay apart from
  \<open>p\<close> still do.
\<close>

definition message_read :: "mem \<Rightarrow> mem \<Rightarrow> nat \<Rightarrow> PeerMessage \<Rightarrow> byte list \<Rightarrow> byte list \<Rightarrow> bool" where
  "message_read m m' p pm con rest \<longleftrightarrow> valid m' p \<and> readable m' p = rest
     \<and> data_of m' p = data_of m p
     \<and> (\<exists>q. pm_buffer pm = Some q \<and> guarded m' p q con)
     \<and> (\<forall>r bs. guarded m p r bs \<longrightarrow> guarded m' p r bs)"

lemma markRead_guarded_other:
  assumes "guarded m p r bs" and "valid m q" and "q \<noteq> p" and "q \<noteq> r" and "markRead m q n = Inr m'"
  shows "guarded m' p r bs"
proof -
  from assms(1) have p: "valid m p" "valid m r" by (auto simp: guarded_def)
  from assms(2,5) have "vb m' p = vb m p" "vb m' r = vb m r" "readable m' r = readable m r"
    using assms(3,4) by (auto simp: markRead_eq split: if_splits)
  with assms(1) markRead_valid [OF assms(2,5)] p show ?thesis
    by (auto simp: guarded_def apart_def)
qed

lemma split_guarded_other:
  assumes g: "guarded m p r bs" and s: "split_buf m p n = Inr (m1, Some q)"
  shows "guarded m1 p r bs"
proof -
  from s have "run_op m p (Split n) = Inr m1" by simp
  with run_op_guarded [OF g _ this] show ?thesis by simp
qed

lemma readMessage_need_more:
  assumes v: "valid m p" and f: "next_frame (readable m p) = Need_more"
  shows "readMessage m p = Inr (m, None)"
proof -
  let ?bs = "readable m p"
  consider "length ?bs < 2" | "2 \<le> length ?bs" "frame_length ?bs \<le> 0"
    | "2 \<le> length ?bs" "0 < frame_length ?bs" "int (length ?bs) < frame_length ?bs"
    using f by (fastforce simp: next_frame_def Let_def split: if_splits)
  then show ?thesis
  proof cases
    case 3
    then have "vb_len (vb m p) < nat (frame_length ?bs)" using v by simp
    with 3 v show ?thesis
      by (simp add: readMessage_def peekPacketLength_eq split_buf_eq)
  qed (use v in \<open>simp_all add: readMessage_def peekPacketLength_eq\<close>)
qed

lemma readMessage_split:
  assumes v: "valid m p" and "2 \<le> length (readable m p)"
    and "0 < frame_length (readable m p)" and "frame_length (readable m p) \<le> int (length (readable m p))"
  obtains m1 q where "split_buf m p (nat (frame_length (readable m p))) = Inr (m1, Some q)"
    and "readMessage m p =
      bind_res (decode m1 q new_PeerMessage) (\<lambda>(m2, pm). Inr (m2, Some pm))"
proof -
  let ?n = "nat (frame_length (readable m p))"
  from assms have "?n \<le> vb_len (vb m p)" by simp
  with split_buf_cases [OF v, of ?n] obtain m1 q where s: "split_buf m p ?n = Inr (m1, Some q)"
    by (metis not_le)
  with assms show ?thesis
    by (intro that [of m1 q]) (simp_all add: readMessage_def peekPacketLength_eq)
qed

lemma readMessage_malformed:
  assumes v: "valid m p" and f: "next_frame (readable m p) = Malformed"
  shows "readMessage m p = Inl AssertFail"
proof -
  let ?bs = "readable m p"
  from f have c: "2 \<le> length ?bs" "0 < frame_length ?bs" "frame_length ?bs \<le> int (length ?bs)"
    and short: "frame_length ?bs \<le> 12"
    by (auto simp: next_frame_def Let_def split: if_splits)
  from readMessage_split [OF v c] obtain m1 q
    where s: "split_buf m p (nat (frame_length ?bs)) = Inr (m1, Some q)"
      and r: "readMessage m p =
        bind_res (decode m1 q new_PeerMessage) (\<lambda>(m2, pm). Inr (m2, Some pm))" .
  from split_buf_Some(3,4) [OF v s] short
  have "valid m1 q" and "length (readable m1 q) \<le> 12" by simp_all
  with r show ?thesis by (simp add: decode_short)
qed

text \<open>Splitting a packet off and reading its header leaves the rest of the world as a read leaves it.\<close>

lemma split_header_read:
  assumes v: "valid m p" and s: "split_buf m p n = Inr (m1, Some q)"
    and mr: "markRead m1 q k = Inr m2" and q2: "readable m2 q = con" and pm: "pm_buffer pm = Some q"
  shows "message_read m m2 p pm con (drop n (readable m p))"
proof -
  note sp = split_buf_Some [OF v s]
  from v sp(2) have qp: "q \<noteq> p" by (auto simp: valid_def)
  have v1: "valid m1 p" using split_buf_other(1) [OF v s v] .
  have p2: "readable m2 p = readable m1 p" "vb m2 p = vb m1 p"
    using mr qp by (auto simp: markRead_eq [OF sp(3)] split: if_splits)
  have v2: "valid m2 p" "valid m2 q"
    using markRead_valid [OF sp(3) mr] v1 sp(3) by auto
  have b2: "vb_offset (vb m2 q) + vb_len (vb m2 q) = vb_offset (vb m1 q) + vb_len (vb m1 q)"
    "vb_buffer (vb m2 q) = vb_buffer (vb m1 q)"
    using mr sp(3) by (auto simp: markRead_eq [OF sp(3)] valid_def split: if_splits)
  have "guarded m2 p q con"
    using v2 qp p2 b2 sp(6) q2 by (simp add: guarded_def apart_def)
  moreover have "guarded m2 p r bs" if g: "guarded m p r bs" for r bs
  proof -
    from g have "r < length (bufs m)" by (simp add: guarded_def valid_def)
    with sp(2) have "q \<noteq> r" by simp
    from markRead_guarded_other [OF split_guarded_other [OF g s] sp(3) qp this mr]
    show ?thesis .
  qed
  moreover have "data_of m2 p = data_of m p"
    using mr p2 sp(7,9) by (auto simp: markRead_eq [OF sp(3)] split: if_splits)
  ultimately show ?thesis
    using v2 p2 sp(5) pm by (simp add: message_read_def)
qed

lemma readMessage_frame:
  assumes v: "valid m p" and f: "next_frame (readable m p) = Frame w rest"
  obtains m' pm where "readMessage m p = Inr (m', Some pm)" and "msg_view m' pm = w"
    and "message_read m m' p pm (v_content w) rest"
proof -
  let ?bs = "readable m p"
  let ?n = "nat (frame_length ?bs)"
  from f have c: "2 \<le> length ?bs" "0 < frame_length ?bs" "frame_length ?bs \<le> int (length ?bs)"
    and long: "12 < ?n" and rest: "rest = drop ?n ?bs"
    and w: "w = header_view (take 12 ?bs) (take (?n - 12) (drop 12 ?bs))"
    by (auto simp: next_frame_def Let_def split: if_splits)
  from readMessage_split [OF v c] obtain m1 q where s: "split_buf m p ?n = Inr (m1, Some q)"
      and r: "readMessage m p =
        bind_res (decode m1 q new_PeerMessage) (\<lambda>(m2, pm). Inr (m2, Some pm))" .
  note sp = split_buf_Some [OF v s]
  from c(3) have "?n \<le> length ?bs" by simp
  with sp(4) long have long': "12 < length (readable m1 q)" by simp
  from decode_eq [OF sp(3) long', of new_PeerMessage] obtain m2 where
    d: "decode m1 q new_PeerMessage = Inr (m2,
        new_PeerMessage\<lparr>pm_cmd := ntoh32 (h_cmd (header_of (readable m1 q))),
        pm_seq := ntoh16 (h_seq (header_of (readable m1 q))),
        pm_proto := proto_of (h_proto (header_of (readable m1 q))),
        pm_version := h_ver (header_of (readable m1 q)), pm_buffer := Some q\<rparr>)" (is "_ = Inr (m2, ?pm)")
    and mr: "markRead m1 q 12 = Inr m2" and q2: "readable m2 q = drop 12 (readable m1 q)" .
  have hd_eq: "header_of (readable m1 q) = header_of (take 12 ?bs)"
    using long' sp(4) header_of_take [of "readable m1 q"] long
    by (metis header_of_take le_less min.absorb3 order.strict_iff_not take_take length_take
        \<open>?n \<le> length ?bs\<close> order.strict_trans2 nat_less_le)
  have con: "drop 12 (readable m1 q) = take (?n - 12) (drop 12 ?bs)"
    by (simp add: sp(4) drop_take)
  have "msg_view m2 ?pm = w"
    by (simp add: msg_view_def w header_view_def hd_eq q2 con Let_def)
  moreover have "message_read m m2 p ?pm (v_content w) rest"
    unfolding rest
    by (rule split_header_read [OF v s mr]) (use q2 con in \<open>simp_all add: w header_view_def Let_def\<close>)
  moreover have "readMessage m p = Inr (m2, Some ?pm)"
    by (simp add: r d)
  ultimately show ?thesis using that by blast
qed

section \<open>Writing implements the format\<close>

abbreviation packet_header :: "u16 \<Rightarrow> u8 \<Rightarrow> u8 \<Rightarrow> u16 \<Rightarrow> u32 \<Rightarrow> byte list" where
  "packet_header conlen proto version seq cmd \<equiv> packet_bytes conlen proto version seq cmd []"

lemma encode_buf_eq:
  "encode_buf conlen proto version seq cmd m p =
    assert_then (12 \<le> writtableSize m p)
      (append_bytes m p (packet_header conlen proto version seq cmd))"
  by (simp add: encode_buf_def encode_raw_def append_bytes_def packet_bytes_def assert_then_def)

lemma append_bytes_fits:
  assumes "valid m p" and "length bs \<le> writtableSize m p"
  obtains m' where "append_bytes m p bs = Inr m'"
    and "writtableSize m' p = writtableSize m p - length bs"
proof -
  note b = valid_bounds [OF assms(1)]
  from assms obtain m' where m': "append_bytes m p bs = Inr m'"
    by (simp add: append_bytes_eq)
  from append_bytes_valid [OF assms(1) m' assms(1)] have v: "valid m' p" .
  from assms have p: "p < length (bufs m)" by (simp add: valid_def)
  have "writtableSize m' p = writtableSize m p - length bs"
    unfolding writtableSize_eq [OF v] writtableSize_eq [OF assms(1)]
    using m' assms p b by (auto simp: append_bytes_eq writtablePtr_def writtableSize_eq)
  with m' show ?thesis by (rule that)
qed

text \<open>A freshly written buffer does not disturb the buffers that were there.\<close>

definition extends :: "mem \<Rightarrow> mem \<Rightarrow> bool" where
  "extends m m' \<longleftrightarrow> (\<forall>r. valid m r \<longrightarrow> valid m' r \<and> vb m' r = vb m r \<and> readable m' r = readable m r)"

lemma append_fresh_extends:
  assumes "extends m m1" and "valid m1 q" and "q \<ge> length (bufs m)"
    and "\<forall>r. valid m r \<longrightarrow> vb_buffer (vb m1 r) \<noteq> vb_buffer (vb m1 q)"
    and "append_bytes m1 q bs = Inr m2"
  shows "extends m m2" and "\<forall>r. valid m r \<longrightarrow> vb_buffer (vb m2 r) \<noteq> vb_buffer (vb m2 q)"
proof -
  have ql: "q < length (bufs m1)" using assms(2) by (simp add: valid_def)
  have vbq: "vb m2 r = vb m1 r" if "r \<noteq> q" for r
    using assms(2,5) that by (auto simp: append_bytes_eq split: if_splits)
  have bq: "vb_buffer (vb m2 q) = vb_buffer (vb m1 q)"
    using assms(2,5) ql by (auto simp: append_bytes_eq split: if_splits)
  have ne: "r \<noteq> q" if "valid m r" for r
    using that assms(3) by (auto simp: valid_def)
  have "readable m2 r = readable m1 r" if "valid m r" for r
    using append_bytes_apart [OF assms(2,5) ne [OF that]] assms(1,4) that
    by (auto simp: apart_def extends_def)
  then show "extends m m2"
    using assms(1) append_bytes_valid [OF assms(2,5)] vbq ne by (auto simp: extends_def)
  show "\<forall>r. valid m r \<longrightarrow> vb_buffer (vb m2 r) \<noteq> vb_buffer (vb m2 q)"
    using assms(4) vbq ne bq by auto
qed

lemma createNetPackBuffer_hdr_ok:
  assumes "mem_ok m"
  obtains m1 q where
    "createNetPackBuffer_hdr m conlen proto version seq cmd = Inr (m1, q)"
    and "valid m1 q" and "readable m1 q = packet_header conlen proto version seq cmd"
    and "writtableSize m1 q = unat conlen" and "extends m m1" and "q = length (bufs m)"
    and "\<forall>r. valid m r \<longrightarrow> vb_buffer (vb m1 r) \<noteq> vb_buffer (vb m1 q)"
proof -
  let ?h = "packet_header conlen proto version seq cmd"
  have small: "unat conlen < 65536" using unsigned_less [of conlen] by simp
  then have "new_VecBuffer m (12 + unat conlen) \<noteq> Inl e" for e
    by (simp add: new_VecBuffer_def max_vec_def)
  then obtain m0 q where c: "new_VecBuffer m (12 + unat conlen) = Inr (m0, q)"
    by (metis old.prod.exhaust sum.exhaust)
  note n = new_VecBuffer_Inr [OF assms c]
  have ext0: "extends m m0" and fr0: "\<forall>r. valid m r \<longrightarrow> vb_buffer (vb m0 r) \<noteq> vb_buffer (vb m0 q)"
    using new_VecBuffer_other [OF c] valid_bounds(1) n by (force simp: extends_def valid_def nth_append)+
  obtain m1 where m1: "append_bytes m0 q ?h = Inr m1"
    and w: "writtableSize m1 q = writtableSize m0 q - length ?h"
    by (rule append_bytes_fits [OF n(1), of ?h]) (use n(4) in simp)
  have ge: "length (bufs m) \<le> q" using n(2) by simp
  note e = append_fresh_extends [OF ext0 n(1) ge fr0 m1]
  have "createNetPackBuffer_hdr m conlen proto version seq cmd = Inr (m1, q)"
    using c m1 n(4) small
    by (simp add: createNetPackBuffer_hdr_def createNetPackBuffer_def encode_buf_eq)
  then show ?thesis
    using append_bytes_valid [OF n(1) m1 n(1)] append_bytes_readable [OF n(1) m1] n e w
    by (intro that [of m1 q]) simp_all
qed

lemma packet_bytes_append:
  "packet_header n proto ver seq cmd @ con = packet_bytes n proto ver seq cmd con"
  by (simp add: packet_bytes_def)

lemma writeMessage_raw_ok:
  assumes "mem_ok m" and "length con < 65536"
  obtains m' q where
    "writeMessage_raw m proto version seq cmd con = Inr (m', q)" and "valid m' q"
    and "readable m' q = packet_bytes (of_nat (length con)) proto version seq cmd con"
    and "extends m m'" and "q = length (bufs m)"
proof -
  let ?n = "of_nat (length con) :: u16"
  obtain m1 q where c: "createNetPackBuffer_hdr m ?n proto version seq cmd = Inr (m1, q)"
    and v: "valid m1 q" and r: "readable m1 q = packet_header ?n proto version seq cmd"
    and w: "writtableSize m1 q = unat ?n" and e: "extends m m1" and q: "q = length (bufs m)"
    and fr: "\<forall>r. valid m r \<longrightarrow> vb_buffer (vb m1 r) \<noteq> vb_buffer (vb m1 q)"
    by (rule createNetPackBuffer_hdr_ok [OF assms(1)])
  show ?thesis
  proof (cases "con = []")
    case True
    with c v r e q that show ?thesis by (simp add: writeMessage_raw_def)
  next
    case False
    from assms(2) have "unat ?n = length con" by (simp add: unat_of_nat)
    with w have "length con \<le> writtableSize m1 q" by simp
    from append_bytes_fits [OF v this] obtain m2 where m2: "append_bytes m1 q con = Inr m2" .
    from q have "length (bufs m) \<le> q" by simp
    from append_fresh_extends [OF e v this fr m2] have "extends m m2" by simp
    with False c m2 append_bytes_valid [OF v m2 v] append_bytes_readable [OF v m2] r q
    show ?thesis
      by (intro that [of m2 q]) (simp_all add: writeMessage_raw_def packet_bytes_append)
  qed
qed

lemma writeMessage_raw_overflow:
  assumes "mem_ok m" and "65536 \<le> length con"
  shows "writeMessage_raw m proto version seq cmd con = Inl OutOfBounds"
proof -
  let ?n = "of_nat (length con) :: u16"
  obtain m1 q where c: "createNetPackBuffer_hdr m ?n proto version seq cmd = Inr (m1, q)"
    and v: "valid m1 q" and w: "writtableSize m1 q = unat ?n"
    by (rule createNetPackBuffer_hdr_ok [OF assms(1)])
  have "unat ?n < 65536" using unsigned_less [of ?n] by simp
  with assms(2) w have "\<not> length con \<le> writtableSize m1 q" by simp
  with v have "append_bytes m1 q con = Inl OutOfBounds"
    by (simp add: append_bytes_eq)
  moreover from assms(2) have "con \<noteq> []" by auto
  ultimately show ?thesis using c by (simp add: writeMessage_raw_def)
qed

text \<open>The two overloads of \<open>writeMessage\<close> write the same packet.\<close>

lemma writeMessage_eq:
  assumes "valid m c" and "pm_buffer pm = Some c"
  shows "writeMessage m pm = writeMessage_raw m (proto_code (pm_proto pm)) (pm_version pm)
    (pm_seq pm) (pm_cmd pm) (readable m c)"
proof -
  let ?n = "of_nat (length (readable m c)) :: u16"
  from assms(1) have "mem_ok m" by (simp add: valid_def)
  then obtain m1 q where cr: "createNetPackBuffer_hdr m ?n (proto_code (pm_proto pm))
      (pm_version pm) (pm_seq pm) (pm_cmd pm) = Inr (m1, q)" and e: "extends m m1"
    by (rule createNetPackBuffer_hdr_ok)
  from e assms(1) have v1: "valid m1 c" and same: "vb m1 c = vb m c" "readable m1 c = readable m c"
    by (auto simp: extends_def)
  have "mem_read m1 (vb_buffer (vb m1 c)) (readablePtr m1 c) (vb_len (vb m1 c))
      = Inr (readable m c)"
    using mem_read_readable [OF v1 order.refl] same assms(1) by simp
  with cr same assms show ?thesis
    by (simp add: writeMessage_def writeMessage_raw_def readableSize_def)
qed

section \<open>Properties\<close>

text \<open>
  C14: \<open>FLNPack::readMessage\<close> implements the packet format. On a well-formed buffer it returns
  null and changes nothing when the readable bytes hold no complete packet; it aborts exactly when the
  packet is complete but not longer than its header; otherwise it returns the message of the
  first packet, consumes exactly that packet, and the message's buffer shares the vector
  without overlapping what is still to be read.
\<close>

theorem readMessage_refines:
  assumes "valid m p"
  shows "case next_frame (readable m p) of
      Need_more \<Rightarrow> readMessage m p = Inr (m, None)
    | Malformed \<Rightarrow> readMessage m p = Inl AssertFail
    | Frame w rest \<Rightarrow> \<exists>m' pm. readMessage m p = Inr (m', Some pm)
        \<and> msg_view m' pm = w \<and> message_read m m' p pm (v_content w) rest"
proof (cases "next_frame (readable m p)")
  case Need_more
  with assms readMessage_need_more show ?thesis by simp
next
  case Malformed
  with assms readMessage_malformed show ?thesis by simp
next
  case (Frame w rest)
  obtain m' pm where "readMessage m p = Inr (m', Some pm)" and "msg_view m' pm = w"
    and "message_read m m' p pm (v_content w) rest"
    by (rule readMessage_frame [OF assms Frame])
  then show ?thesis unfolding Frame frame.case by blast
qed

text \<open>A store whose one buffer holds a packet with content \<open>[9, 8]\<close> and the start of the next.\<close>

definition demo_packet :: mem where
  "demo_packet = \<lparr>vecs = [packet_bytes 2 1 3 7 42 [9, 8] @ [0]],
     bufs = [\<lparr>vb_offset = 0, vb_len = 15, vb_buffer = 0\<rparr>]\<rparr>"

lemma demo_packet_valid: "valid demo_packet 0"
  by (simp add: demo_packet_def valid_def mem_ok_def vb_ok_def max_vec_def)

theorem readMessage_refines_witness:
  "next_frame (readable demo_packet 0) = Frame (View 42 FLNPProto_PROTOBUF 3 7 [9, 8]) [0]
   \<and> (\<exists>m' pm. readMessage demo_packet 0 = Inr (m', Some pm)
        \<and> msg_view m' pm = View 42 FLNPProto_PROTOBUF 3 7 [9, 8] \<and> readable m' 0 = [0])"
proof -
  have r: "readable demo_packet 0 = packet_bytes (of_nat (length [9, 8 :: byte])) 1 3 7 42 [9, 8] @ [0]"
    by (simp add: demo_packet_def readable_def)
  have f: "next_frame (readable demo_packet 0) = Frame (View 42 (proto_of 1) 3 7 [9, 8]) [0]"
    unfolding r by (rule next_frame_packet) simp_all
  have p: "proto_of 1 = FLNPProto_PROTOBUF" by (simp add: proto_of_def)
  from readMessage_refines [OF demo_packet_valid, unfolded f frame.case p]
  show ?thesis unfolding f p message_read_def by blast
qed

text \<open>
  C15: round trip. A message with a content of 1 to 32755 bytes that \<open>writeMessage\<close> encodes is
  read back by \<open>readMessage\<close> with the same command, protocol, version, sequence number and
  content, and nothing is left in the buffer.
\<close>

theorem write_read_roundtrip:
  assumes "mem_ok m" and "0 < length con" and "length con + 12 < 32768"
  shows "\<exists>m1 q m2 pm. writeMessage_raw m proto version seq cmd con = Inr (m1, q)
    \<and> readMessage m1 q = Inr (m2, Some pm)
    \<and> msg_view m2 pm = View cmd (proto_of proto) version seq con
    \<and> readable m2 q = []"
proof -
  from assms(3) have "length con < 65536" by simp
  from writeMessage_raw_ok [OF assms(1) this] obtain m1 q
    where w: "writeMessage_raw m proto version seq cmd con = Inr (m1, q)" and v: "valid m1 q"
      and r: "readable m1 q = packet_bytes (of_nat (length con)) proto version seq cmd con"
    by metis
  have "next_frame (readable m1 q) = Frame (View cmd (proto_of proto) version seq con) []"
    unfolding r using next_frame_packet [OF assms(2,3), of proto version seq cmd "[]"] by simp
  from readMessage_frame [OF v this] w show ?thesis
    by (metis message_read_def)
qed

theorem write_read_roundtrip_witness:
  "\<exists>m1 q m2 pm. writeMessage_raw demo_mem 1 3 7 42 [9, 8] = Inr (m1, q)
    \<and> readMessage m1 q = Inr (m2, Some pm)
    \<and> msg_view m2 pm = View 42 (proto_of 1) 3 7 [9, 8] \<and> readable m2 q = []"
  using write_read_roundtrip [of demo_mem "[9, 8]" 1 3 7 42] demo_valid
  by (simp add: valid_def)

text \<open>
  a message without content is written but cannot be read: \<open>decode\<close> asserts that the
  packet is longer than its header, so the reader of a 12-byte packet aborts.
\<close>

theorem empty_message_aborts_reader:
  assumes "mem_ok m"
  shows "\<exists>m1 q. writeMessage_raw m proto version seq cmd [] = Inr (m1, q)
    \<and> readable m1 q = packet_bytes 0 proto version seq cmd []
    \<and> readMessage m1 q = Inl AssertFail"
proof -
  obtain m1 q
    where w: "writeMessage_raw m proto version seq cmd [] = Inr (m1, q)" and v: "valid m1 q"
      and r: "readable m1 q = packet_bytes 0 proto version seq cmd []"
    using writeMessage_raw_ok [OF assms, of "[]" proto version seq cmd thesis]
    by (simp del: packet_bytes_def)
  have "frame_length (readable m1 q) = 12"
    using frame_length_packet [of 0 proto version seq cmd "[]" "[]"] r by simp
  then have "next_frame (readable m1 q) = Malformed"
    by (simp add: next_frame_def r)
  from readMessage_malformed [OF v this] w r show ?thesis by blast
qed

theorem empty_message_aborts_reader_witness:
  "\<exists>m1 q. writeMessage_raw demo_mem 1 3 7 42 [] = Inr (m1, q)
    \<and> readable m1 q = packet_bytes 0 1 3 7 42 []
    \<and> readMessage m1 q = Inl AssertFail"
  using empty_message_aborts_reader [of demo_mem 1 3 7 42] demo_valid by (simp add: valid_def)

text \<open>
  C37: a packet of 32768 to 65535 bytes is written but never delivered: its length is read
  through \<open>int16_t\<close> and comes out negative, so \<open>readMessage\<close> returns null and
  \<open>peekPackLength\<close> asks for no more room, whatever follows the packet.
\<close>

theorem long_message_never_delivered:
  assumes "valid m p" and "32768 \<le> length con + 12" and "length con + 12 < 65536"
    and "readable m p = packet_bytes (of_nat (length con)) proto version seq cmd con @ rest"
  shows "readMessage m p = Inr (m, None) \<and> (\<exists>k. peekPackLength m p = Inr k \<and> k < 0)"
proof -
  have "frame_length (readable m p) = sint (of_nat (length con + 12) :: u16)"
    unfolding assms(4) by (simp add: frame_length_packet add.commute)
  also have "\<dots> = int (length con + 12) - 65536"
    using assms(2,3) by (rule sint_wrap16)
  finally have l: "frame_length (readable m p) < 0"
    using assms(3) by simp
  then have "next_frame (readable m p) = Need_more"
    by (simp add: next_frame_def)
  from readMessage_need_more [OF assms(1) this] l assms(1) show ?thesis
    by (simp add: peekPackLength_def peekPacketLength_eq)
qed

text \<open>
  a content of 65536 bytes or more overruns the packet buffer: its length is truncated to
  16 bits for the allocation, and \<open>writeMessage\<close> copies the whole content.
\<close>

theorem oversized_message_overruns:
  assumes "valid m c" and "pm_buffer pm = Some c" and "65536 \<le> length (readable m c)"
  shows "writeMessage m pm = Inl OutOfBounds"
proof -
  from assms(1) have "mem_ok m" by (simp add: valid_def)
  from writeMessage_raw_overflow [OF this assms(3)] show ?thesis
    by (simp add: writeMessage_eq [OF assms(1,2)])
qed

text \<open>A store with one buffer that holds the given bytes.\<close>

definition one_buffer :: "byte list \<Rightarrow> mem" where
  "one_buffer bs = \<lparr>vecs = [bs], bufs = [\<lparr>vb_offset = 0, vb_len = length bs, vb_buffer = 0\<rparr>]\<rparr>"

lemma one_buffer_valid: "length bs \<le> max_vec \<Longrightarrow> valid (one_buffer bs) 0"
  by (simp add: one_buffer_def valid_def mem_ok_def vb_ok_def)

lemma one_buffer_readable: "readable (one_buffer bs) 0 = bs"
  by (simp add: one_buffer_def readable_def)

lemma one_buffer_packet:
  fixes n :: nat
  defines "con \<equiv> replicate n (0 :: byte)"
  assumes "n < 65536"
  shows "valid (one_buffer (packet_bytes (of_nat (length con)) 1 0 0 5 con)) 0"
  using assms by (intro one_buffer_valid) (simp add: max_vec_def)

theorem long_message_never_delivered_witness:
  "\<exists>m. readable m 0 = packet_bytes (of_nat 32756) 1 0 0 5 (replicate 32756 0)
    \<and> readMessage m 0 = Inr (m, None) \<and> (\<exists>k. peekPackLength m 0 = Inr k \<and> k < 0)"
proof -
  define n :: nat where "n = 32756"
  let ?con = "replicate n (0 :: byte)"
  let ?bs = "packet_bytes (of_nat (length ?con)) 1 0 0 5 ?con"
  have n: "32768 \<le> length ?con + 12" "length ?con + 12 < 65536" by (simp_all add: n_def)
  have "readable (one_buffer ?bs) 0 = ?bs @ []" by (simp add: one_buffer_readable)
  from long_message_never_delivered [OF one_buffer_packet n this] n_def
  show ?thesis using one_buffer_readable [of ?bs] length_replicate [of n 0] by auto
qed

theorem oversized_message_overruns_witness:
  "\<exists>m pm. length (readable m 0) = 65536 \<and> writeMessage m pm = Inl OutOfBounds"
proof -
  define n :: nat where "n = 65536"
  let ?m = "one_buffer (replicate n 0)"
  let ?pm = "new_PeerMessage\<lparr>pm_buffer := Some 0\<rparr>"
  have v: "valid ?m 0" by (rule one_buffer_valid) (simp add: n_def max_vec_def)
  have l: "65536 \<le> length (readable ?m 0)" by (simp add: one_buffer_readable n_def)
  have "pm_buffer ?pm = Some 0" by simp
  from oversized_message_overruns [OF v this l] show ?thesis
    by (intro exI [of _ ?m] exI [of _ ?pm]) (simp add: one_buffer_readable n_def)
qed

end
