(* ===== verification/Dispatcher.thy ===== *)
theory Dispatcher
  imports FieldLenNetPack
begin

text \<open>
  \<^verbatim>\<open>netpack/Dispatcher.hpp\<close> (the handler registry) and
  \<^verbatim>\<open>netpack/NetPackDispatcher.hpp\<close> (the loop that reads messages off a receive buffer and
  hands each to the registry). \<open>NetPackDispatcher\<close> is a template over the packet format; the
  contract it needs of the format is the locale \<open>netpack\<close>, which \<open>FLNPack\<close> meets.
\<close>

section \<open>The registry\<close>

text \<open>
  A handler is a \<open>std::function\<close>, empty or not; called on an argument (the message and its
  source) it changes the client's state \<open>'u\<close>.
\<close>

type_synonym ('a, 'u) handler = "('a \<Rightarrow> 'u \<Rightarrow> 'u res) option"

record ('c, 'a, 'u) dispatcher =
  handlerMap :: "'c \<Rightarrow> ('a, 'u) handler option"
  anyHandler :: "('a, 'u) handler list"

definition new_Dispatcher :: "('c, 'a, 'u) dispatcher" where
  "new_Dispatcher = \<lparr>handlerMap = Map.empty, anyHandler = []\<rparr>"

definition registerAny ::
  "('c, 'a, 'u) dispatcher \<Rightarrow> ('a, 'u) handler \<Rightarrow> ('c, 'a, 'u) dispatcher" where
  "registerAny d h = d\<lparr>anyHandler := anyHandler d @ [h]\<rparr>"

text \<open>\<open>map::insert\<close> keeps an entry that is there.\<close>

definition registerHandler ::
  "('c, 'a, 'u) dispatcher \<Rightarrow> 'c \<Rightarrow> ('a, 'u) handler \<Rightarrow> ('c, 'a, 'u) dispatcher" where
  "registerHandler d cmd h =
     (case handlerMap d cmd of
        None \<Rightarrow> d\<lparr>handlerMap := (handlerMap d)(cmd \<mapsto> h)\<rparr>
      | Some _ \<Rightarrow> d)"

fun call_handler :: "('a, 'u) handler \<Rightarrow> 'a \<Rightarrow> 'u \<Rightarrow> 'u res" where
  "call_handler None a u = Inl BadFunctionCall"
| "call_handler (Some f) a u = f a u"

fun call_any :: "('a, 'u) handler list \<Rightarrow> 'a \<Rightarrow> 'u \<Rightarrow> 'u res" where
  "call_any [] a u = Inr u"
| "call_any (h # hs) a u = bind_res (call_handler h a u) (\<lambda>u'. call_any hs a u')"

definition dispatch :: "('c, 'a, 'u) dispatcher \<Rightarrow> 'c \<Rightarrow> 'a \<Rightarrow> 'u \<Rightarrow> 'u res" where
  "dispatch d cmd a u =
     bind_res (call_any (anyHandler d) a u)
       (\<lambda>u'. case handlerMap d cmd of None \<Rightarrow> Inr u' | Some h \<Rightarrow> call_handler h a u')"

section \<open>The read loop\<close>

text \<open>
  The template parameters come first: \<open>NPIMPL::readMessage\<close>, \<open>NPIMPL::peekPackLength\<close> and
  \<open>getCmd\<close> of the message type. Nothing in the code bounds the number of iterations, so the
  loop is a partial function: \<open>None\<close> is a loop that does not end.
\<close>

partial_function (option) np_dispatch ::
  "(mem \<Rightarrow> nat \<Rightarrow> (mem \<times> 'msg option) res) \<Rightarrow> (mem \<Rightarrow> nat \<Rightarrow> int res) \<Rightarrow> ('msg \<Rightarrow> 'c)
    \<Rightarrow> ('c, mem \<times> 'msg \<times> 'src, 'u) dispatcher \<Rightarrow> mem \<Rightarrow> nat \<Rightarrow> 'src \<Rightarrow> 'u
    \<Rightarrow> (mem \<times> 'u) res option" where
  "np_dispatch readMsg peekLen getCmd d m buffer source u =
     (case readMsg m buffer of
        Inl e \<Rightarrow> Some (Inl e)
      | Inr (m1, Some message) \<Rightarrow>
          (case dispatch d (getCmd message) (m1, message, source) u of
             Inl e \<Rightarrow> Some (Inl e)
           | Inr u1 \<Rightarrow> np_dispatch readMsg peekLen getCmd d m1 buffer source u1)
      | Inr (m1, None) \<Rightarrow>
          (case peekLen m1 buffer of
             Inl e \<Rightarrow> Some (Inl e)
           | Inr expect \<Rightarrow>
               if expect > 0
               then Some (bind_res (ensure m1 buffer (nat expect)) (\<lambda>m2. Inr (m2, u)))
               else Some (Inr (m1, u))))"

text \<open>The instance the library provides: \<open>NetPackDispatcher<FLNPack, SrcType>\<close>.\<close>

definition flnp_dispatch ::
  "(u32, mem \<times> PeerMessage \<times> 'src, 'u) dispatcher \<Rightarrow> mem \<Rightarrow> nat \<Rightarrow> 'src \<Rightarrow> 'u
    \<Rightarrow> (mem \<times> 'u) res option" where
  "flnp_dispatch d m buffer source u =
     np_dispatch readMessage peekPackLength pm_cmd d m buffer source u"

section \<open>Facts on the registry\<close>

lemma registerHandler_new:
  "handlerMap d cmd = None \<Longrightarrow> handlerMap (registerHandler d cmd h) = (handlerMap d)(cmd \<mapsto> h)"
  by (simp add: registerHandler_def)

lemma registerHandler_kept:
  "handlerMap d cmd = Some h' \<Longrightarrow> registerHandler d cmd h = d"
  by (simp add: registerHandler_def)

text \<open>Handlers that look at their argument only through \<open>f\<close>.\<close>

definition through :: "('b \<Rightarrow> 'a) \<Rightarrow> ('c, 'a, 'u) dispatcher \<Rightarrow> ('c, 'b, 'u) dispatcher" where
  "through f d = \<lparr>handlerMap = (\<lambda>c. map_option (map_option (\<lambda>h b. h (f b))) (handlerMap d c)),
     anyHandler = map (map_option (\<lambda>h b. h (f b))) (anyHandler d)\<rparr>"

lemma call_handler_through:
  "call_handler (map_option (\<lambda>h b. h (f b)) h) b u = call_handler h (f b) u"
  by (cases h) auto

lemma call_any_through:
  "call_any (map (map_option (\<lambda>h b. h (f b))) hs) b u = call_any hs (f b) u"
proof (induction hs arbitrary: u)
  case Nil
  then show ?case by simp
next
  case (Cons h hs)
  then show ?case
    by (cases "call_handler h (f b) u") (simp_all add: call_handler_through)
qed

lemma dispatch_through [simp]: "dispatch (through f d) cmd b u = dispatch d cmd (f b) u"
  by (cases "handlerMap d cmd")
    (simp_all add: dispatch_def through_def call_any_through call_handler_through)

lemma append_bytes_length:
  assumes "valid m p" and "append_bytes m p bs = Inr m'"
  shows "length (data_of m' p) = length (data_of m p)"
proof -
  note b = valid_bounds [OF assms(1)]
  from assms(2) have fits: "length bs \<le> writtableSize m p"
    and m': "m' = put_vb (put_vec m (vb_buffer (vb m p)) (take (writtablePtr m p) (data_of m p) @ bs
      @ drop (writtablePtr m p + length bs) (data_of m p)))
      p ((vb m p)\<lparr>vb_len := vb_len (vb m p) + length bs\<rparr>)"
    by (auto simp: append_bytes_eq [OF assms(1)] split: if_splits)
  have "p < length (bufs m)" using assms(1) by (simp add: valid_def)
  with b fits m' show ?thesis
    by (simp add: put_vb_def put_vec_def writtablePtr_def writtableSize_eq [OF assms(1)] nth_list_update)
qed

section \<open>The contract of a packet format\<close>

text \<open>
  Specification of a stream: the messages of a byte string, what remains after the last
  complete one, and whether the format accepts it that far.
\<close>

function decode_stream :: "(byte list \<Rightarrow> 'v frame) \<Rightarrow> byte list \<Rightarrow> 'v list \<times> byte list \<times> bool" where
  "decode_stream nxt bs =
     (case nxt bs of
        Need_more \<Rightarrow> ([], bs, True)
      | Malformed \<Rightarrow> ([], bs, False)
      | Frame v r \<Rightarrow>
          if length r < length bs
          then (let (vs, rest, ok) = decode_stream nxt r in (v # vs, rest, ok))
          else ([], bs, False))"
  by pat_completeness auto
termination
  by (relation "measure (\<lambda>(nxt, bs). length bs)") auto

declare decode_stream.simps [simp del]

fun fold_res :: "('v \<Rightarrow> 'u \<Rightarrow> 'u res) \<Rightarrow> 'v list \<Rightarrow> 'u \<Rightarrow> 'u res" where
  "fold_res h [] u = Inr u"
| "fold_res h (v # vs) u = bind_res (h v u) (\<lambda>u'. fold_res h vs u')"

lemma fold_res_append:
  "fold_res h (xs @ ys) u = bind_res (fold_res h xs u) (\<lambda>u'. fold_res h ys u')"
proof (induction xs arbitrary: u)
  case Nil
  then show ?case by simp
next
  case (Cons x xs)
  then show ?case by (cases "h x u") simp_all
qed

lemma decode_stream_simps:
  "nxt bs = Need_more \<Longrightarrow> decode_stream nxt bs = ([], bs, True)"
  "nxt bs = Malformed \<Longrightarrow> decode_stream nxt bs = ([], bs, False)"
  "nxt bs = Frame v r \<Longrightarrow> length r < length bs \<Longrightarrow> decode_stream nxt r = (vs, rest, ok) \<Longrightarrow>
    decode_stream nxt bs = (v # vs, rest, ok)"
  by (simp_all add: decode_stream.simps [of nxt bs])

text \<open>The room \<open>ensure\<close> may ask for stays below the largest vector.\<close>

definition roomy :: "nat \<Rightarrow> mem \<Rightarrow> nat \<Rightarrow> bool" where
  "roomy max_packet m p \<longleftrightarrow> length (data_of m p) + max_packet \<le> max_vec"

text \<open>Bytes arriving in pieces: each is appended to the buffer and the read loop runs.\<close>

fun feed :: "(mem \<Rightarrow> 'u \<Rightarrow> (mem \<times> 'u) res option) \<Rightarrow> nat \<Rightarrow> mem \<Rightarrow> 'u \<Rightarrow> byte list list
    \<Rightarrow> (mem \<times> 'u) res option" where
  "feed step p m u [] = Some (Inr (m, u))"
| "feed step p m u (c # cs) =
     (case append_bytes m p c of
        Inl e \<Rightarrow> Some (Inl e)
      | Inr m1 \<Rightarrow>
          (case step m1 u of
             None \<Rightarrow> None
           | Some (Inl e) \<Rightarrow> Some (Inl e)
           | Some (Inr (m2, u2)) \<Rightarrow> feed step p m2 u2 cs))"

text \<open>Each piece fits in the room the buffer has when it arrives (a failed run takes no more).\<close>

fun feed_in_room :: "(mem \<Rightarrow> 'u \<Rightarrow> (mem \<times> 'u) res option) \<Rightarrow> nat \<Rightarrow> mem \<Rightarrow> 'u \<Rightarrow> byte list list
    \<Rightarrow> bool" where
  "feed_in_room step p m u [] = True"
| "feed_in_room step p m u (c # cs) =
     (length c \<le> writtableSize m p \<and>
      (case append_bytes m p c of
         Inl e \<Rightarrow> True
       | Inr m1 \<Rightarrow>
           (case step m1 u of
              Some (Inr (m2, u2)) \<Rightarrow> feed_in_room step p m2 u2 cs
            | _ \<Rightarrow> True)))"

text \<open>
  The laws: one \<open>readMessage\<close> is one step of the format, \<open>peekPackLength\<close> announces what the
  format wants for the bytes at hand, at most \<open>max_packet\<close>, every message consumes input, and input that follows
  a complete or a malformed packet does not change how it is read.
\<close>

locale netpack =
  fixes readMsg :: "mem \<Rightarrow> nat \<Rightarrow> (mem \<times> 'msg option) res"
    and peekLen :: "mem \<Rightarrow> nat \<Rightarrow> int res"
    and getCmd :: "'msg \<Rightarrow> 'c"
    and nxt :: "byte list \<Rightarrow> 'v frame"
    and view_of :: "mem \<Rightarrow> 'msg \<Rightarrow> 'v"
    and cmd_of :: "'v \<Rightarrow> 'c"
    and max_packet :: nat
    and want :: "byte list \<Rightarrow> int"
  assumes read_need: "valid m p \<Longrightarrow> nxt (readable m p) = Need_more \<Longrightarrow> readMsg m p = Inr (m, None)"
    and read_malformed: "valid m p \<Longrightarrow> nxt (readable m p) = Malformed \<Longrightarrow> readMsg m p = Inl AssertFail"
    and read_frame: "valid m p \<Longrightarrow> nxt (readable m p) = Frame v r \<Longrightarrow>
      \<exists>m' msg. readMsg m p = Inr (m', Some msg) \<and> view_of m' msg = v \<and> valid m' p
        \<and> readable m' p = r \<and> data_of m' p = data_of m p"
    and cmd_view: "getCmd msg = cmd_of (view_of m msg)"
    and consumes: "nxt bs = Frame v r \<Longrightarrow> length r < length bs"
    and stable: "nxt bs = Frame v r \<Longrightarrow> nxt (bs @ x) = Frame v (r @ x)"
    and malformed_stable: "nxt bs = Malformed \<Longrightarrow> nxt (bs @ x) = Malformed"
    and peek_wants: "valid m p \<Longrightarrow> peekLen m p = Inr (want (readable m p))"
    and want_bound: "want bs \<le> int max_packet"
begin

abbreviation loop ::
  "('c, 'v \<times> 'src, 'u) dispatcher \<Rightarrow> mem \<Rightarrow> nat \<Rightarrow> 'src \<Rightarrow> 'u \<Rightarrow> (mem \<times> 'u) res option" where
  "loop d \<equiv> np_dispatch readMsg peekLen getCmd (through (\<lambda>(m, msg, src). (view_of m msg, src)) d)"

abbreviation deliver :: "('c, 'v \<times> 'src, 'u) dispatcher \<Rightarrow> 'src \<Rightarrow> 'v \<Rightarrow> 'u \<Rightarrow> 'u res" where
  "deliver d src v u \<equiv> dispatch d (cmd_of v) (v, src) u"

lemma decode_frame:
  "nxt bs = Frame v r \<Longrightarrow> decode_stream nxt r = (vs, rest, ok) \<Longrightarrow>
    decode_stream nxt bs = (v # vs, rest, ok)"
  using consumes by (simp add: decode_stream_simps(3))

lemma loop_frame:
  assumes "valid m p" and "nxt (readable m p) = Frame v r"
  obtains m1 where "valid m1 p" and "readable m1 p = r" and "data_of m1 p = data_of m p"
    and "loop d m p src u = (case deliver d src v u of
           Inl e \<Rightarrow> Some (Inl e) | Inr u1 \<Rightarrow> loop d m1 p src u1)"
proof -
  from read_frame [OF assms] obtain m1 msg where r: "readMsg m p = Inr (m1, Some msg)"
    and v: "view_of m1 msg = v" and "valid m1 p" "readable m1 p = r" "data_of m1 p = data_of m p"
    by blast
  moreover have "loop d m p src u = (case deliver d src v u of
      Inl e \<Rightarrow> Some (Inl e) | Inr u1 \<Rightarrow> loop d m1 p src u1)"
    by (subst np_dispatch.simps) (simp add: r v cmd_view [of msg m1])
  ultimately show ?thesis using that by blast
qed

lemma ensure_cases:
  assumes "valid m p" and "k \<le> max_packet"
  obtains (enough) m' where "ensure m p k = Inr m'" and "valid m' p"
      and "readable m' p = readable m p" and "length (data_of m' p) \<le> length (data_of m p) + max_packet"
  | (full) "ensure m p k = Inl LengthError" and "\<not> roomy max_packet m p"
proof (cases "ensure m p k")
  case (Inr m')
  from ensure_length [OF assms(1) Inr] assms(2) valid_bounds(2) [OF assms(1)]
  have "length (data_of m' p) \<le> length (data_of m p) + max_packet" by simp
  with ensure_Inr [OF assms(1) Inr assms(1)] Inr show ?thesis by (intro enough [of m']) simp_all
next
  case (Inl e)
  note b = valid_bounds [OF assms(1)]
  from Inl have "e = LengthError" and big: "max_vec < sz_add k (vb_offset (vb m p))"
    by (auto simp: ensure_def resize_vec_def split: if_splits)
  have "\<not> roomy max_packet m p"
  proof
    assume "roomy max_packet m p"
    with b assms(2) have "k + vb_offset (vb m p) \<le> max_vec" by (simp add: roomy_def)
    with big show False by (simp add: max_vec_def)
  qed
  with Inl \<open>e = LengthError\<close> show ?thesis by (intro full) simp_all
qed

text \<open>
  The loop on a stream: it ends; it delivers exactly the messages of the stream in order; a
  failing handler or a malformed packet ends it with that failure; otherwise what is left in
  the buffer is the incomplete rest, and the vector has grown by at most the largest packet.
\<close>

lemma loop_need:
  assumes v: "valid m p" and n: "nxt (readable m p) = Need_more"
  shows "(\<exists>m'. loop d m p src u = Some (Inr (m', u)) \<and> valid m' p \<and> readable m' p = readable m p
      \<and> length (data_of m' p) \<le> length (data_of m p) + max_packet)
    \<or> (loop d m p src u = Some (Inl LengthError) \<and> \<not> roomy max_packet m p)"
proof -
  obtain k where k: "peekLen m p = Inr k" "k \<le> int max_packet"
    using peek_wants [OF v] want_bound by blast
  have l: "loop d m p src u = (if k > 0
      then Some (bind_res (ensure m p (nat k)) (\<lambda>m2. Inr (m2, u))) else Some (Inr (m, u)))"
    by (subst np_dispatch.simps) (simp add: read_need [OF v n] k)
  from k have b: "nat k \<le> max_packet" by simp
  show ?thesis
  proof (cases rule: ensure_cases [OF v b])
    case (1 m')
    with l v show ?thesis by (cases "k > 0") simp_all
  next
    case 2
    with l v show ?thesis by (cases "k > 0") simp_all
  qed
qed

lemma loop_stream:
  assumes "valid m p" and "decode_stream nxt (readable m p) = (vs, rest, ok)"
  shows "case fold_res (deliver d src) vs u of
      Inl e \<Rightarrow> loop d m p src u = Some (Inl e)
    | Inr u' \<Rightarrow>
        if ok
        then (\<exists>m'. loop d m p src u = Some (Inr (m', u')) \<and> valid m' p \<and> readable m' p = rest
            \<and> length (data_of m' p) \<le> length (data_of m p) + max_packet)
          \<or> (loop d m p src u = Some (Inl LengthError) \<and> \<not> roomy max_packet m p)
        else loop d m p src u = Some (Inl AssertFail)"
  using assms
proof (induction "length (readable m p)" arbitrary: m u vs rule: less_induct)
  case less
  show ?case
  proof (cases "nxt (readable m p)")
    case Need_more
    with less.prems have vs: "vs = []" "rest = readable m p" "ok"
      by (simp_all add: decode_stream_simps)
    with loop_need [OF less.prems(1) Need_more, of d src u] show ?thesis by simp
  next
    case Malformed
    with less.prems have vs: "vs = []" "\<not> ok"
      by (simp_all add: decode_stream_simps)
    have "loop d m p src u = Some (Inl AssertFail)"
      by (subst np_dispatch.simps) (simp add: read_malformed [OF less.prems(1) Malformed])
    with vs show ?thesis by simp
  next
    case (Frame v r)
    obtain ws rest' ok' where dr: "decode_stream nxt r = (ws, rest', ok')"
      by (metis prod_cases3)
    with less.prems(2) decode_frame [OF Frame dr] have eq: "vs = v # ws" "rest' = rest" "ok' = ok"
      by simp_all
    obtain m1 where m1: "valid m1 p" "readable m1 p = r" "data_of m1 p = data_of m p"
      and l: "loop d m p src u = (case deliver d src v u of
         Inl e \<Rightarrow> Some (Inl e) | Inr u1 \<Rightarrow> loop d m1 p src u1)"
      by (rule loop_frame [OF less.prems(1) Frame])
    show ?thesis
    proof (cases "deliver d src v u")
      case (Inl e)
      with l eq show ?thesis by simp
    next
      case (Inr u1)
      have shorter: "length (readable m1 p) < length (readable m p)"
        using consumes [OF Frame] m1(2) by simp
      have room: "roomy max_packet m p = roomy max_packet m1 p" using m1(3) by (simp add: roomy_def)
      have dec: "decode_stream nxt (readable m1 p) = (ws, rest, ok)"
        using dr eq m1(2) by simp
      have same: "loop d m p src u = loop d m1 p src u1"
        "fold_res (deliver d src) vs u = fold_res (deliver d src) ws u1"
        using l Inr eq by simp_all
      show ?thesis
        unfolding same room m1(3) [symmetric] by (rule less.hyps [OF shorter m1(1) dec])
    qed
  qed
qed

lemma loop_total:
  assumes "valid m p" and "decode_stream nxt (readable m p) = (vs, rest, True)"
    and "roomy max_packet m p"
  obtains (stop) e where "fold_res (deliver d src) vs u = Inl e" and "loop d m p src u = Some (Inl e)"
  | (go) m2 u2 where "fold_res (deliver d src) vs u = Inr u2" and "loop d m p src u = Some (Inr (m2, u2))"
      and "valid m2 p" and "readable m2 p = rest"
      and "length (data_of m2 p) \<le> length (data_of m p) + max_packet"
  using loop_stream [OF assms(1,2), of d src u] assms(3)
  by (cases "fold_res (deliver d src) vs u") auto

text \<open>The loop leaves room for what the format wants to follow.\<close>

lemma loop_room:
  "valid m p \<Longrightarrow> roomy max_packet m p \<Longrightarrow> loop d m p src u = Some (Inr (m', u')) \<Longrightarrow>
    want (readable m' p) \<le> int (length (readable m' p) + writtableSize m' p)"
proof (induction "length (readable m p)" arbitrary: m u rule: less_induct)
  case less
  note v = less.prems(1)
  show ?case
  proof (cases "nxt (readable m p)")
    case Malformed
    have "loop d m p src u = Some (Inl AssertFail)"
      by (subst np_dispatch.simps) (simp add: read_malformed [OF v Malformed])
    with less.prems(3) show ?thesis by simp
  next
    case Need_more
    let ?k = "want (readable m p)"
    have l: "loop d m p src u = (if ?k > 0
        then Some (bind_res (ensure m p (nat ?k)) (\<lambda>m2. Inr (m2, u))) else Some (Inr (m, u)))"
      by (subst np_dispatch.simps) (simp add: read_need [OF v Need_more] peek_wants [OF v])
    show ?thesis
    proof (cases "?k > 0")
      case True
      with l less.prems(3) have e: "ensure m p (nat ?k) = Inr m'"
        by (cases "ensure m p (nat ?k)") simp_all
      note ens = ensure_Inr [OF v e v]
      have "nat ?k + vb_offset (vb m p) \<le> max_vec"
        using want_bound [of "readable m p"] less.prems(2) valid_bounds [OF v] by (simp add: roomy_def)
      then have "sz_add (nat ?k) (vb_offset (vb m p)) = nat ?k + vb_offset (vb m p)"
        by (simp add: sz_add_def max_vec_def)
      moreover have "vb m' p = vb m p" using ens(3) by simp
      ultimately show ?thesis
        using ens(2,4) writtableSize_eq [OF ens(1)] valid_bounds [OF ens(1)] length_readable [OF v]
        by simp
    next
      case False
      with l less.prems(3) show ?thesis by simp
    qed
  next
    case (Frame w r)
    obtain m1 where m1: "valid m1 p" "readable m1 p = r" "data_of m1 p = data_of m p"
      and l: "loop d m p src u = (case deliver d src w u of
         Inl e \<Rightarrow> Some (Inl e) | Inr u1 \<Rightarrow> loop d m1 p src u1)"
      by (rule loop_frame [OF v Frame])
    have "length (readable m1 p) < length (readable m p)" using consumes [OF Frame] m1(2) by simp
    moreover have "roomy max_packet m1 p" using less.prems(2) m1(3) by (simp add: roomy_def)
    moreover obtain u1 where "loop d m1 p src u1 = Some (Inr (m', u'))"
      using l less.prems(3) by (cases "deliver d src w u") simp_all
    ultimately show ?thesis using less.hyps m1(1) by blast
  qed
qed

lemma decode_stream_rest:
  "decode_stream nxt bs = (vs, rest, True) \<Longrightarrow> decode_stream nxt rest = ([], rest, True)"
proof (induction "length bs" arbitrary: bs vs rule: less_induct)
  case less
  show ?case
  proof (cases "nxt bs")
    case (Frame v r)
    obtain us rest0 ok0 where dr: "decode_stream nxt r = (us, rest0, ok0)"
      by (metis prod_cases3)
    with less.prems decode_frame [OF Frame dr] have "rest0 = rest" "ok0" by simp_all
    with dr less.hyps [OF consumes [OF Frame]] show ?thesis by simp
  qed (use less.prems in \<open>simp_all add: decode_stream_simps\<close>)
qed

text \<open>
  Input may arrive in any pieces: decoding a stream in two goes gives what decoding it at once
  gives.
\<close>

lemma decode_stream_append:
  assumes "decode_stream nxt bs = (vs, rest, True)"
    and "decode_stream nxt (rest @ x) = (ws, rest', ok)"
  shows "decode_stream nxt (bs @ x) = (vs @ ws, rest', ok)"
  using assms(1)
proof (induction "length bs" arbitrary: bs vs rule: less_induct)
  case less
  show ?case
  proof (cases "nxt bs")
    case Need_more
    with less.prems assms(2) show ?thesis by (simp add: decode_stream_simps)
  next
    case Malformed
    with less.prems show ?thesis by (simp add: decode_stream_simps)
  next
    case (Frame v r)
    obtain us rest0 ok0 where dr: "decode_stream nxt r = (us, rest0, ok0)"
      by (metis prod_cases3)
    with less.prems decode_frame [OF Frame dr] have eq: "vs = v # us" "rest0 = rest" "ok0"
      by simp_all
    with dr less.hyps [OF consumes [OF Frame]]
    have "decode_stream nxt (r @ x) = (us @ ws, rest', ok)" by simp
    from decode_frame [OF stable [OF Frame] this] eq show ?thesis by simp
  qed
qed

text \<open>What follows a malformed packet does not matter.\<close>

lemma decode_stream_malformed:
  "decode_stream nxt bs = (vs, rest, False) \<Longrightarrow> \<exists>rest'. decode_stream nxt (bs @ x) = (vs, rest', False)"
proof (induction "length bs" arbitrary: bs vs rule: less_induct)
  case less
  show ?case
  proof (cases "nxt bs")
    case Need_more
    with less.prems show ?thesis by (simp add: decode_stream_simps)
  next
    case Malformed
    with less.prems show ?thesis by (simp add: decode_stream_simps malformed_stable)
  next
    case (Frame v r)
    obtain us rest0 ok0 where dr: "decode_stream nxt r = (us, rest0, ok0)"
      by (metis prod_cases3)
    with less.prems decode_frame [OF Frame dr] have eq: "vs = v # us" "rest0 = rest" "\<not> ok0" by simp_all
    with dr less.hyps [OF consumes [OF Frame]] obtain rest' where
      "decode_stream nxt (r @ x) = (us, rest', False)" by auto
    from decode_frame [OF stable [OF Frame] this] eq show ?thesis by simp
  qed
qed

text \<open>A prefix of a well-formed stream is well formed.\<close>

lemma decode_stream_prefix:
  "decode_stream nxt (bs @ x) = (vs, rest, True) \<Longrightarrow> decode_stream nxt bs = (us, r, ok) \<Longrightarrow> ok"
proof (induction "length bs" arbitrary: bs vs us rule: less_induct)
  case less
  show ?case
  proof (cases "nxt bs")
    case Need_more
    with less.prems(2) show ?thesis by (simp add: decode_stream_simps)
  next
    case Malformed
    with less.prems(1) show ?thesis by (simp add: decode_stream_simps malformed_stable)
  next
    case (Frame v q)
    obtain ws rest1 ok1 where w: "decode_stream nxt (q @ x) = (ws, rest1, ok1)" by (metis prod_cases3)
    obtain ws' rest2 ok2 where w': "decode_stream nxt q = (ws', rest2, ok2)" by (metis prod_cases3)
    from decode_frame [OF stable [OF Frame] w] less.prems(1) have "rest1 = rest" "ok1" by simp_all
    moreover from decode_frame [OF Frame w'] less.prems(2) have "rest2 = r" "ok2 = ok" by simp_all
    ultimately show ?thesis using less.hyps [OF consumes [OF Frame]] w w' by simp
  qed
qed

text \<open>
  Feeding a receive buffer piece by piece, with a read loop after each piece, does what one read
  loop on all the bytes would do.
\<close>

lemma feed_stream:
  assumes "valid m p" and "decode_stream nxt (readable m p) = ([], readable m p, True)"
    and "want (readable m p) \<le> int (length (readable m p) + writtableSize m p)"
    and "decode_stream nxt (readable m p @ concat cs) = (vs, rest, ok)"
    and "feed_in_room (\<lambda>m u. loop d m p src u) p m u cs"
    and "length (data_of m p) + length cs * max_packet \<le> max_vec"
  shows "case fold_res (deliver d src) vs u of
      Inl e \<Rightarrow> feed (\<lambda>m u. loop d m p src u) p m u cs = Some (Inl e)
    | Inr u' \<Rightarrow>
        if ok
        then \<exists>m'. feed (\<lambda>m u. loop d m p src u) p m u cs = Some (Inr (m', u')) \<and> valid m' p
          \<and> readable m' p = rest \<and> want rest \<le> int (length rest + writtableSize m' p)
        else feed (\<lambda>m u. loop d m p src u) p m u cs = Some (Inl AssertFail)"
  using assms
proof (induction cs arbitrary: m u vs)
  case Nil
  then show ?case by auto
next
  case (Cons c cs)
  let ?step = "\<lambda>m u. loop d m p src u"
  have fits: "length c \<le> writtableSize m p" using Cons.prems(5) by simp
  then obtain m1 where a: "append_bytes m p c = Inr m1"
    by (simp add: append_bytes_eq [OF Cons.prems(1)])
  from append_bytes_valid [OF Cons.prems(1) a Cons.prems(1)] have v1: "valid m1 p" .
  from append_bytes_readable [OF Cons.prems(1) a] have r1: "readable m1 p = readable m p @ c" .
  have len1: "length (data_of m1 p) = length (data_of m p)"
    by (rule append_bytes_length [OF Cons.prems(1) a])
  have roomy1: "roomy max_packet m1 p" using Cons.prems(6) len1 by (simp add: roomy_def)
  have f: "feed ?step p m u (c # cs) = (case loop d m1 p src u of
      None \<Rightarrow> None | Some (Inl e) \<Rightarrow> Some (Inl e) | Some (Inr (m2, u2)) \<Rightarrow> feed ?step p m2 u2 cs)"
    by (simp add: a)
  obtain vs1 rest1 ok1 where dec: "decode_stream nxt (readable m1 p) = (vs1, rest1, ok1)"
    by (metis prod_cases3)
  have all: "decode_stream nxt (readable m1 p @ concat cs) = (vs, rest, ok)"
    using Cons.prems(4) r1 by simp
  show ?case
  proof (cases ok1)
    case False
    then have "decode_stream nxt (readable m1 p) = (vs1, rest1, False)" using dec by simp
    from decode_stream_malformed [OF this, of "concat cs"] all have eq: "vs = vs1" "\<not> ok" by auto
    from loop_stream [OF v1 dec, of d src u] False eq f show ?thesis
      by (cases "fold_res (deliver d src) vs1 u") simp_all
  next
    case True
    obtain ws rest2 ok2 where more: "decode_stream nxt (rest1 @ concat cs) = (ws, rest2, ok2)"
      by (metis prod_cases3)
    have dec: "decode_stream nxt (readable m1 p) = (vs1, rest1, True)" using dec True by simp
    from decode_stream_append [OF dec more] all have eq: "vs = vs1 @ ws" "rest2 = rest" "ok2 = ok"
      by simp_all
    show ?thesis
    proof (rule loop_total [OF v1 dec roomy1, of d src u], goal_cases stop go)
      case (stop e)
      with f eq(1) show ?thesis by (simp add: fold_res_append)
    next
      case (go m2 u2)
      have need: "decode_stream nxt (readable m2 p) = ([], readable m2 p, True)"
        using decode_stream_rest [OF dec] go(4) by simp
      have room: "want (readable m2 p) \<le> int (length (readable m2 p) + writtableSize m2 p)"
        by (rule loop_room [OF v1 roomy1 go(2)])
      have w: "decode_stream nxt (readable m2 p @ concat cs) = (ws, rest, ok)"
        using more eq go(4) by simp
      have i: "feed_in_room ?step p m2 u2 cs" using Cons.prems(5) a go(2) by simp
      have small: "length (data_of m2 p) + length cs * max_packet \<le> max_vec"
        using go(5) len1 Cons.prems(6) by simp
      have same: "feed ?step p m u (c # cs) = feed ?step p m2 u2 cs"
        "fold_res (deliver d src) vs u = fold_res (deliver d src) ws u2"
        using f go(1,2) eq(1) by (simp_all add: fold_res_append)
      show ?thesis unfolding same by (rule Cons.IH [OF go(3) need room w i small])
    qed
  qed
qed

end

section \<open>FLNPack meets the contract\<close>

lemma frame_length_bound: "frame_length bs \<le> 32767"
proof -
  have "sint w < 2 ^ (LENGTH(16) - 1)" for w :: u16
    using sint_lt [of w] by simp
  from this [of "ntoh16 (load_le (take 2 bs))"] show ?thesis
    by (simp add: frame_length_def)
qed

interpretation flnp: netpack readMessage peekPackLength pm_cmd next_frame msg_view v_cmd 32767
  "\<lambda>bs. if 2 \<le> length bs then frame_length bs else - 1"
proof unfold_locales
  fix m p v r
  assume "valid m p" and "next_frame (readable m p) = Frame v r"
  then show "\<exists>m' msg. readMessage m p = Inr (m', Some msg) \<and> msg_view m' msg = v \<and> valid m' p
        \<and> readable m' p = r \<and> data_of m' p = data_of m p"
    by (metis readMessage_frame message_read_def)
next
  fix m p
  assume "valid m p"
  then show "peekPackLength m p
      = Inr (if 2 \<le> length (readable m p) then frame_length (readable m p) else - 1)"
    by (simp add: peekPackLength_def peekPacketLength_eq)
next
  fix bs
  show "(if 2 \<le> length bs then frame_length bs else - 1) \<le> int 32767"
    using frame_length_bound [of bs] by simp
qed (use readMessage_need_more readMessage_malformed next_frame_consumes next_frame_append
    next_frame_malformed
  in \<open>auto simp: msg_view_def\<close>)

text \<open>Handlers that look at a message through its command, header fields and content only.\<close>

definition on_views ::
  "('c, view \<times> 'src, 'u) dispatcher \<Rightarrow> ('c, mem \<times> PeerMessage \<times> 'src, 'u) dispatcher" where
  "on_views d = through (\<lambda>(m, msg, src). (msg_view m msg, src)) d"

text \<open>The packet a sender writes for a message.\<close>

fun packet_of :: "view \<Rightarrow> byte list" where
  "packet_of (View cmd proto ver seq con) =
     packet_bytes (of_nat (length con)) (proto_code proto) ver seq cmd con"

fun sendable :: "view \<Rightarrow> bool" where
  "sendable (View cmd proto ver seq con) \<longleftrightarrow> 0 < length con \<and> length con + 12 < 32768
     \<and> proto_of (proto_code proto) = proto"

lemma next_frame_packet_of: "sendable v \<Longrightarrow> next_frame (packet_of v @ rest) = Frame v rest"
  by (cases v) (simp add: next_frame_packet)

lemma decode_stream_packets:
  "\<forall>v \<in> set vs. sendable v \<Longrightarrow> next_frame rest = Need_more \<Longrightarrow>
    decode_stream next_frame (concat (map packet_of vs) @ rest) = (vs, rest, True)"
proof (induction vs)
  case Nil
  then show ?case by (simp add: decode_stream_simps)
next
  case (Cons v vs)
  then have "next_frame (packet_of v @ concat (map packet_of vs) @ rest)
      = Frame v (concat (map packet_of vs) @ rest)"
    by (simp add: next_frame_packet_of)
  with Cons show ?case by (simp add: flnp.decode_frame)
qed

section \<open>Properties\<close>

text \<open>
  C16: the dispatch loop on the packet format. For every content of the receive buffer the
  loop ends, and it calls the handlers (the general ones in the order of registration, then
  the one of the message's command) once for each complete packet, in order. A failing
  handler, or a packet not longer than its header, ends it with that failure; otherwise the
  incomplete rest stays in the buffer, whose vector has grown by at most 32767 bytes (the loop can also fail to make room for it, but only when the vector is
  within 32767 bytes of the largest size).
\<close>

theorem flnp_dispatch_stream:
  assumes "valid m p" and "decode_stream next_frame (readable m p) = (vs, rest, ok)"
  shows "case fold_res (\<lambda>v u. dispatch d (v_cmd v) (v, src) u) vs u of
      Inl e \<Rightarrow> flnp_dispatch (on_views d) m p src u = Some (Inl e)
    | Inr u' \<Rightarrow>
        if ok
        then (\<exists>m'. flnp_dispatch (on_views d) m p src u = Some (Inr (m', u'))
                \<and> valid m' p \<and> readable m' p = rest
                \<and> length (data_of m' p) \<le> length (data_of m p) + 32767)
          \<or> (flnp_dispatch (on_views d) m p src u = Some (Inl LengthError)
                \<and> \<not> roomy 32767 m p)
        else flnp_dispatch (on_views d) m p src u = Some (Inl AssertFail)"
  using flnp.loop_stream [OF assms, of d src u]
  unfolding flnp_dispatch_def on_views_def .

text \<open>A handler that records what it is given.\<close>

definition recorder :: "(u32, view \<times> unit, view list) dispatcher" where
  "recorder = registerAny new_Dispatcher (Some (\<lambda>(v, _) vs. Inr (vs @ [v])))"

lemma recorder_dispatch: "dispatch recorder cmd (v, src) vs = Inr (vs @ [v])"
  by (simp add: recorder_def registerAny_def new_Dispatcher_def dispatch_def)

lemma recorder_fold:
  "fold_res (\<lambda>v u. dispatch recorder (v_cmd v) (v, src) u) vs us = Inr (us @ vs)"
  by (induction vs arbitrary: us) (simp_all add: recorder_dispatch)

abbreviation demo_view :: view where
  "demo_view \<equiv> View 42 FLNPProto_PROTOBUF 3 7 [9, 8]"

lemma demo_packet_stream: "readable demo_packet 0 = concat (map packet_of [demo_view]) @ [0]"
  by (simp add: demo_packet_def readable_def)

lemma demo_packet_decode:
  "decode_stream next_frame (readable demo_packet 0) = ([demo_view], [0], True)"
  unfolding demo_packet_stream
  by (rule decode_stream_packets) (simp_all add: proto_of_def next_frame_def)

theorem flnp_dispatch_stream_witness:
  "\<exists>m'. flnp_dispatch (on_views recorder) demo_packet 0 () [] = Some (Inr (m', [demo_view]))
     \<and> valid m' 0 \<and> readable m' 0 = [0]"
proof -
  have "roomy 32767 demo_packet 0"
    by (simp add: roomy_def demo_packet_def max_vec_def)
  with flnp_dispatch_stream [OF demo_packet_valid demo_packet_decode, of recorder "()" "[]"]
  show ?thesis by (auto simp: recorder_fold)
qed

text \<open>
  C17: framing does not depend on segmentation. Any byte stream may arrive in an empty receive
  buffer in pieces cut anywhere, as long as each piece fits in the room the buffer has when it
  arrives and the vector is not within 32767 bytes per piece of the largest size. Each piece is
  appended and followed by the dispatch loop. Then the run does what the stream as a whole says:
  it calls the handlers once for each complete packet, in order; a failing handler, or a packet
  not longer than its header, ends it with that failure; otherwise it ends with the incomplete
  rest in the buffer, and room for the packet this rest announces.
\<close>

theorem flnp_segmentation:
  assumes "valid m p" and "readable m p = []"
    and "decode_stream next_frame (concat cs) = (vs, rest, ok)"
    and "feed_in_room (\<lambda>m u. flnp_dispatch (on_views d) m p src u) p m u cs"
    and "length (data_of m p) + length cs * 32767 \<le> max_vec"
  shows "case fold_res (\<lambda>v u. dispatch d (v_cmd v) (v, src) u) vs u of
      Inl e \<Rightarrow> feed (\<lambda>m u. flnp_dispatch (on_views d) m p src u) p m u cs = Some (Inl e)
    | Inr u' \<Rightarrow>
        if ok
        then \<exists>m'. feed (\<lambda>m u. flnp_dispatch (on_views d) m p src u) p m u cs = Some (Inr (m', u'))
          \<and> valid m' p \<and> readable m' p = rest
          \<and> (2 \<le> length rest \<longrightarrow> frame_length rest \<le> int (length rest + writtableSize m' p))
        else feed (\<lambda>m u. flnp_dispatch (on_views d) m p src u) p m u cs = Some (Inl AssertFail)"
proof -
  have dec: "decode_stream next_frame (readable m p) = ([], readable m p, True)"
    "decode_stream next_frame (readable m p @ concat cs) = (vs, rest, ok)"
    using assms(2,3) by (simp_all add: decode_stream_simps next_frame_def)
  have room: "(if 2 \<le> length (readable m p) then frame_length (readable m p) else - 1)
      \<le> int (length (readable m p) + writtableSize m p)" using assms(2) by simp
  note feed = flnp.feed_stream [OF assms(1) dec(1) room dec(2) assms(4) [unfolded flnp_dispatch_def on_views_def] assms(5)]
  show ?thesis
  proof (cases "fold_res (\<lambda>v u. dispatch d (v_cmd v) (v, src) u) vs u")
    case (Inl e)
    with feed show ?thesis unfolding flnp_dispatch_def on_views_def by simp
  next
    case (Inr u')
    with feed show ?thesis unfolding flnp_dispatch_def on_views_def by (cases ok) auto
  qed
qed

text \<open>An empty receive buffer of 32 bytes.\<close>

definition demo_rcv :: mem where
  "demo_rcv = \<lparr>vecs = [replicate 32 0], bufs = [\<lparr>vb_offset = 0, vb_len = 0, vb_buffer = 0\<rparr>]\<rparr>"

text \<open>The same buffer after the first 5 bytes of the packet, and after all of it.\<close>

definition demo_rcv1 :: mem where
  "demo_rcv1 = \<lparr>vecs = [[0, 14, 1, 3, 0] @ replicate 27 0],
     bufs = [\<lparr>vb_offset = 0, vb_len = 5, vb_buffer = 0\<rparr>]\<rparr>"

definition demo_rcv2 :: mem where
  "demo_rcv2 = \<lparr>vecs = [[0, 14, 1, 3, 0, 7, 0, 0, 0, 0, 0, 42, 9, 8] @ replicate 18 0],
     bufs = [\<lparr>vb_offset = 0, vb_len = 14, vb_buffer = 0\<rparr>]\<rparr>"

lemma demo_run:
  "append_bytes demo_rcv 0 (take 5 (packet_of demo_view)) = Inr demo_rcv1"
  "readMessage demo_rcv1 0 = Inr (demo_rcv1, None)"
  "peekPackLength demo_rcv1 0 = Inr 14"
  "ensure demo_rcv1 0 14 = Inr demo_rcv1"
  "append_bytes demo_rcv1 0 (drop 5 (packet_of demo_view)) = Inr demo_rcv2"
  "readable demo_rcv2 0 = concat (map packet_of [demo_view]) @ []"
  by code_simp+

lemma demo_rcv_valid: "valid demo_rcv 0" "valid demo_rcv2 0"
  by (simp_all add: demo_rcv_def demo_rcv2_def valid_def mem_ok_def vb_ok_def max_vec_def)

lemma demo_in_buffer:
  "feed_in_room (\<lambda>m u. flnp_dispatch (on_views recorder) m 0 () u) 0 demo_rcv []
     [take 5 (packet_of demo_view), drop 5 (packet_of demo_view)]"
proof -
  have s1: "flnp_dispatch (on_views recorder) demo_rcv1 0 () [] = Some (Inr (demo_rcv1, []))"
    unfolding flnp_dispatch_def by (subst np_dispatch.simps) (simp add: demo_run)
  have room: "length (take 5 (packet_of demo_view)) \<le> writtableSize demo_rcv 0"
    "length (drop 5 (packet_of demo_view)) \<le> writtableSize demo_rcv1 0" by code_simp+
  show ?thesis using room
    by (simp add: demo_run s1 del: packet_of.simps split: option.split sum.split)
qed

theorem flnp_segmentation_witness:
  "\<exists>m'. feed (\<lambda>m u. flnp_dispatch (on_views recorder) m 0 () u) 0 demo_rcv []
      [take 5 (packet_of demo_view), drop 5 (packet_of demo_view)] = Some (Inr (m', [demo_view]))
    \<and> readable m' 0 = []"
proof -
  let ?cs = "[take 5 (packet_of demo_view), drop 5 (packet_of demo_view)]"
  have e: "readable demo_rcv 0 = []" by (simp add: demo_rcv_def readable_def)
  have "concat ?cs = concat (map packet_of [demo_view]) @ []"
    by (simp del: packet_of.simps)
  then have dec: "decode_stream next_frame (concat ?cs) = ([demo_view], [], True)"
    by (simp only:) (rule decode_stream_packets, simp_all add: proto_of_def next_frame_def)
  have room: "length (data_of demo_rcv 0) + length ?cs * 32767 \<le> max_vec"
    by (simp add: demo_rcv_def max_vec_def)
  from flnp_segmentation [OF demo_rcv_valid(1) e dec demo_in_buffer room]
  show ?thesis by (auto simp: recorder_fold recorder_dispatch simp del: packet_of.simps feed.simps)
qed

end
