(* ===== verification/TcpDispatch.thy ===== *)
theory TcpDispatch
  imports Dispatcher TcpConnection
begin

text \<open>
  A connection whose new-message handler is the dispatcher of a packet format, as a server of
  the library is put together: \<open>handleRead\<close> of \<^verbatim>\<open>TcpConnection.cpp\<close> stores what one
  \<open>readv\<close> yields and calls \<open>dispatch\<close> of \<^verbatim>\<open>netpack/NetPackDispatcher.hpp\<close> on the receive
  buffer. The handlers of the dispatcher change the user's state.
\<close>

section \<open>A read with a stateful handler\<close>

text \<open>\<open>None\<close> is a handler that does not return.\<close>

type_synonym 'u reader = "mem \<Rightarrow> nat \<Rightarrow> 'u \<Rightarrow> (mem \<times> 'u) res option"

definition tcp_data ::
  "'u reader \<Rightarrow> connection \<Rightarrow> 'u \<Rightarrow> byte list \<Rightarrow> (connection \<times> 'u) res option" where
  "tcp_data reader c u bs =
     (case bind_res (refresh_rcvBuf c) (\<lambda>c1.
            bind_res (take_in (store c1) (rcvBuf c1) bs) (\<lambda>m. Inr (c1\<lparr>store := m\<rparr>))) of
        Inl e \<Rightarrow> Some (Inl e)
      | Inr c2 \<Rightarrow> map_option (map_sum id (\<lambda>(m, u'). (c2\<lparr>store := m\<rparr>, u')))
          (reader (store c2) (rcvBuf c2) u))"

text \<open>It is one round of \<open>handleRead\<close>: a handler without state of its own.\<close>

lemma tcp_handleRead_data:
  assumes "newMessageHandler c = Some h" and "refresh_rcvBuf c = Inr c1"
    and "length bs < writtableSize (store c1) (rcvBuf c1) + pendingSize"
  shows "tcp_data (\<lambda>m p u. Some (map_sum id (\<lambda>m'. (m', u)) (h m p))) c () bs
    = Some (map_sum id (\<lambda>c'. (c'\<lparr>notices := notices c\<rparr>, ())) (tcp_handleRead ctl (Got bs # rs) c))"
proof -
  have n: "newMessageHandler c1 = Some h" "notices c1 = notices c"
    using assms(1) refresh_frame [OF assms(2)] assms(2)
    by (auto simp: refresh_rcvBuf_def split: if_splits)
  show ?thesis
  proof (cases "take_in (store c1) (rcvBuf c1) bs")
    case (Inr m)
    with assms n show ?thesis
      by (cases "h m (rcvBuf c1)") (simp_all add: tcp_data_def TcpConnection.deliver_def Let_def)
  qed (simp add: tcp_data_def assms(2) Let_def)
qed

fun tcp_stream ::
  "'u reader \<Rightarrow> connection \<Rightarrow> 'u \<Rightarrow> byte list list \<Rightarrow> (connection \<times> 'u) res option" where
  "tcp_stream reader c u [] = Some (Inr (c, u))"
| "tcp_stream reader c u (bs # bss) =
     (case tcp_data reader c u bs of
        None \<Rightarrow> None
      | Some (Inl e) \<Rightarrow> Some (Inl e)
      | Some (Inr (c', u')) \<Rightarrow> tcp_stream reader c' u' bss)"

text \<open>No read needs the pending buffer.\<close>

fun in_room :: "'u reader \<Rightarrow> connection \<Rightarrow> 'u \<Rightarrow> byte list list \<Rightarrow> bool" where
  "in_room reader c u [] = True"
| "in_room reader c u (bs # bss) =
     ((case refresh_rcvBuf c of
         Inl _ \<Rightarrow> True
       | Inr c1 \<Rightarrow> length bs \<le> writtableSize (store c1) (rcvBuf c1))
      \<and> (case tcp_data reader c u bs of
           Some (Inr (c', u')) \<Rightarrow> in_room reader c' u' bss
         | _ \<Rightarrow> True))"

section \<open>Streams of packets\<close>

text \<open>The size of the receive buffer's vector, counting the one a read may replace it by.\<close>

definition vector_size :: "connection \<Rightarrow> nat" where
  "vector_size c = max (length (data_of (store c) (rcvBuf c))) predMsgLen"

context netpack
begin

abbreviation reading ::
  "('c, 'v \<times> 'src, 'u) dispatcher \<Rightarrow> 'src \<Rightarrow> 'u reader" where
  "reading d src \<equiv> (\<lambda>m p u. loop d m p src u)"

text \<open>One read that fits the room: the handlers stop it, or have handled the complete packets.\<close>

lemma tcp_data_round:
  assumes "valid (store c) (rcvBuf c)"
    and "refresh_rcvBuf c = Inr c1" and "length bs \<le> writtableSize (store c1) (rcvBuf c1)"
    and "decode_stream nxt (readable (store c) (rcvBuf c) @ bs) = (vs, rest, True)"
    and "vector_size c + max_packet \<le> max_vec"
  obtains (stop) e where "fold_res (deliver d src) vs u = Inl e"
      and "tcp_data (reading d src) c u bs = Some (Inl e)"
  | (go) c2 u2 where "fold_res (deliver d src) vs u = Inr u2"
      and "tcp_data (reading d src) c u bs = Some (Inr (c2, u2))" and "valid (store c2) (rcvBuf c2)"
      and "readable (store c2) (rcvBuf c2) = rest" and "vector_size c2 \<le> vector_size c + max_packet"
proof -
  from refresh_valid [OF assms(1)] assms(2) have c1: "valid (store c1) (rcvBuf c1)"
    "readable (store c1) (rcvBuf c1) = readable (store c) (rcvBuf c)"
    "length (data_of (store c1) (rcvBuf c1)) \<le> vector_size c" by (auto simp: vector_size_def)
  obtain m where m: "append_bytes (store c1) (rcvBuf c1) bs = Inr m"
    using assms(3) by (simp add: append_bytes_eq [OF c1(1)])
  let ?p = "rcvBuf c1"
  have v: "valid m ?p" using append_bytes_valid [OF c1(1) m c1(1)] .
  have dec: "decode_stream nxt (readable m ?p) = (vs, rest, True)"
    using append_bytes_readable [OF c1(1) m] c1(2) assms(4) by simp
  have len: "length (data_of m ?p) \<le> vector_size c"
    using append_bytes_length [OF c1(1) m] c1(3) by simp
  then have "roomy max_packet m ?p" using assms(5) by (simp add: roomy_def)
  have d: "tcp_data (reading d src) c u bs = map_option (map_sum id
      (\<lambda>(m', u'). (c1\<lparr>store := m\<rparr>\<lparr>store := m'\<rparr>, u'))) (loop d m ?p src u)"
    using assms(2,3) m by (simp add: tcp_data_def take_in_fits)
  from v dec \<open>roomy max_packet m ?p\<close> show thesis
  proof (cases rule: loop_total [where d = d and src = src and u = u])
    case (stop e)
    with d show thesis by (intro that(1) [of e]) simp_all
  next
    case (go m2 u2)
    have "vector_size (c1\<lparr>store := m2\<rparr>) \<le> vector_size c + max_packet"
      using go(5) len by (simp add: vector_size_def)
    with go d show thesis by (intro that(2) [of u2 "c1\<lparr>store := m2\<rparr>"]) simp_all
  qed
qed

lemma tcp_stream_decodes:
  assumes "valid (store c) (rcvBuf c)"
    and "decode_stream nxt (readable (store c) (rcvBuf c))
      = ([], readable (store c) (rcvBuf c), True)"
    and "decode_stream nxt (readable (store c) (rcvBuf c) @ concat bss) = (vs, rest, True)"
    and "in_room (reading d src) c u bss"
    and "vector_size c + length bss * max_packet \<le> max_vec"
  shows "case fold_res (deliver d src) vs u of
      Inl e \<Rightarrow> tcp_stream (reading d src) c u bss = Some (Inl e)
    | Inr u' \<Rightarrow> \<exists>c'. tcp_stream (reading d src) c u bss = Some (Inr (c', u'))
        \<and> readable (store c') (rcvBuf c') = rest"
  using assms
proof (induction bss arbitrary: c u vs)
  case Nil
  then show ?case by auto
next
  case (Cons bs bss)
  let ?bs = "readable (store c) (rcvBuf c)"
  obtain c1 where c1: "refresh_rcvBuf c = Inr c1" using refresh_valid [OF Cons.prems(1)] by blast
  with Cons.prems(4) have fits: "length bs \<le> writtableSize (store c1) (rcvBuf c1)" by simp
  obtain vs1 rest1 ok where dec: "decode_stream nxt (?bs @ bs) = (vs1, rest1, ok)"
    by (metis prod_cases3)
  from Cons.prems(3) have "decode_stream nxt ((?bs @ bs) @ concat bss) = (vs, rest, True)" by simp
  from decode_stream_prefix [OF this dec] dec
  have dec: "decode_stream nxt (?bs @ bs) = (vs1, rest1, True)" by simp
  obtain ws rest2 ok2 where more: "decode_stream nxt (rest1 @ concat bss) = (ws, rest2, ok2)"
    by (metis prod_cases3)
  from decode_stream_append [OF dec more] Cons.prems(3)
  have vs: "vs = vs1 @ ws" "rest2 = rest" "ok2" by simp_all
  from Cons.prems(5) have "vector_size c + max_packet \<le> max_vec" by simp
  with Cons.prems(1) c1 fits dec show ?case
  proof (cases rule: tcp_data_round [where d = d and src = src and u = u])
    case (stop e)
    then show ?thesis by (simp add: vs fold_res_append)
  next
    case (go c2 u2)
    have need: "decode_stream nxt (readable (store c2) (rcvBuf c2))
        = ([], readable (store c2) (rcvBuf c2), True)"
      using decode_stream_rest [OF dec] go(4) by simp
    have w: "decode_stream nxt (readable (store c2) (rcvBuf c2) @ concat bss) = (ws, rest, True)"
      using more vs go(4) by simp
    have room: "in_room (reading d src) c2 u2 bss" using Cons.prems(4) go(2) by simp
    have size: "vector_size c2 + length bss * max_packet \<le> max_vec" using go(5) Cons.prems(5) by simp
    from Cons.IH [OF go(3) need w room size] go(1,2) show ?thesis
      by (cases "fold_res (deliver d src) ws u2") (simp_all add: vs fold_res_append)
  qed
qed

end

section \<open>The packet format\<close>

text \<open>The new-message handler of a connection that speaks the packet format.\<close>

abbreviation flnp_reader :: "(u32, view \<times> 'src, 'u) dispatcher \<Rightarrow> 'src \<Rightarrow> 'u reader" where
  "flnp_reader d src \<equiv> (\<lambda>m p u. flnp_dispatch (on_views d) m p src u)"

lemma stream_packets:
  assumes "valid (store c) (rcvBuf c)" and "readable (store c) (rcvBuf c) = []"
    and "\<forall>v \<in> set vs. sendable v" and "concat bss = concat (map packet_of vs)"
    and "in_room (flnp_reader d src) c u bss" and "vector_size c + length bss * 32767 \<le> max_vec"
  shows "case fold_res (\<lambda>v u. dispatch d (v_cmd v) (v, src) u) vs u of
      Inl e \<Rightarrow> tcp_stream (flnp_reader d src) c u bss = Some (Inl e)
    | Inr u' \<Rightarrow> \<exists>c'. tcp_stream (flnp_reader d src) c u bss = Some (Inr (c', u'))
        \<and> readable (store c') (rcvBuf c') = []"
proof -
  have none: "next_frame [] = Need_more" by (simp add: next_frame_def)
  then have e: "decode_stream next_frame (readable (store c) (rcvBuf c))
      = ([], readable (store c) (rcvBuf c), True)" using assms(2) by (simp add: decode_stream_simps)
  have r: "flnp_reader d src = flnp.reading d src" by (simp add: flnp_dispatch_def on_views_def)
  have "decode_stream next_frame (readable (store c) (rcvBuf c) @ concat bss) = (vs, [], True)"
    using decode_stream_packets [OF assms(3) none] assms(2,4) by simp
  from flnp.tcp_stream_decodes [OF assms(1) e this assms(5) [unfolded r] assms(6)]
  show ?thesis unfolding r .
qed

section \<open>Properties\<close>

text \<open>C1: From the socket to the handlers. The peer sends the packets of a list of messages (each
  with 1 to 32755 content bytes); the connection starts with an empty receive buffer and reads
  them in pieces cut anywhere, no piece larger than the free room of its buffer at that time (and
  not so many that the buffer could reach the largest size of a vector). However often the buffer
  is replaced by a new one, the handlers are called exactly on these messages, in order: a failing
  handler is the failure of the reads, and otherwise they all return and no byte is left.\<close>

theorem tcp_delivers_messages:
  assumes "valid (store c) (rcvBuf c)" and "readable (store c) (rcvBuf c) = []"
    and "\<forall>v \<in> set vs. sendable v" and "concat bss = concat (map packet_of vs)"
    and "in_room (flnp_reader d src) c u bss" and "vector_size c + length bss * 32767 \<le> max_vec"
  shows "case fold_res (\<lambda>v u. dispatch d (v_cmd v) (v, src) u) vs u of
      Inl e \<Rightarrow> tcp_stream (flnp_reader d src) c u bss = Some (Inl e)
    | Inr u' \<Rightarrow> \<exists>c'. tcp_stream (flnp_reader d src) c u bss = Some (Inr (c', u'))
        \<and> readable (store c') (rcvBuf c') = []"
  using assms by (rule stream_packets)

lemma demo_in_room: "in_room (reader :: 'u reader) demo_connection u [packet_of demo_view]"
proof -
  have "length (packet_of demo_view) = 14" by (simp add: packet_bytes_def)
  then show ?thesis
    by (simp add: demo_refresh demo_room del: packet_of.simps split: option.split sum.split)
qed

theorem tcp_delivers_messages_witness:
  "\<exists>c. tcp_stream (flnp_reader recorder ()) demo_connection [] [packet_of demo_view]
      = Some (Inr (c, [demo_view]))
    \<and> readable (store c) (rcvBuf c) = []"
proof -
  let ?bs = "packet_of demo_view"
  have e: "readable (store demo_connection) (rcvBuf demo_connection) = []"
    by (simp add: demo_fields readable_def)
  have s: "\<forall>v \<in> set [demo_view]. sendable v" by (simp add: proto_of_def)
  have b: "concat [?bs] = concat (map packet_of [demo_view])" by (simp del: packet_of.simps)
  have i: "in_room (flnp_reader recorder ()) demo_connection [] [?bs]" by (rule demo_in_room)
  have v: "vector_size demo_connection + length [?bs] * 32767 \<le> max_vec"
    by (simp add: vector_size_def demo_fields predMsgLen_def max_vec_def)
  from tcp_delivers_messages [OF demo_connection_valid e s b i v] show ?thesis
    by (simp add: recorder_dispatch del: packet_of.simps tcp_stream.simps)
qed

end
