(* ===== verification/SessionServer.thy ===== *)
theory SessionServer
  imports Session TcpDispatch
begin

text \<open>
  A server of sessions: a connection reads, the dispatcher cuts the bytes into messages and the
  handler of the heartbeat command calls \<open>handlerHeartbeatReq\<close> of \<^verbatim>\<open>netpack/Session.hpp\<close> for the
  message's \<open>TcpSource\<close>. The command, and how a message carries the user's number and key, are the
  application's. (A manager over \<open>UdpSource\<close> does not compile: \<open>addSession\<close> logs \<open>getPeerInfo()\<close>,
  which \<open>UdpSource\<close> does not have.)
\<close>

section \<open>The handler\<close>

definition heartbeat_handler ::
  "(view \<Rightarrow> u32 \<times> u32) \<Rightarrow> ('c manager \<Rightarrow> u64) \<Rightarrow> (view \<times> 'c source, 'c manager) handler" where
  "heartbeat_handler parse clock = Some (\<lambda>(v, src) m. case parse v of
     (uin, sessKey) \<Rightarrow> handlerHeartbeatReq src uin sessKey (clock m) m)"

definition heartbeat_dispatcher ::
  "u32 \<Rightarrow> (view \<Rightarrow> u32 \<times> u32) \<Rightarrow> ('c manager \<Rightarrow> u64) \<Rightarrow> (u32, view \<times> 'c source, 'c manager) dispatcher" where
  "heartbeat_dispatcher hb parse clock = registerHandler new_Dispatcher hb (heartbeat_handler parse clock)"

lemma heartbeat_dispatch:
  "dispatch (heartbeat_dispatcher hb parse clock) cmd (v, src) m =
    (if cmd = hb then handlerHeartbeatReq src (fst (parse v)) (snd (parse v)) (clock m) m else Inr m)"
  by (simp add: heartbeat_dispatcher_def heartbeat_handler_def registerHandler_def new_Dispatcher_def
      dispatch_def case_prod_unfold)

abbreviation handle_all ::
  "(u32, view \<times> 'c source, 'c manager) dispatcher \<Rightarrow> 'c source \<Rightarrow> view list \<Rightarrow> 'c manager \<Rightarrow> 'c manager res" where
  "handle_all d src \<equiv> fold_res (\<lambda>v u. dispatch d (v_cmd v) (v, src) u)"

text \<open>Messages never fail; heartbeats among them renew their source's session, others change nothing.\<close>

lemma handle_messages:
  assumes "manager_ok m"
  shows "\<exists>m'. handle_all (heartbeat_dispatcher hb parse clock) src vs m = Inr m'
    \<and> manager_ok m' \<and> idle_ticks m' = idle_ticks m \<and> removed m' = removed m
    \<and> (if hb \<in> v_cmd ` set vs then \<exists>a. life m' = (life m)(genConnectId src \<mapsto> (a, idle_ticks m))
       else m' = m)"
  using assms
proof (induction vs arbitrary: m)
  case Nil
  then show ?case by simp
next
  case (Cons v vs)
  let ?D = "heartbeat_dispatcher hb parse clock"
  note step = heartbeat_dispatch [of hb parse clock "v_cmd v" v src m]
  show ?case
  proof (cases "v_cmd v = hb")
    case True
    from heartbeat_eq [OF Cons.prems, of src "fst (parse v)" "snd (parse v)" "clock m"]
    obtain m1 a where m1: "handlerHeartbeatReq src (fst (parse v)) (snd (parse v)) (clock m) m = Inr m1"
      "manager_ok m1" "idle_ticks m1 = idle_ticks m" "removed m1 = removed m"
      "life m1 = (life m)(genConnectId src \<mapsto> (a, idle_ticks m))" by blast
    from Cons.IH [OF m1(2)] obtain m' where
      m': "handle_all ?D src vs m1 = Inr m'" "manager_ok m'" "idle_ticks m' = idle_ticks m1"
      "removed m' = removed m1"
      "if hb \<in> v_cmd ` set vs then \<exists>a. life m' = (life m1)(genConnectId src \<mapsto> (a, idle_ticks m1))
       else m' = m1" by blast
    have "\<exists>b. life m' = (life m)(genConnectId src \<mapsto> (b, idle_ticks m))"
      using m'(5) m1(3,5) by (cases "hb \<in> v_cmd ` set vs") auto
    moreover have "handle_all ?D src (v # vs) m = Inr m'"
      using step True m1(1) m'(1) by simp
    ultimately show ?thesis using True m' m1 by (intro exI [of _ m']) simp
  next
    case False
    from Cons.IH [OF Cons.prems] obtain m' where
      "handle_all ?D src vs m = Inr m'" "manager_ok m'" "idle_ticks m' = idle_ticks m"
      "removed m' = removed m"
      "if hb \<in> v_cmd ` set vs then \<exists>a. life m' = (life m)(genConnectId src \<mapsto> (a, idle_ticks m))
       else m' = m" by blast
    with step False show ?thesis by (intro exI [of _ m']) simp
  qed
qed

section \<open>Properties\<close>

text \<open>From the socket to the session. A connection of a server of sessions reads the packets of
  any messages, cut anywhere into pieces that fit its buffer. Nothing fails; if a heartbeat is among
  the messages, the connection's peer has a session with its full time, whether it had one
  before or not, and otherwise the manager is as it was; no other peer's session changes, none is
  removed, and the manager keeps its invariant.\<close>

theorem heartbeats_keep_sessions:
  assumes "valid (store c) (rcvBuf c)" and "readable (store c) (rcvBuf c) = []"
    and "\<forall>v \<in> set vs. sendable v" and "concat bss = concat (map packet_of vs)"
    and "in_room (flnp_reader (heartbeat_dispatcher hb parse clock) (new_TcpSource conn c)) c m bss"
    and "vector_size c + length bss * 32767 \<le> max_vec" and "manager_ok m"
  shows "\<exists>c' m'. tcp_stream (flnp_reader (heartbeat_dispatcher hb parse clock) (new_TcpSource conn c))
      c m bss = Some (Inr (c', m')) \<and> manager_ok m' \<and> removed m' = removed m
    \<and> (if hb \<in> v_cmd ` set vs
       then \<exists>s. life m' = (life m)(genConnectId (new_TcpSource conn c) \<mapsto> (s, idle_ticks m)) else m' = m)"
proof -
  from handle_messages [OF assms(7), of hb parse clock "new_TcpSource conn c" vs] obtain m' where
    m': "handle_all (heartbeat_dispatcher hb parse clock) (new_TcpSource conn c) vs m = Inr m'"
    "manager_ok m'" "removed m' = removed m"
    "if hb \<in> v_cmd ` set vs
     then \<exists>s. life m' = (life m)(genConnectId (new_TcpSource conn c) \<mapsto> (s, idle_ticks m)) else m' = m"
    by blast
  from stream_packets [OF assms(1-6)] m'(1) obtain c' where
    "tcp_stream (flnp_reader (heartbeat_dispatcher hb parse clock) (new_TcpSource conn c)) c m bss
      = Some (Inr (c', m'))" by auto
  with m'(2-4) show ?thesis by blast
qed

theorem heartbeats_keep_sessions_witness:
  "\<exists>m0 c' m' s. new_SessionManager 150 = Inr m0
    \<and> tcp_stream (flnp_reader (heartbeat_dispatcher 42 (\<lambda>v. (7, 1)) (\<lambda>m. 0)) (new_TcpSource () demo_connection))
        demo_connection (setSessionRemoveHandler True m0) [packet_of demo_view] = Some (Inr (c', m'))
    \<and> life m' (genConnectId (new_TcpSource () demo_connection)) = Some (s, 2)"
proof -
  obtain m0 :: "unit manager" where m0: "new_SessionManager 150 = Inr m0"
    using new_manager_total by blast
  note new = new_manager_ok [OF m0]
  let ?m = "setSessionRemoveHandler True m0" and ?bs = "packet_of demo_view"
  let ?D = "heartbeat_dispatcher 42 (\<lambda>v. (7, 1)) (\<lambda>m. 0) :: (u32, view \<times> unit source, unit manager) dispatcher"
  have e: "readable (store demo_connection) (rcvBuf demo_connection) = []"
    by (simp add: demo_fields readable_def)
  have s: "\<forall>v \<in> set [demo_view]. sendable v" by (simp add: proto_of_def)
  have b: "concat [?bs] = concat (map packet_of [demo_view])" by (simp del: packet_of.simps)
  have i: "in_room (flnp_reader ?D (new_TcpSource () demo_connection)) demo_connection ?m [?bs]"
    by (rule demo_in_room)
  have v: "vector_size demo_connection + length [?bs] * 32767 \<le> max_vec"
    by (simp add: vector_size_def demo_fields predMsgLen_def max_vec_def)
  have h: "42 \<in> v_cmd ` set [demo_view]" by simp
  from heartbeats_keep_sessions [OF demo_connection_valid e s b i v new(1)] obtain c' m' where
    r: "tcp_stream (flnp_reader ?D (new_TcpSource () demo_connection)) demo_connection ?m [?bs]
      = Some (Inr (c', m'))"
    "if 42 \<in> v_cmd ` set [demo_view] then \<exists>s. life m' = (life ?m)(genConnectId
      (new_TcpSource () demo_connection) \<mapsto> (s, idle_ticks ?m)) else m' = ?m" by blast
  from r(2) h obtain s where "life m' = (life ?m)(genConnectId
      (new_TcpSource () demo_connection) \<mapsto> (s, idle_ticks ?m))" by auto
  with r(1) m0 new(2) show ?thesis by auto
qed

end
