(* ===== verification/TimerWrap.thy ===== *)
theory TimerWrap
  imports HashedWheelTimer Channel
begin

text \<open>
  \<^verbatim>\<open>include/TimerWrap.hpp\<close>: a timer driven by a \<open>timerfd\<close> watched by a loop. The
  template parameter is the wheel of \<^verbatim>\<open>HashedWheelTimer.thy\<close>, the only one the library
  has. What \<open>read\<close> yields (the size and the number of expirations) is given.
\<close>

section \<open>State and operations\<close>

record itimerspec =
  value_sec :: nat
  value_nsec :: nat
  interval_sec :: nat
  interval_nsec :: nat

record 'k timer_wrap =
  tw_msPerTick :: u32
  timerfd :: int
  tw_channel :: "unit channel"
  tw_epoll :: interest
  upTimer :: "'k wheel"
  armed :: "itimerspec option"

text \<open>\<open>startFireTick\<close>: the products are of 32-bit unsigned numbers.\<close>

definition startFireTick :: "u32 \<Rightarrow> itimerspec" where
  "startFireTick ms = (let s = unat (ms div 1000); ns = unat ((ms mod 1000) * 1000000) in
     \<lparr>value_sec = s, value_nsec = ns, interval_sec = s, interval_nsec = ns\<rparr>)"

definition new_TimerWrap ::
  "epoll_ctl \<Rightarrow> interest \<Rightarrow> int \<Rightarrow> u32 \<Rightarrow> u32 \<Rightarrow> 'k timer_wrap res" where
  "new_TimerWrap ctl k fd ms tpw =
     assert_then (fd \<ge> 0) (assert_then (ms > 0)
       (bind_res (new_HashedWheelTimer ms tpw) (\<lambda>w.
        bind_res (enableRead ctl True (setReadCallback (User ()) (new_Channel fd), k)) (\<lambda>(ch, k').
        Inr \<lparr>tw_msPerTick = ms, timerfd = fd, tw_channel = ch, tw_epoll = k', upTimer = w,
             armed = Some (startFireTick ms)\<rparr>))))"

definition tw_attach :: "epoll_ctl \<Rightarrow> 'k timer_wrap \<Rightarrow> 'k timer_wrap res" where
  "tw_attach ctl t = bind_res (attach ctl (tw_channel t, tw_epoll t))
     (\<lambda>(ch, k). Inr (t\<lparr>tw_channel := ch, tw_epoll := k\<rparr>))"

definition tw_detach :: "epoll_ctl \<Rightarrow> 'k timer_wrap \<Rightarrow> 'k timer_wrap res" where
  "tw_detach ctl t = bind_res (detach ctl (tw_channel t, tw_epoll t))
     (\<lambda>(ch, k). Inr (t\<lparr>tw_channel := ch, tw_epoll := k\<rparr>))"

definition tw_addTimeout :: "'k task \<Rightarrow> u64 \<Rightarrow> 'k timer_wrap \<Rightarrow> ('k timer_wrap \<times> nat) res" where
  "tw_addTimeout task ms t = bind_res (addTimeout (upTimer t) task ms)
     (\<lambda>(w, a). Inr (t\<lparr>upTimer := w\<rparr>, a))"

text \<open>\<open>handleRead\<close>: one tick, whatever the read returned.\<close>

definition tw_handleRead :: "int \<times> u64 \<Rightarrow> 'k timer_wrap \<Rightarrow> ('k timer_wrap \<times> (nat \<times> 'k) list) res" where
  "tw_handleRead r t = bind_res (tick (upTimer t)) (\<lambda>(w, f). Inr (t\<lparr>upTimer := w\<rparr>, f))"

definition delete_TimerWrap :: "'k timer_wrap \<Rightarrow> unit res" where
  "delete_TimerWrap t = assert_then (\<not> attached (tw_channel t)) (Inr ())"

fun tw_reads :: "(int \<times> u64) list \<Rightarrow> 'k timer_wrap \<Rightarrow> ('k timer_wrap \<times> (nat \<times> 'k) list list) res" where
  "tw_reads [] t = Inr (t, [])"
| "tw_reads (r # rs) t = bind_res (tw_handleRead r t)
     (\<lambda>(t', f). bind_res (tw_reads rs t') (\<lambda>(t'', fs). Inr (t'', f # fs)))"

section \<open>Properties\<close>

text \<open>The timer is armed for exactly the tick's milliseconds, at first and then periodically,
  and the nanoseconds are below a second, as \<open>timerfd_settime\<close> demands.\<close>

theorem startFireTick_exact:
  "let s = startFireTick ms in
     value_sec s * 1000000000 + value_nsec s = unat ms * 1000000 \<and> value_nsec s < 1000000000
     \<and> interval_sec s = value_sec s \<and> interval_nsec s = value_nsec s"
proof -
  have m: "unat (ms mod 1000) = unat ms mod 1000" by (simp add: unat_mod_distrib)
  then have "unat (ms mod 1000) * 1000000 < 2 ^ 32" by simp
  then have ns: "unat ((ms mod 1000) * 1000000) = (unat ms mod 1000) * 1000000"
    by (simp add: unat_word_ariths m)
  have "unat ms = (unat ms div 1000) * 1000 + unat ms mod 1000" by simp
  then have "(unat ms div 1000) * 1000000000 + (unat ms mod 1000) * 1000000 = unat ms * 1000000"
    by linarith
  then show ?thesis
    by (simp add: startFireTick_def Let_def ns unat_div_distrib)
qed

text \<open>The wheel turns one tick per wakeup of the loop, not per expiration of the timer: after
  any reads the wheel is where as many ticks as there were reads leave it, however many
  expirations (or errors) the reads reported.\<close>

theorem one_tick_per_read:
  "tw_reads rs t = bind_res (run_wheel (replicate (length rs) Tick) (upTimer t))
     (\<lambda>(w, fs). Inr (t\<lparr>upTimer := w\<rparr>, fs))"
proof (induction rs arbitrary: t)
  case Nil
  then show ?case by simp
next
  case (Cons r rs)
  show ?case
  proof (cases "tick (upTimer t)")
    case (Inl e)
    then show ?thesis by (simp add: tw_handleRead_def)
  next
    case (Inr p)
    obtain w f where p: "p = (w, f)" by fastforce
    have h: "tw_handleRead r t = Inr (t\<lparr>upTimer := w\<rparr>, f)" using Inr p by (simp add: tw_handleRead_def)
    show ?thesis
      using Cons.IH [of "t\<lparr>upTimer := w\<rparr>"] Inr p h
      by (cases "run_wheel (replicate (length rs) Tick) w") auto
  qed
qed

end
