(* ===== verification/SessionTimer.thy ===== *)
theory SessionTimer
  imports Session TimerWrap MultiplexLooper
begin

text \<open>
  A \<open>SessionManager\<close> (\<^verbatim>\<open>netpack/Session.hpp\<close>) on its loop: its timer is a \<open>TimerWrap\<close>, which
  the loop calls when the \<open>timerfd\<close> is readable, and which \<open>startWork\<close> and \<open>stopWork\<close> attach and
  detach. What the kernel reports, and when, is given.
\<close>

section \<open>State and operations\<close>

text \<open>The wheel is the one of the wrapper; \<open>with_manager\<close> keeps the two views of it the same.\<close>

record 'c timed_manager =
  tm_manager :: "'c manager"
  tm_wrap :: "nat timer_wrap"

definition with_manager :: "'c manager \<Rightarrow> 'c timed_manager \<Rightarrow> 'c timed_manager" where
  "with_manager m s = s\<lparr>tm_manager := m, tm_wrap := (tm_wrap s)\<lparr>upTimer := timer m\<rparr>\<rparr>"

definition new_timed_manager ::
  "epoll_ctl \<Rightarrow> interest \<Rightarrow> int \<Rightarrow> u32 \<Rightarrow> 'c timed_manager res" where
  "new_timed_manager ctl k fd expireMS =
     bind_res (new_TimerWrap ctl k fd TimerInterval (expireMS div TimerInterval)) (\<lambda>t.
     bind_res (new_SessionManager expireMS) (\<lambda>m. Inr \<lparr>tm_manager = m\<lparr>timer := upTimer t\<rparr>, tm_wrap = t\<rparr>))"

definition sm_startWork :: "epoll_ctl \<Rightarrow> 'c timed_manager \<Rightarrow> 'c timed_manager res" where
  "sm_startWork ctl s = bind_res (tw_attach ctl (tm_wrap s)) (\<lambda>t. Inr (s\<lparr>tm_wrap := t\<rparr>))"

definition sm_stopWork :: "epoll_ctl \<Rightarrow> 'c timed_manager \<Rightarrow> 'c timed_manager res" where
  "sm_stopWork ctl s = bind_res (tw_detach ctl (tm_wrap s)) (\<lambda>t. Inr (s\<lparr>tm_wrap := t\<rparr>))"

definition sm_heartbeat :: "'c source \<Rightarrow> u32 \<Rightarrow> u32 \<Rightarrow> u64 \<Rightarrow> 'c timed_manager \<Rightarrow> 'c timed_manager res" where
  "sm_heartbeat src uin sk now s =
     bind_res (handlerHeartbeatReq src uin sk now (tm_manager s)) (\<lambda>m. Inr (with_manager m s))"

text \<open>The read callback of the timer: the tasks that ring are calls of \<open>removeSession\<close>.\<close>

definition sm_handleRead :: "int \<times> u64 \<Rightarrow> 'c timed_manager \<Rightarrow> 'c timed_manager res" where
  "sm_handleRead r s = bind_res (tw_handleRead r (tm_wrap s)) (\<lambda>(t, fired).
     bind_res (remove_all (map snd fired) ((tm_manager s)\<lparr>timer := upTimer t\<rparr>)) (\<lambda>m.
     Inr (with_manager m (s\<lparr>tm_wrap := t\<rparr>))))"

definition sm_setRemoveHandler :: "bool \<Rightarrow> 'c timed_manager \<Rightarrow> 'c timed_manager" where
  "sm_setRemoveHandler h s = s\<lparr>tm_manager := setSessionRemoveHandler h (tm_manager s)\<rparr>"

text \<open>An event of the loop; the kernel reports none for a descriptor it does not watch.\<close>

definition timer_watched :: "'c timed_manager \<Rightarrow> bool" where
  "timer_watched s \<longleftrightarrow> tw_epoll (tm_wrap s) (ch_fd (tw_channel (tm_wrap s))) \<noteq> None"

definition timer_event :: "u32 \<Rightarrow> int \<times> u64 \<Rightarrow> 'c timed_manager \<Rightarrow> 'c timed_manager res" where
  "timer_event ev r s =
     (if timer_watched s
      then dispatch_event (\<lambda>s _. Some (tw_channel (tm_wrap s))) (\<lambda>_. sm_handleRead r) (ev, 0) s
      else Inr s)"

text \<open>The destructor is the one of the timer.\<close>

definition delete_SessionManager :: "'c timed_manager \<Rightarrow> unit res" where
  "delete_SessionManager s = delete_TimerWrap (tm_wrap s)"

datatype 'c sm_event = Beat "'c source" u32 u32 u64 | Ready u32 "int \<times> u64" | Start | Stop

fun run_sm :: "epoll_ctl \<Rightarrow> 'c sm_event list \<Rightarrow> 'c timed_manager \<Rightarrow> 'c timed_manager res" where
  "run_sm ctl [] s = Inr s"
| "run_sm ctl (Beat src uin sk now # es) s = bind_res (sm_heartbeat src uin sk now s) (run_sm ctl es)"
| "run_sm ctl (Ready ev r # es) s = bind_res (timer_event ev r s) (run_sm ctl es)"
| "run_sm ctl (Start # es) s = bind_res (sm_startWork ctl s) (run_sm ctl es)"
| "run_sm ctl (Stop # es) s = bind_res (sm_stopWork ctl s) (run_sm ctl es)"

section \<open>What the events amount to\<close>

text \<open>A tick for each readable event while the timer is attached, whatever the read returns.\<close>

fun abstract_ops :: "bool \<Rightarrow> 'c sm_event list \<Rightarrow> 'c manager_op list" where
  "abstract_ops working [] = []"
| "abstract_ops working (Beat src uin sk now # es) = Heartbeat src uin sk now # abstract_ops working es"
| "abstract_ops working (Ready ev r # es) =
     (if working \<and> ev AND EVENT_READ \<noteq> 0 then [TimerTick] else []) @ abstract_ops working es"
| "abstract_ops working (Start # es) = abstract_ops True es"
| "abstract_ops working (Stop # es) = abstract_ops False es"

abbreviation working :: "'c timed_manager \<Rightarrow> bool" where
  "working s \<equiv> attached (tw_channel (tm_wrap s))"

definition timed_ok :: "'c timed_manager \<Rightarrow> bool" where
  "timed_ok s \<longleftrightarrow> manager_ok (tm_manager s) \<and> upTimer (tm_wrap s) = timer (tm_manager s)
     \<and> (let ch = tw_channel (tm_wrap s) in ch_fd ch \<ge> 0 \<and> timer_watched s = attached ch
          \<and> readEventHandler ch = User () \<and> writeEventHandler ch = DUMMY_HANDLE
          \<and> closedHandler ch = DUMMY_HANDLE \<and> errorHandler ch = Default_error_handler)"

text \<open>The read callback is one tick of the manager.\<close>

lemma sm_handleRead_eq:
  assumes "timed_ok s"
  shows "\<exists>m'. manager_tick (tm_manager s) = Inr m' \<and> manager_ok m' \<and> sm_handleRead r s = Inr (with_manager m' s)"
proof -
  let ?m = "tm_manager s"
  from assms have ok: "manager_ok ?m" and u: "upTimer (tm_wrap s) = timer ?m"
    by (simp_all add: timed_ok_def Let_def)
  from manager_tick_eq [OF ok] obtain m' where m': "manager_tick ?m = Inr m'" "manager_ok m'" by blast
  then obtain w f where w: "tick (timer ?m) = Inr (w, f)" by (auto simp: manager_tick_def)
  with m'(1) have r: "remove_all (map snd f) (?m\<lparr>timer := w\<rparr>) = Inr m'" by (simp add: manager_tick_def)
  have "sm_handleRead r s = Inr (with_manager m' s)"
    using w r u by (simp add: sm_handleRead_def tw_handleRead_def with_manager_def)
  with m' show ?thesis by blast
qed

lemma timed_ok_with_manager:
  "timed_ok s \<Longrightarrow> manager_ok m \<Longrightarrow> timed_ok (with_manager m s)"
  by (simp add: timed_ok_def with_manager_def timer_watched_def)

lemma working_with_manager [simp]: "working (with_manager m s) = working s"
  by (simp add: with_manager_def)

lemma tm_manager_with [simp]: "tm_manager (with_manager m s) = m"
  by (simp add: with_manager_def)

lemma timer_event_eq:
  assumes "timed_ok s"
  shows "timer_event ev r s =
    (if working s \<and> ev AND EVENT_READ \<noteq> 0 then sm_handleRead r s else Inr s)"
proof (cases "working s")
  case True
  with assms have c: "timer_watched s" "readEventHandler (tw_channel (tm_wrap s)) = User ()"
    "closedHandler (tw_channel (tm_wrap s)) = DUMMY_HANDLE"
    "errorHandler (tw_channel (tm_wrap s)) = Default_error_handler"
    "writeEventHandler (tw_channel (tm_wrap s)) = DUMMY_HANDLE"
    by (simp_all add: timed_ok_def Let_def)
  from sm_handleRead_eq [OF assms, of r] obtain m' where
    r: "sm_handleRead r s = Inr (with_manager m' s)" by blast
  from c r True show ?thesis
    by (auto simp: timer_event_def dispatch_event_def on_event_def with_channel_def handleClosed_def
        handleError_def handleRead_def handleWrite_def invoke_def with_manager_def)
next
  case False
  with assms show ?thesis by (simp add: timer_event_def timed_ok_def Let_def)
qed

lemma sm_startWork_ok:
  assumes "epoll_documented ctl" and "timed_ok s"
  obtains s' where "sm_startWork ctl s = Inr s'" and "timed_ok s'" and "working s'"
    and "tm_manager s' = tm_manager s"
proof -
  let ?ch = "tw_channel (tm_wrap s)" and ?k = "tw_epoll (tm_wrap s)"
  from assms(2) have c: "ch_fd ?ch \<ge> 0" "(?k (ch_fd ?ch) \<noteq> None) = attached ?ch"
    by (simp_all add: timed_ok_def timer_watched_def Let_def)
  show thesis
  proof (cases "attached ?ch")
    case True
    with c(1) have "attach ctl (?ch, ?k) = Inr (?ch, ?k)" by (simp add: attach_def)
    with True assms(2) show thesis
      by (intro that [of s]) (simp_all add: sm_startWork_def tw_attach_def)
  next
    case False
    with attach_fresh [OF assms(1) c(1)] c(2) have
      "attach ctl (?ch, ?k) = Inr (?ch\<lparr>attached := True\<rparr>, ?k(ch_fd ?ch \<mapsto> ch_events ?ch))" by simp
    with assms(2) show thesis
      by (intro that [of "s\<lparr>tm_wrap := (tm_wrap s)\<lparr>tw_channel := ?ch\<lparr>attached := True\<rparr>,
            tw_epoll := ?k(ch_fd ?ch \<mapsto> ch_events ?ch)\<rparr>\<rparr>"])
        (simp_all add: sm_startWork_def tw_attach_def timed_ok_def timer_watched_def Let_def)
  qed
qed

lemma sm_stopWork_ok:
  assumes "epoll_documented ctl" and "timed_ok s"
  obtains s' where "sm_stopWork ctl s = Inr s'" and "timed_ok s'" and "\<not> working s'"
    and "tm_manager s' = tm_manager s"
proof -
  let ?ch = "tw_channel (tm_wrap s)" and ?k = "tw_epoll (tm_wrap s)"
  from assms(2) have c: "ch_fd ?ch \<ge> 0" "(?k (ch_fd ?ch) \<noteq> None) = attached ?ch"
    by (simp_all add: timed_ok_def timer_watched_def Let_def)
  show thesis
  proof (cases "attached ?ch")
    case True
    with detach_attached [OF assms(1) c(1)] c(2) have
      "detach ctl (?ch, ?k) = Inr (?ch\<lparr>attached := False\<rparr>, ?k(ch_fd ?ch := None))" by simp
    with assms(2) show thesis
      by (intro that [of "s\<lparr>tm_wrap := (tm_wrap s)\<lparr>tw_channel := ?ch\<lparr>attached := False\<rparr>,
            tw_epoll := ?k(ch_fd ?ch := None)\<rparr>\<rparr>"])
        (simp_all add: sm_stopWork_def tw_detach_def timed_ok_def timer_watched_def Let_def)
  next
    case False
    with assms(2) show thesis
      by (intro that [of s]) (simp_all add: sm_stopWork_def tw_detach_def)
  qed
qed

text \<open>A run of events is a run of the manager, and never fails.\<close>

lemma run_sm_refines:
  assumes "epoll_documented ctl"
  shows "timed_ok s \<Longrightarrow> \<exists>s'. run_sm ctl es s = Inr s' \<and> timed_ok s'
    \<and> run_manager (abstract_ops (working s) es) (tm_manager s) = Inr (tm_manager s')"
proof (induction es arbitrary: s)
  case Nil
  then show ?case by simp
next
  case (Cons e es)
  show ?case
  proof (cases e)
    case (Beat src uin sk now)
    from Cons.prems have "manager_ok (tm_manager s)" by (simp add: timed_ok_def)
    from heartbeat_eq [OF this, of src uin sk now] obtain m1 where
      m1: "handlerHeartbeatReq src uin sk now (tm_manager s) = Inr m1" "manager_ok m1" by blast
    with Cons.IH [OF timed_ok_with_manager [OF Cons.prems m1(2)]] Beat show ?thesis
      by (auto simp: sm_heartbeat_def)
  next
    case (Ready ev r)
    from sm_handleRead_eq [OF Cons.prems, of r] obtain m1 where
      m1: "manager_tick (tm_manager s) = Inr m1" "manager_ok m1" "sm_handleRead r s = Inr (with_manager m1 s)"
      by blast
    show ?thesis
    proof (cases "working s \<and> ev AND EVENT_READ \<noteq> 0")
      case True
      with Cons.IH [OF timed_ok_with_manager [OF Cons.prems m1(2)]] m1 Ready show ?thesis
        by (auto simp: timer_event_eq [OF Cons.prems])
    next
      case False
      with Cons.IH [OF Cons.prems] Ready show ?thesis
        by (auto simp: timer_event_eq [OF Cons.prems])
    qed
  next
    case Start
    obtain s1 where "sm_startWork ctl s = Inr s1" "timed_ok s1" "working s1" "tm_manager s1 = tm_manager s"
      by (rule sm_startWork_ok [OF assms Cons.prems])
    with Cons.IH [of s1] Start show ?thesis by auto
  next
    case Stop
    obtain s1 where "sm_stopWork ctl s = Inr s1" "timed_ok s1" "\<not> working s1" "tm_manager s1 = tm_manager s"
      by (rule sm_stopWork_ok [OF assms Cons.prems])
    with Cons.IH [of s1] Stop show ?thesis by auto
  qed
qed

section \<open>A new manager\<close>

lemma new_timed_ok:
  assumes "epoll_documented ctl" and "fd \<ge> 0" and "k fd = None"
    and "new_timed_manager ctl k fd idle = Inr s0"
  shows "timed_ok (sm_setRemoveHandler True s0)" and "\<not> working s0"
    and "idle_ticks (tm_manager (sm_setRemoveHandler True s0)) = (unat idle + 99) div 100"
proof -
  from assms(4) obtain t m where t: "new_TimerWrap ctl k fd TimerInterval (idle div TimerInterval) = Inr t"
    "new_SessionManager idle = Inr m" "s0 = \<lparr>tm_manager = m\<lparr>timer := upTimer t\<rparr>, tm_wrap = t\<rparr>"
    by (auto simp: new_timed_manager_def)
  from t(1) obtain w :: "nat wheel" where w: "new_HashedWheelTimer TimerInterval (idle div TimerInterval) = Inr w"
    by (auto simp: new_TimerWrap_def)
  with t(2) have "timer m = w" by (auto simp: new_SessionManager_def)
  with t w have s0: "tm_manager s0 = m" "upTimer (tm_wrap s0) = timer m"
    by (auto simp: new_TimerWrap_def channel_eval)
  have c: "tw_channel (tm_wrap s0) = (new_Channel fd)\<lparr>readEventHandler := User (),
        ch_events := with_edge True EVENT_READ\<rparr>" "tw_epoll (tm_wrap s0) = k"
    using t w by (auto simp: new_TimerWrap_def channel_eval)
  note N = new_manager_ok [OF t(2)]
  show "timed_ok (sm_setRemoveHandler True s0)"
    using N(1) s0 c assms(2,3)
    by (simp add: timed_ok_def sm_setRemoveHandler_def timer_watched_def new_Channel_def
        setSessionRemoveHandler_def Let_def)
  show "\<not> working s0" by (simp add: c new_Channel_def)
  show "idle_ticks (tm_manager (sm_setRemoveHandler True s0)) = (unat idle + 99) div 100"
    using N(2) s0(1) by (simp add: sm_setRemoveHandler_def)
qed

section \<open>Properties\<close>

text \<open>The readable events of a run that come while the timer is attached.\<close>

fun wakeups :: "bool \<Rightarrow> 'c sm_event list \<Rightarrow> nat" where
  "wakeups w [] = 0"
| "wakeups w (Beat src uin sk now # es) = wakeups w es"
| "wakeups w (Ready ev r # es) = (if w \<and> ev AND EVENT_READ \<noteq> 0 then 1 else 0) + wakeups w es"
| "wakeups w (Start # es) = wakeups True es"
| "wakeups w (Stop # es) = wakeups False es"

definition beats_of :: "u64 \<Rightarrow> 'c sm_event list \<Rightarrow> bool" where
  "beats_of cid es \<longleftrightarrow> (\<exists>src uin sk now. Beat src uin sk now \<in> set es \<and> genConnectId src = cid)"

lemma ticks_abstract: "ticks_in (abstract_ops w es) = wakeups w es"
  by (induction w es rule: wakeups.induct) auto

lemma heartbeat_abstract:
  "Heartbeat src uin sk now \<in> set (abstract_ops w es) \<longleftrightarrow> Beat src uin sk now \<in> set es"
  by (induction w es rule: wakeups.induct) auto

lemma heartbeats_abstract: "heartbeats_of cid (abstract_ops w es) = beats_of cid es"
  by (simp add: heartbeats_of_def beats_of_def heartbeat_abstract)

lemma run_sm_keeps:
  assumes "epoll_documented ctl" and "timed_ok s" and "run_sm ctl es s = Inr s'"
  shows "timed_ok s'" and "idle_ticks (tm_manager s') = idle_ticks (tm_manager s)"
proof -
  from run_sm_refines [OF assms(1,2), of es] assms(3) have s': "timed_ok s'"
    "run_manager (abstract_ops (working s) es) (tm_manager s) = Inr (tm_manager s')" by auto
  then show "timed_ok s'" by simp
  from assms(2) have "manager_ok (tm_manager s)" by (simp add: timed_ok_def)
  from run_manager_total [OF this, of "abstract_ops (working s) es"] s'(2)
  show "idle_ticks (tm_manager s') = idle_ticks (tm_manager s)" by auto
qed

text \<open>A heartbeat, and what is left of its session when its source falls silent.\<close>

lemma beat_then_silence:
  assumes "epoll_documented ctl" and "timed_ok s1" and "\<not> beats_of (genConnectId src) after"
  shows "\<exists>s2 s3 a. sm_heartbeat src uin sk now s1 = Inr s2 \<and> run_sm ctl after s2 = Inr s3
    \<and> working s2 = working s1 \<and> findSessionByCid (genConnectId src) (tm_manager s2) = Some a
    \<and> findSessionByCid (genConnectId src) (tm_manager s3)
       = (if wakeups (working s1) after \<le> idle_ticks (tm_manager s1) then Some a else None)"
proof -
  have ok1: "manager_ok (tm_manager s1)" using assms(2) by (simp add: timed_ok_def)
  from heartbeat_eq [OF ok1, of src uin sk now] obtain m2 where
    m2: "handlerHeartbeatReq src uin sk now (tm_manager s1) = Inr m2" "manager_ok m2" by blast
  let ?s2 = "with_manager m2 s1"
  have s2: "sm_heartbeat src uin sk now s1 = Inr ?s2" by (simp add: sm_heartbeat_def m2(1))
  from run_sm_refines [OF assms(1) timed_ok_with_manager [OF assms(2) m2(2)], of after] obtain s3 where
    s3: "run_sm ctl after ?s2 = Inr s3"
      "run_manager (abstract_ops (working ?s2) after) m2 = Inr (tm_manager s3)" by auto
  have "\<not> heartbeats_of (genConnectId src) (abstract_ops (working ?s2) after)"
    using assms(3) by (simp add: heartbeats_abstract)
  from heartbeat_then_silence [OF ok1 m2(1) this s3(2)] s2 s3(1) show ?thesis
    unfolding ticks_abstract by auto
qed

text \<open>Sessions in the loop. However a manager's work is started and stopped, whatever events
  the kernel reports for its timer (and whatever the reads of the \<open>timerfd\<close> return), and whatever
  heartbeats come, nothing fails; and a session whose source has been silent is there exactly as
  long as the loop has been woken by the attached timer at most \<open>\<lceil>idle / 100\<rceil>\<close> times since. It is
  the wakeups that count, not the time: ticks the loop was too late for, or that came while the
  work was stopped, do not age a session.\<close>

theorem session_expires_by_wakeups:
  assumes "epoll_documented ctl" and "fd \<ge> 0" and "k fd = None"
    and "new_timed_manager ctl k fd idle = Inr s0"
    and "\<not> beats_of (genConnectId src) after"
  shows "\<exists>s1 s2 s3 a. run_sm ctl before (sm_setRemoveHandler True s0) = Inr s1
    \<and> sm_heartbeat src uin sk now s1 = Inr s2 \<and> run_sm ctl after s2 = Inr s3
    \<and> findSessionByCid (genConnectId src) (tm_manager s2) = Some a
    \<and> findSessionByCid (genConnectId src) (tm_manager s3)
       = (if wakeups (working s2) after \<le> (unat idle + 99) div 100 then Some a else None)"
proof -
  note new = new_timed_ok [OF assms(1-4)]
  from run_sm_refines [OF assms(1) new(1), of before] obtain s1 where
    s1: "run_sm ctl before (sm_setRemoveHandler True s0) = Inr s1" "timed_ok s1" by blast
  have idle: "idle_ticks (tm_manager s1) = (unat idle + 99) div 100"
    using run_sm_keeps(2) [OF assms(1) new(1) s1(1)] new(3) by simp
  from beat_then_silence [OF assms(1) s1(2) assms(5), of uin sk now] s1(1) idle show ?thesis by auto
qed

lemma new_timed_manager_total: "\<exists>s0 :: 'c timed_manager. new_timed_manager sample_ctl (\<lambda>_. None) 7 150 = Inr s0"
proof -
  obtain m0 :: "'c manager" where m0: "new_SessionManager 150 = Inr m0"
    using new_manager_total by blast
  then obtain w :: "nat wheel" where "new_HashedWheelTimer TimerInterval (150 div TimerInterval) = Inr w"
    by (auto simp: new_SessionManager_def)
  with m0 show ?thesis by (simp add: new_timed_manager_def new_TimerWrap_def channel_eval)
qed

theorem session_expires_by_wakeups_witness:
  "\<exists>s0 s1 s2 s3. new_timed_manager sample_ctl (\<lambda>_. None) 7 150 = Inr s0
    \<and> run_sm sample_ctl [Start] (sm_setRemoveHandler True s0) = Inr s1
    \<and> sm_heartbeat (peer 1 2) 7 0 0 s1 = Inr s2
    \<and> run_sm sample_ctl [Stop, Ready EPOLLIN (8, 5), Start, Ready EPOLLIN (8, 1)] s2 = Inr s3
    \<and> findSessionByCid (genConnectId (peer 1 2)) (tm_manager s3) \<noteq> None"
proof -
  let ?es = "[Stop, Ready EPOLLIN (8, 5), Start, Ready EPOLLIN (8, 1)] :: unit sm_event list"
  obtain s0 :: "unit timed_manager" where s0: "new_timed_manager sample_ctl (\<lambda>_. None) 7 150 = Inr s0"
    using new_timed_manager_total by blast
  have fd: "(7::int) \<ge> 0" "(\<lambda>_. None :: u32 option) (7::int) = None" by simp_all
  have b: "\<not> beats_of (genConnectId (peer 1 2)) ?es" by (simp add: beats_of_def)
  from session_expires_by_wakeups [OF sample_ctl_documented fd s0 b, of "[Start]" 7 0 0]
  obtain s1 s2 s3 a where s: "run_sm sample_ctl [Start] (sm_setRemoveHandler True s0) = Inr s1"
    "sm_heartbeat (peer 1 2) 7 0 0 s1 = Inr s2" "run_sm sample_ctl ?es s2 = Inr s3"
    "findSessionByCid (genConnectId (peer 1 2)) (tm_manager s3)
       = (if wakeups (working s2) ?es \<le> (unat (150 :: u32) + 99) div 100 then Some a else None)" by blast
  have "wakeups (working s2) ?es \<le> 2" by simp
  with s(4) have "findSessionByCid (genConnectId (peer 1 2)) (tm_manager s3) \<noteq> None"
    by (simp del: wakeups.simps)
  with s(1-3) s0 show ?thesis by blast
qed

end
