(* ===== verification/SessionService.thy ===== *)
theory SessionService
  imports SessionServer SessionTimer
begin

text \<open>
  A whole service: a \<open>SessionManager\<close> (\<^verbatim>\<open>netpack/Session.hpp\<close>) whose timer runs on the loop, and any
  number of connections (\<^verbatim>\<open>TcpConnection.cpp\<close>) whose new-message handler is one dispatcher with the
  manager's heartbeat handler. The loop reads from the connections and serves the timer in the
  order in which the kernel reports the events. A connection is named by its index.
\<close>

section \<open>The service\<close>

record service =
  sv_manager :: "nat timed_manager"
  sv_conns :: "connection list"

text \<open>The handler of the heartbeat command at the time \<open>now\<close>.\<close>

definition service_dispatcher ::
  "u32 \<Rightarrow> (view \<Rightarrow> u32 \<times> u32) \<Rightarrow> u64 \<Rightarrow> (u32, view \<times> nat source, nat timed_manager) dispatcher" where
  "service_dispatcher hb parse now = registerHandler new_Dispatcher hb (Some (\<lambda>(v, src) s.
     case parse v of (uin, sessKey) \<Rightarrow> sm_heartbeat src uin sessKey now s))"

datatype service_event = Bytes nat "byte list" u64 | Timer u32 "int \<times> u64" | Begin_work | End_work

definition service_read ::
  "u32 \<Rightarrow> (view \<Rightarrow> u32 \<times> u32) \<Rightarrow> nat \<Rightarrow> byte list \<Rightarrow> u64 \<Rightarrow> service \<Rightarrow> service res option" where
  "service_read hb parse i bs now s =
     (let c = sv_conns s ! i in
      map_option (map_sum id (\<lambda>(c', m). \<lparr>sv_manager = m, sv_conns = (sv_conns s)[i := c']\<rparr>))
        (tcp_data (flnp_reader (service_dispatcher hb parse now) (new_TcpSource i c)) c (sv_manager s) bs))"

definition on_manager :: "(nat timed_manager \<Rightarrow> nat timed_manager res) \<Rightarrow> service \<Rightarrow> service res" where
  "on_manager f s = bind_res (f (sv_manager s)) (\<lambda>m. Inr (s\<lparr>sv_manager := m\<rparr>))"

fun service_step ::
  "epoll_ctl \<Rightarrow> u32 \<Rightarrow> (view \<Rightarrow> u32 \<times> u32) \<Rightarrow> service_event \<Rightarrow> service \<Rightarrow> service res option" where
  "service_step ctl hb parse (Bytes i bs now) s = service_read hb parse i bs now s"
| "service_step ctl hb parse (Timer ev r) s = Some (on_manager (timer_event ev r) s)"
| "service_step ctl hb parse Begin_work s = Some (on_manager (sm_startWork ctl) s)"
| "service_step ctl hb parse End_work s = Some (on_manager (sm_stopWork ctl) s)"

fun run_service ::
  "epoll_ctl \<Rightarrow> u32 \<Rightarrow> (view \<Rightarrow> u32 \<times> u32) \<Rightarrow> service_event list \<Rightarrow> service \<Rightarrow> service res option" where
  "run_service ctl hb parse [] s = Some (Inr s)"
| "run_service ctl hb parse (e # es) s = (case service_step ctl hb parse e s of
       None \<Rightarrow> None
     | Some (Inl f) \<Rightarrow> Some (Inl f)
     | Some (Inr s') \<Rightarrow> run_service ctl hb parse es s')"

text \<open>The reads of a run fit the free room of their connections' buffers.\<close>

fun fits_room :: "connection \<Rightarrow> byte list \<Rightarrow> bool" where
  "fits_room c bs = (case refresh_rcvBuf c of
     Inl _ \<Rightarrow> True | Inr c1 \<Rightarrow> length bs \<le> writtableSize (store c1) (rcvBuf c1))"

fun service_in_room ::
  "epoll_ctl \<Rightarrow> u32 \<Rightarrow> (view \<Rightarrow> u32 \<times> u32) \<Rightarrow> service_event list \<Rightarrow> service \<Rightarrow> bool" where
  "service_in_room ctl hb parse [] s = True"
| "service_in_room ctl hb parse (e # es) s =
     ((\<forall>i bs now. e = Bytes i bs now \<longrightarrow> i < length (sv_conns s) \<and> fits_room (sv_conns s ! i) bs)
      \<and> (case service_step ctl hb parse e s of
           Some (Inr s') \<Rightarrow> service_in_room ctl hb parse es s' | _ \<Rightarrow> True))"

section \<open>What the events amount to\<close>

text \<open>The heartbeats a read completes, from the bytes left over by the connection's earlier reads.\<close>

definition beats :: "u32 \<Rightarrow> (view \<Rightarrow> u32 \<times> u32) \<Rightarrow> 'c source \<Rightarrow> u64 \<Rightarrow> view list \<Rightarrow> 'c sm_event list" where
  "beats hb parse src now vs =
     map (\<lambda>v. Beat src (fst (parse v)) (snd (parse v)) now) (filter (\<lambda>v. v_cmd v = hb) vs)"

fun manager_events ::
  "u32 \<Rightarrow> (view \<Rightarrow> u32 \<times> u32) \<Rightarrow> (nat \<Rightarrow> nat source) \<Rightarrow> (nat \<Rightarrow> byte list) \<Rightarrow> service_event list
    \<Rightarrow> nat sm_event list" where
  "manager_events hb parse src left [] = []"
| "manager_events hb parse src left (Bytes i bs now # es) =
     (let (vs, rest, _) = decode_stream next_frame (left i @ bs) in
      beats hb parse (src i) now vs @ manager_events hb parse src (left(i := rest)) es)"
| "manager_events hb parse src left (Timer ev r # es) = Ready ev r # manager_events hb parse src left es"
| "manager_events hb parse src left (Begin_work # es) = Start # manager_events hb parse src left es"
| "manager_events hb parse src left (End_work # es) = Stop # manager_events hb parse src left es"

text \<open>No connection sends a malformed packet.\<close>

fun well_framed :: "(nat \<Rightarrow> byte list) \<Rightarrow> service_event list \<Rightarrow> bool" where
  "well_framed left [] = True"
| "well_framed left (Bytes i bs now # es) =
     (let (vs, rest, ok) = decode_stream next_frame (left i @ bs) in ok \<and> well_framed (left(i := rest)) es)"
| "well_framed left (_ # es) = well_framed left es"

lemma run_sm_append: "run_sm ctl (es @ fs) s = bind_res (run_sm ctl es s) (run_sm ctl fs)"
proof (induction es arbitrary: s)
  case (Cons e es)
  then have "run_sm ctl (es @ fs) = (\<lambda>s. bind_res (run_sm ctl es s) (run_sm ctl fs))" by blast
  then show ?case by (cases e) (simp_all add: bind_res_assoc)
qed simp

lemma run_sm_done: "bind_res r (run_sm ctl []) = r"
  by (cases r) simp_all

lemma service_dispatch:
  "dispatch (service_dispatcher hb parse now) cmd (v, src) s =
    (if cmd = hb then sm_heartbeat src (fst (parse v)) (snd (parse v)) now s else Inr s)"
  by (simp add: service_dispatcher_def registerHandler_def new_Dispatcher_def dispatch_def case_prod_unfold)

text \<open>The handlers called for the messages of a read are the beats, for the manager.\<close>

lemma handlers_are_beats:
  "fold_res (\<lambda>v u. dispatch (service_dispatcher hb parse now) (v_cmd v) (v, src) u) vs s
    = run_sm ctl (beats hb parse src now vs) s"
proof (induction vs arbitrary: s)
  case (Cons v vs)
  then show ?case
    by (cases "sm_heartbeat src (fst (parse v)) (snd (parse v)) now s")
      (simp_all add: beats_def service_dispatch)
qed (simp add: beats_def)

section \<open>The simulation\<close>

definition conn_ok :: "nat source \<Rightarrow> byte list \<Rightarrow> nat \<Rightarrow> nat \<Rightarrow> connection \<Rightarrow> bool" where
  "conn_ok src left n i c \<longleftrightarrow> valid (store c) (rcvBuf c) \<and> readable (store c) (rcvBuf c) = left
     \<and> decode_stream next_frame left = ([], left, True) \<and> new_TcpSource i c = src
     \<and> vector_size c + n * 32767 \<le> max_vec"

text \<open>\<open>n\<close> events are to come.\<close>

definition service_ok :: "(nat \<Rightarrow> nat source) \<Rightarrow> (nat \<Rightarrow> byte list) \<Rightarrow> nat \<Rightarrow> service \<Rightarrow> bool" where
  "service_ok src left n s \<longleftrightarrow> timed_ok (sv_manager s)
     \<and> (\<forall>i < length (sv_conns s). conn_ok (src i) (left i) n i (sv_conns s ! i))"

lemma conn_ok_less: "conn_ok src left (Suc n) i c \<Longrightarrow> conn_ok src left n i c"
  by (simp add: conn_ok_def)

lemma tcp_data_peer:
  assumes "tcp_data reader c u bs = Some (Inr (c', u'))"
  shows "peerAddr c' = peerAddr c"
proof -
  from assms obtain c1 where c1: "refresh_rcvBuf c = Inr c1"
    by (cases "refresh_rcvBuf c") (simp_all add: tcp_data_def)
  moreover from assms c1 obtain m where m: "take_in (store c1) (rcvBuf c1) bs = Inr m"
    by (cases "take_in (store c1) (rcvBuf c1) bs") (simp_all add: tcp_data_def)
  obtain z where "reader m (rcvBuf c1) u = Some z"
    using assms c1 m by (cases "reader m (rcvBuf c1) u") (simp_all add: tcp_data_def)
  with assms c1 m have "peerAddr c' = peerAddr c1" by (cases z) (auto simp: tcp_data_def)
  ultimately show ?thesis by (auto simp: refresh_rcvBuf_def split: if_splits)
qed

lemma conn_round:
  assumes "conn_ok src left (Suc n) i c" and "fits_room c bs"
    and dec: "decode_stream next_frame (left @ bs) = (vs, rest, True)"
    and run: "fold_res (\<lambda>v u. dispatch d (v_cmd v) (v, src) u) vs u = Inr u'"
  obtains c' where "tcp_data (flnp_reader d src) c u bs = Some (Inr (c', u'))" and "conn_ok src rest n i c'"
proof -
  from assms(1) have c: "valid (store c) (rcvBuf c)" "readable (store c) (rcvBuf c) = left"
    "new_TcpSource i c = src" "vector_size c + Suc n * 32767 \<le> max_vec" by (simp_all add: conn_ok_def)
  obtain c1 where c1: "refresh_rcvBuf c = Inr c1" using refresh_valid [OF c(1)] by blast
  with assms(2) have fits: "length bs \<le> writtableSize (store c1) (rcvBuf c1)" by simp
  have size: "vector_size c + 32767 \<le> max_vec" using c(4) by simp
  have r: "flnp_reader d src = flnp.reading d src" by (simp add: flnp_dispatch_def on_views_def)
  from dec c(2) have dec': "decode_stream next_frame (readable (store c) (rcvBuf c) @ bs) = (vs, rest, True)"
    by simp
  show thesis
  proof (cases rule: flnp.tcp_data_round [OF c(1) c1 fits dec' size, of d src u])
    case (1 e)
    with run show ?thesis by simp
  next
    case (2 c2 u2)
    have "peerAddr c2 = peerAddr c" by (rule tcp_data_peer [OF 2(2)])
    with 2 c(3,4) flnp.decode_stream_rest [OF dec] have "conn_ok src rest n i c2"
      by (simp add: conn_ok_def new_TcpSource_def)
    with 2 run show ?thesis by (intro that [of c2]) (simp_all add: r)
  qed
qed

lemma service_read_ok:
  assumes ok: "service_ok src left (Suc n) s" and i: "i < length (sv_conns s)" "fits_room (sv_conns s ! i) bs"
    and dec: "decode_stream next_frame (left i @ bs) = (vs, rest, True)" and ctl: "epoll_documented ctl"
  obtains s' where "service_read hb parse i bs now s = Some (Inr s')"
    and "run_sm ctl (beats hb parse (src i) now vs) (sv_manager s) = Inr (sv_manager s')"
    and "service_ok src (left(i := rest)) n s'" and "length (sv_conns s') = length (sv_conns s)"
proof -
  let ?c = "sv_conns s ! i" and ?es = "beats hb parse (src i) now vs"
  from ok i(1) have c: "conn_ok (src i) (left i) (Suc n) i ?c" and t: "timed_ok (sv_manager s)"
    by (simp_all add: service_ok_def)
  from run_sm_refines [OF ctl t, of ?es] obtain m' where m': "run_sm ctl ?es (sv_manager s) = Inr m'" "timed_ok m'"
    by blast
  from m'(1) have "fold_res (\<lambda>v u. dispatch (service_dispatcher hb parse now) (v_cmd v) (v, src i) u) vs (sv_manager s)
      = Inr m'" using handlers_are_beats [of hb parse now "src i" vs "sv_manager s"] by (rule trans [rotated])
  from conn_round [OF c i(2) dec this] obtain c' where
    c': "tcp_data (flnp_reader (service_dispatcher hb parse now) (src i)) ?c (sv_manager s) bs = Some (Inr (c', m'))"
    "conn_ok (src i) rest n i c'" .
  let ?s = "\<lparr>sv_manager = m', sv_conns = (sv_conns s)[i := c']\<rparr>"
  have "new_TcpSource i ?c = src i" using c by (simp add: conn_ok_def)
  with c'(1) have "service_read hb parse i bs now s = Some (Inr ?s)" by (simp add: service_read_def Let_def)
  moreover have "service_ok src (left(i := rest)) n ?s"
    using ok m'(2) c'(2) i(1)
    by (auto simp: service_ok_def nth_list_update intro: conn_ok_less)
  ultimately show thesis using m'(1) by (intro that [of ?s]) simp_all
qed

lemma on_manager_ok:
  assumes "service_ok src left (Suc n) s" and "run_sm ctl [e] (sv_manager s) = f (sv_manager s)"
    and "epoll_documented ctl"
  obtains s' where "on_manager f s = Inr s'" and "run_sm ctl [e] (sv_manager s) = Inr (sv_manager s')"
    and "service_ok src left n s'"
proof -
  from assms(1) have t: "timed_ok (sv_manager s)" by (simp add: service_ok_def)
  from run_sm_refines [OF assms(3) t, of "[e]"] obtain m where
    m: "run_sm ctl [e] (sv_manager s) = Inr m" "timed_ok m" by blast
  from assms(2) m(1) have "f (sv_manager s) = Inr m" by simp
  then have "on_manager f s = Inr (s\<lparr>sv_manager := m\<rparr>)" by (simp add: on_manager_def)
  moreover have "service_ok src left n (s\<lparr>sv_manager := m\<rparr>)"
    using assms(1) m(2) by (auto simp: service_ok_def intro: conn_ok_less)
  ultimately show thesis using m(1) by (intro that [of "s\<lparr>sv_manager := m\<rparr>"]) simp_all
qed

text \<open>A run of the service is a run of the manager on the events it amounts to, and never fails.\<close>

lemma service_refines:
  assumes "epoll_documented ctl"
  shows "service_ok src left (length es) s \<Longrightarrow> well_framed left es \<Longrightarrow> service_in_room ctl hb parse es s \<Longrightarrow>
    \<exists>s'. run_service ctl hb parse es s = Some (Inr s')
      \<and> run_sm ctl (manager_events hb parse src left es) (sv_manager s) = Inr (sv_manager s')"
proof (induction es arbitrary: s left)
  case Nil
  then show ?case by simp
next
  case (Cons e es)
  have ok: "service_ok src left (Suc (length es)) s" using Cons.prems(1) by simp
  have go: ?case
    if step: "service_step ctl hb parse e s = Some (Inr s1)" and ok1: "service_ok src left' (length es) s1"
      and ev: "manager_events hb parse src left (e # es) = fs @ manager_events hb parse src left' es"
        "run_sm ctl fs (sv_manager s) = Inr (sv_manager s1)" and wf: "well_framed left' es"
    for s1 left' fs
  proof -
    from Cons.prems(3) step have "service_in_room ctl hb parse es s1" by simp
    from Cons.IH [OF ok1 wf this] obtain s' where "run_service ctl hb parse es s1 = Some (Inr s')"
      "run_sm ctl (manager_events hb parse src left' es) (sv_manager s1) = Inr (sv_manager s')" by blast
    with step ev(2) show ?thesis unfolding ev(1) by (simp add: run_sm_append)
  qed
  have manager: ?case if "run_sm ctl [x] (sv_manager s) = f (sv_manager s)" "well_framed left es"
    "service_step ctl hb parse e s = Some (on_manager f s)"
    "manager_events hb parse src left (e # es) = x # manager_events hb parse src left es" for f x
    by (rule on_manager_ok [where f = f, OF ok that(1) assms]) (intro go [of _ left "[x]"], use that in simp_all)
  show ?case
  proof (cases e)
    case (Bytes i bs now)
    obtain vs rest fine where dec: "decode_stream next_frame (left i @ bs) = (vs, rest, fine)"
      by (metis prod_cases3)
    with Cons.prems(2) Bytes have d: "decode_stream next_frame (left i @ bs) = (vs, rest, True)"
      and wf: "well_framed (left(i := rest)) es" by simp_all
    have i: "i < length (sv_conns s)" "fits_room (sv_conns s ! i) bs"
      using Cons.prems(3) Bytes by (simp_all del: fits_room.simps)
    obtain s1 where "service_read hb parse i bs now s = Some (Inr s1)"
      "run_sm ctl (beats hb parse (src i) now vs) (sv_manager s) = Inr (sv_manager s1)"
      "service_ok src (left(i := rest)) (length es) s1"
      by (rule service_read_ok [OF ok i d assms])
    with d Bytes show ?thesis by (intro go [OF _ _ _ _ wf]) simp_all
  next
    case (Timer ev r)
    from manager [where f = "timer_event ev r" and x = "Ready ev r"] Timer Cons.prems(2) show ?thesis by (simp add: run_sm_done)
  next
    case Begin_work
    from manager [where f = "sm_startWork ctl" and x = Start] Begin_work Cons.prems(2) show ?thesis by (simp add: run_sm_done)
  next
    case End_work
    from manager [where f = "sm_stopWork ctl" and x = Stop] End_work Cons.prems(2) show ?thesis by (simp add: run_sm_done)
  qed
qed

section \<open>Sessions of the service\<close>

text \<open>The bytes of each connection that the reads of a run leave over, whether the timer is attached
  after it, and the events that are ticks.\<close>

fun left_after :: "(nat \<Rightarrow> byte list) \<Rightarrow> service_event list \<Rightarrow> nat \<Rightarrow> byte list" where
  "left_after left [] = left"
| "left_after left (Bytes i bs now # es) =
     left_after (left(i := fst (snd (decode_stream next_frame (left i @ bs))))) es"
| "left_after left (_ # es) = left_after left es"

fun service_working :: "bool \<Rightarrow> service_event list \<Rightarrow> bool" where
  "service_working w [] = w"
| "service_working w (Begin_work # es) = service_working True es"
| "service_working w (End_work # es) = service_working False es"
| "service_working w (_ # es) = service_working w es"

fun service_wakeups :: "bool \<Rightarrow> service_event list \<Rightarrow> nat" where
  "service_wakeups w [] = 0"
| "service_wakeups w (Timer ev r # es) =
     (if w \<and> ev AND EVENT_READ \<noteq> 0 then 1 else 0) + service_wakeups w es"
| "service_wakeups w (Begin_work # es) = service_wakeups True es"
| "service_wakeups w (End_work # es) = service_wakeups False es"
| "service_wakeups w (Bytes i bs now # es) = service_wakeups w es"

lemma manager_events_append:
  "manager_events hb parse src left (es @ fs)
    = manager_events hb parse src left es @ manager_events hb parse src (left_after left es) fs"
  by (induction left es rule: left_after.induct) (simp_all add: case_prod_unfold Let_def del: fun_upd_apply)

lemma left_after_append: "left_after left (es @ fs) = left_after (left_after left es) fs"
  by (induction left es rule: left_after.induct) (simp_all del: fun_upd_apply)

text \<open>Heartbeats neither attach nor detach the timer, nor are they ticks.\<close>

fun sm_working :: "bool \<Rightarrow> 'c sm_event list \<Rightarrow> bool" where
  "sm_working w [] = w"
| "sm_working w (Start # es) = sm_working True es"
| "sm_working w (Stop # es) = sm_working False es"
| "sm_working w (_ # es) = sm_working w es"

lemma sm_working_append: "sm_working w (es @ fs) = sm_working (sm_working w es) fs"
  by (induction w es rule: sm_working.induct) simp_all

lemma beats_working: "\<forall>b \<in> set es. \<exists>src uin sk now. b = Beat src uin sk now \<Longrightarrow> sm_working w es = w"
  by (induction w es rule: sm_working.induct) auto

lemma beats_are_beats [simp]:
  "sm_working w (beats hb parse src now vs @ es) = sm_working w es"
  "wakeups w (beats hb parse src now vs @ es) = wakeups w es"
  unfolding beats_def by (induction vs) auto

lemma sm_working_events: "sm_working w (manager_events hb parse src left es) = service_working w es"
  by (induction left es arbitrary: w rule: left_after.induct)
    (simp_all add: case_prod_unfold Let_def del: fun_upd_apply)

lemma wakeups_events: "wakeups w (manager_events hb parse src left es) = service_wakeups w es"
  by (induction left es arbitrary: w rule: left_after.induct)
    (simp_all add: case_prod_unfold Let_def del: fun_upd_apply)

lemma run_sm_working:
  assumes "epoll_documented ctl"
  shows "timed_ok s \<Longrightarrow> run_sm ctl es s = Inr s' \<Longrightarrow> working s' = sm_working (working s) es"
proof (induction es arbitrary: s)
  case (Cons e es)
  from run_sm_refines [OF assms Cons.prems(1), of "[e]"] obtain s1 where
    s1: "run_sm ctl [e] s = Inr s1" "timed_ok s1" by blast
  then have rest: "run_sm ctl es s1 = Inr s'"
    using Cons.prems(2) run_sm_append [of ctl "[e]" es s] by simp
  have "working s1 = sm_working (working s) [e]"
  proof (cases e)
    case (Ready ev r)
    from sm_handleRead_eq [OF Cons.prems(1), of r] s1(1) Ready show ?thesis
      by (auto simp: timer_event_eq [OF Cons.prems(1)] split: if_splits)
  next
    case Start
    with sm_startWork_ok [OF assms Cons.prems(1)] s1(1) show ?thesis by auto
  next
    case Stop
    with sm_stopWork_ok [OF assms Cons.prems(1)] s1(1) show ?thesis by auto
  qed (use s1(1) in \<open>auto simp: sm_heartbeat_def\<close>)
  with Cons.IH [OF s1(2) rest] show ?case by (cases e) simp_all
qed simp

text \<open>The last heartbeat of a read decides.\<close>

lemma last_beat:
  assumes "hb \<in> v_cmd ` set vs"
  obtains es uin sk where "beats hb parse src now vs = es @ [Beat src uin sk now]"
proof (cases "beats hb parse src now vs" rule: rev_cases)
  case Nil
  with assms show thesis by (auto simp: beats_def filter_empty_conv)
next
  case (snoc es b)
  then have "b \<in> set (beats hb parse src now vs)" by simp
  then obtain uin sk where "b = Beat src uin sk now" by (auto simp: beats_def)
  with snoc show thesis by (intro that [of es uin sk]) simp
qed

lemma last_beat_counts:
  assumes "epoll_documented ctl" and "timed_ok s"
    and "run_sm ctl (es @ beats hb parse src now vs @ fs) s = Inr s'"
    and "hb \<in> v_cmd ` set vs" and "\<not> beats_of (genConnectId src) fs"
  shows "findSessionByCid (genConnectId src) (tm_manager s') \<noteq> None
    \<longleftrightarrow> wakeups (sm_working (working s) es) fs \<le> idle_ticks (tm_manager s)"
proof -
  obtain bs uin sk where b: "beats hb parse src now vs = bs @ [Beat src uin sk now]"
    by (rule last_beat [OF assms(4)])
  with assms(3) obtain s1 where s1: "run_sm ctl (es @ bs) s = Inr s1"
    and rest: "bind_res (sm_heartbeat src uin sk now s1) (run_sm ctl fs) = Inr s'"
    by (auto simp: run_sm_append)
  note keep = run_sm_keeps [OF assms(1,2) s1]
  from beat_then_silence [OF assms(1) keep(1) assms(5), of uin sk now] rest
  have f: "findSessionByCid (genConnectId src) (tm_manager s') \<noteq> None
      \<longleftrightarrow> wakeups (working s1) fs \<le> idle_ticks (tm_manager s1)" by (auto split: if_splits)
  have "working s1 = sm_working (working s) (es @ bs)" by (rule run_sm_working [OF assms(1,2) s1])
  moreover have "set bs \<subseteq> set (beats hb parse src now vs)" using b by auto
  then have "sm_working w bs = w" for w
    by (intro beats_working) (auto simp: beats_def)
  ultimately show ?thesis using f keep(2) by (simp add: sm_working_append)
qed

lemma fresh_service_ok:
  assumes "timed_ok m" and "\<forall>c \<in> set cs. valid (store c) (rcvBuf c) \<and> readable (store c) (rcvBuf c) = []
      \<and> vector_size c + n * 32767 \<le> max_vec"
  shows "service_ok (\<lambda>i. new_TcpSource i (cs ! i)) (\<lambda>_. []) n \<lparr>sv_manager = m, sv_conns = cs\<rparr>"
proof -
  have "next_frame [] = Need_more" by (simp add: next_frame_def)
  then have "decode_stream next_frame [] = ([], [], True)" by (simp add: decode_stream_simps)
  with assms show ?thesis by (simp add: service_ok_def conn_ok_def)
qed

section \<open>Properties\<close>

text \<open>C5: The whole service. A manager is made, connections with empty buffers are there, and the loop reads
  from them and serves the timer in any order, while the work is started and stopped. Reads may cut
  the packets anywhere, as long as they fit the free room of the connection's buffer; no peer
  sends a malformed packet. Then nothing fails, and a peer whose heartbeat is completed by some read
  and who completes no other after it has a session at the end exactly if the attached timer
  has woken the loop at most \<open>\<lceil>idle / 100\<rceil>\<close> times since that read.\<close>

theorem service_expires_sessions:
  fixes cs :: "connection list" and hb :: u32 and parse :: "view \<Rightarrow> u32 \<times> u32"
  defines "src \<equiv> \<lambda>i. new_TcpSource i (cs ! i)"
  assumes ctl: "epoll_documented ctl" and "fd \<ge> 0" and "k fd = None"
    and new: "new_timed_manager ctl k fd idle = Inr s0"
    and es: "es = before @ Bytes i bs now # after"
    and cs: "\<forall>c \<in> set cs. valid (store c) (rcvBuf c) \<and> readable (store c) (rcvBuf c) = []
      \<and> vector_size c + length es * 32767 \<le> max_vec"
    and framed: "well_framed (\<lambda>_. []) es"
    and room: "service_in_room ctl hb parse es \<lparr>sv_manager = sm_setRemoveHandler True s0, sv_conns = cs\<rparr>"
    and beat: "hb \<in> v_cmd ` set (fst (decode_stream next_frame (left_after (\<lambda>_. []) before i @ bs)))"
    and silent: "\<not> beats_of (genConnectId (src i))
      (manager_events hb parse src (left_after (\<lambda>_. []) (before @ [Bytes i bs now])) after)"
  shows "\<exists>s. run_service ctl hb parse es \<lparr>sv_manager = sm_setRemoveHandler True s0, sv_conns = cs\<rparr> = Some (Inr s)
    \<and> (findSessionByCid (genConnectId (src i)) (tm_manager (sv_manager s)) \<noteq> None
        \<longleftrightarrow> service_wakeups (service_working False before) after \<le> (unat idle + 99) div 100)"
proof -
  let ?m = "sm_setRemoveHandler True s0" and ?left = "left_after (\<lambda>_. []) before"
  note N = new_timed_ok [OF ctl assms(3,4) new]
  from service_refines [OF ctl fresh_service_ok [OF N(1) cs] framed room] obtain s where
    s: "run_service ctl hb parse es \<lparr>sv_manager = ?m, sv_conns = cs\<rparr> = Some (Inr s)"
    "run_sm ctl (manager_events hb parse src (\<lambda>_. []) es) ?m = Inr (sv_manager s)"
    unfolding src_def by auto
  obtain vs rest fine where dec: "decode_stream next_frame (?left i @ bs) = (vs, rest, fine)"
    by (metis prod_cases3)
  let ?fs = "manager_events hb parse src (?left(i := rest)) after"
  have last: "left_after (\<lambda>_. []) (before @ [Bytes i bs now]) = ?left(i := rest)" for now
    using dec left_after_append [of "\<lambda>_. []" before "[Bytes i bs now]"] by simp
  have "run_sm ctl (manager_events hb parse src (\<lambda>_. []) before @ beats hb parse (src i) now vs @ ?fs) ?m
      = Inr (sv_manager s)"
    using s(2) dec by (simp add: es manager_events_append)
  moreover have "hb \<in> v_cmd ` set vs" using beat dec by simp
  moreover have "\<not> beats_of (genConnectId (src i)) ?fs" using silent unfolding last .
  ultimately have "findSessionByCid (genConnectId (src i)) (tm_manager (sv_manager s)) \<noteq> None
    \<longleftrightarrow> wakeups (sm_working (working ?m) (manager_events hb parse src (\<lambda>_. []) before)) ?fs
      \<le> idle_ticks (tm_manager ?m)"
    by (rule last_beat_counts [OF ctl N(1)])
  moreover have "working ?m = False" using N(2) by (simp add: sm_setRemoveHandler_def)
  ultimately show ?thesis using s(1) N(3) by (simp add: sm_working_events wakeups_events)
qed

lemma no_reads_in_room: "\<forall>i bs now. Bytes i bs now \<notin> set es \<Longrightarrow> service_in_room ctl hb parse es s"
  by (induction es arbitrary: s) (auto split: option.split sum.split)

lemma on_manager_conns: "on_manager f s = Inr s' \<Longrightarrow> sv_conns s' = sv_conns s"
  by (auto simp: on_manager_def)

theorem service_expires_sessions_witness:
  "\<exists>s0 s. new_timed_manager sample_ctl (\<lambda>_. None) 7 150 = Inr s0
    \<and> run_service sample_ctl 42 (\<lambda>v. (7, 1)) [Begin_work, Bytes 0 (packet_of demo_view) 0, Timer EPOLLIN (8, 1)]
        \<lparr>sv_manager = sm_setRemoveHandler True s0, sv_conns = [demo_connection]\<rparr> = Some (Inr s)
    \<and> findSessionByCid (genConnectId (new_TcpSource (0::nat) demo_connection)) (tm_manager (sv_manager s)) \<noteq> None"
proof -
  let ?bs = "packet_of demo_view"
  let ?es = "[Begin_work, Bytes 0 ?bs 0, Timer EPOLLIN (8, 1)]"
  obtain s0 :: "nat timed_manager" where s0: "new_timed_manager sample_ctl (\<lambda>_. None) 7 150 = Inr s0"
    using new_timed_manager_total by blast
  let ?s = "\<lparr>sv_manager = sm_setRemoveHandler True s0, sv_conns = [demo_connection]\<rparr>"
  have fd: "(7::int) \<ge> 0" "(\<lambda>_. None :: u32 option) (7::int) = None" by simp_all
  have es: "?es = [Begin_work] @ Bytes 0 ?bs 0 # [Timer EPOLLIN (8, 1)]" by simp
  have none: "next_frame [] = Need_more" by (simp add: next_frame_def)
  have s: "\<forall>v \<in> set [demo_view]. sendable v" by (simp add: proto_of_def)
  from decode_stream_packets [OF s none] have dec: "decode_stream next_frame ?bs = ([demo_view], [], True)"
    by (simp del: packet_of.simps)
  have cs: "\<forall>c \<in> set [demo_connection]. valid (store c) (rcvBuf c) \<and> readable (store c) (rcvBuf c) = []
      \<and> vector_size c + length ?es * 32767 \<le> max_vec"
    using demo_connection_valid
    by (simp add: demo_fields readable_def vector_size_def predMsgLen_def max_vec_def del: packet_of.simps)
  have wf: "well_framed (\<lambda>_. []) ?es" using dec by (simp del: packet_of.simps)
  have "length ?bs = 14" by (simp add: packet_bytes_def)
  then have fits: "fits_room demo_connection ?bs"
    by (simp add: demo_refresh demo_room del: packet_of.simps split: option.split sum.split)
  have room: "service_in_room sample_ctl 42 (\<lambda>v. (7, 1)) ?es ?s"
    using fits no_reads_in_room [of "[Timer EPOLLIN (8, 1)]"]
    by (auto simp del: packet_of.simps fits_room.simps dest!: on_manager_conns split: option.split sum.split)
  have beat: "42 \<in> v_cmd ` set (fst (decode_stream next_frame (left_after (\<lambda>_. []) [Begin_work] 0 @ ?bs)))"
    using dec by (simp del: packet_of.simps)
  have silent: "\<not> beats_of (genConnectId (new_TcpSource 0 ([demo_connection] ! 0)))
      (manager_events 42 (\<lambda>v. (7, 1)) (\<lambda>i. new_TcpSource i ([demo_connection] ! i))
        (left_after (\<lambda>_. []) ([Begin_work] @ [Bytes 0 ?bs 0])) [Timer EPOLLIN (8, 1)])"
    by (simp add: beats_of_def del: packet_of.simps)
  from service_expires_sessions [OF sample_ctl_documented fd s0 es cs wf room beat silent] s0
  show ?thesis by (auto simp del: packet_of.simps run_service.simps split: if_splits)
qed

end
