(* ===== verification/WheelTasks.thy ===== *)
theory WheelTasks
  imports Session "HOL-Library.Multiset"
begin

text \<open>
  Tasks that run while their bucket is being visited: \<open>expireTimeouts\<close> and \<open>tick\<close>
  (\<^verbatim>\<open>HashedWheelTimer.cpp\<close>, \<^verbatim>\<open>include/HashedWheelTimer.hpp\<close>) with the task called inside the
  loop over the bucket, where it may itself add and cancel timeouts. What a task does to the
  wheel and to the rest of the state is a parameter. The loop goes on to the end of the bucket as it
  is then, so it is a \<open>partial_function (option)\<close>: \<open>None\<close> is a visit that does not end.
\<close>

section \<open>The loop\<close>

type_synonym ('k, 's) run_task = "nat \<Rightarrow> 'k \<Rightarrow> 'k wheel \<times> 's \<Rightarrow> ('k wheel \<times> 's) res"

text \<open>\<open>HashedWheelTimeout::expire\<close>: the state changes before the task is called.\<close>

definition expire_run :: "('k, 's) run_task \<Rightarrow> nat \<Rightarrow> 'k wheel \<times> 's \<Rightarrow> ('k wheel \<times> 's) res" where
  "expire_run run a = (\<lambda>(w, s). case expire (timeouts w ! a) of
     (t, ks) \<Rightarrow> let w1 = w\<lparr>timeouts := (timeouts w)[a := t]\<rparr> in
       (case ks of [] \<Rightarrow> Inr (w1, s) | k # _ \<Rightarrow> run a k (w1, s)))"

definition erase_at :: "nat \<Rightarrow> nat \<Rightarrow> 'k wheel \<Rightarrow> 'k wheel" where
  "erase_at i j w =
     w\<lparr>buckets := (buckets w)[i := take j (buckets w ! i) @ drop (Suc j) (buckets w ! i)]\<rparr>"

text \<open>
  The body of the loop, with the next position of the iterator. It is a position \<open>j\<close> in bucket
  \<open>i\<close>: tasks only add at the end of a bucket.
\<close>

definition visit_round ::
  "('k, 's) run_task \<Rightarrow> nat \<Rightarrow> nat \<Rightarrow> 'k wheel \<times> 's \<Rightarrow> (nat \<times> 'k wheel \<times> 's) res" where
  "visit_round run i j x = (let a = buckets (fst x) ! i ! j; t = timeouts (fst x) ! a in
     if remainingRounds t = 0 then bind_res (expire_run run a x) (\<lambda>(w, s). Inr (j, erase_at i j w, s))
     else if isCancelled t then Inr (j, erase_at i j (fst x), snd x)
     else bind_res (decreaseRounds t)
       (\<lambda>t'. Inr (Suc j, (fst x)\<lparr>timeouts := (timeouts (fst x))[a := t']\<rparr>, snd x)))"

partial_function (option) expireTimeouts_run ::
  "('k, 's) run_task \<Rightarrow> nat \<Rightarrow> nat \<Rightarrow> 'k wheel \<times> 's \<Rightarrow> ('k wheel \<times> 's) res option" where
  "expireTimeouts_run run i j x =
     (if length (buckets (fst x) ! i) \<le> j then Some (Inr x)
      else case visit_round run i j x of
          Inl e \<Rightarrow> Some (Inl e)
        | Inr y \<Rightarrow> expireTimeouts_run run i (fst y) (snd y))"

definition tick_run :: "('k, 's) run_task \<Rightarrow> 'k wheel \<times> 's \<Rightarrow> ('k wheel \<times> 's) res option" where
  "tick_run run x = (let index = unat (ticked (fst x) AND ucast (wheel_mask (fst x))) in
     if index < length (buckets (fst x))
     then map_option (\<lambda>r. bind_res r (\<lambda>(w, s). Inr (w\<lparr>ticked := ticked w + 1\<rparr>, s)))
       (expireTimeouts_run run index 0 x)
     else Some (Inl OutOfBounds))"

fun ticks_run :: "('k, 's) run_task \<Rightarrow> nat \<Rightarrow> 'k wheel \<times> 's \<Rightarrow> ('k wheel \<times> 's) res option" where
  "ticks_run run 0 x = Some (Inr x)"
| "ticks_run run (Suc n) x = (case tick_run run x of
     None \<Rightarrow> None | Some (Inl e) \<Rightarrow> Some (Inl e) | Some (Inr y) \<Rightarrow> ticks_run run n y)"

text \<open>One round of the loop, as equations.\<close>

lemma visit_end: "length (buckets w ! i) \<le> j \<Longrightarrow> expireTimeouts_run run i j (w, s) = Some (Inr (w, s))"
  by (subst expireTimeouts_run.simps) simp

lemma visit_next:
  "j < length (buckets w ! i) \<Longrightarrow> expireTimeouts_run run i j (w, s) = (case visit_round run i j (w, s) of
      Inl e \<Rightarrow> Some (Inl e) | Inr y \<Rightarrow> expireTimeouts_run run i (fst y) (snd y))"
  by (subst expireTimeouts_run.simps) simp

lemma round_fire:
  assumes "a = buckets w ! i ! j" and "remainingRounds (timeouts w ! a) = 0"
  shows "visit_round run i j (w, s) = bind_res (expire_run run a (w, s)) (\<lambda>(w, s). Inr (j, erase_at i j w, s))"
  using assms by (simp add: visit_round_def Let_def)

lemma round_cancelled:
  assumes "a = buckets w ! i ! j" and "remainingRounds (timeouts w ! a) \<noteq> 0" and "isCancelled (timeouts w ! a)"
  shows "visit_round run i j (w, s) = Inr (j, erase_at i j w, s)"
  using assms by (simp add: visit_round_def Let_def)

lemma round_stays:
  assumes "a = buckets w ! i ! j" and "stays (timeouts w ! a)"
  shows "visit_round run i j (w, s) = Inr (Suc j, w\<lparr>timeouts := (timeouts w)[a := visit (timeouts w ! a)]\<rparr>, s)"
  using assms by (simp add: visit_round_def Let_def stays_def visit_def decreaseRounds_eq)

section \<open>Tasks that leave the wheel alone\<close>

text \<open>
  For them the visit is the one of \<open>tick\<close>, which hands out the tasks to be run, followed by
  running them.
\<close>

fun run_fired :: "(nat \<Rightarrow> 'k \<Rightarrow> 's \<Rightarrow> 's res) \<Rightarrow> (nat \<times> 'k) list \<Rightarrow> 's \<Rightarrow> 's res" where
  "run_fired f [] s = Inr s"
| "run_fired f ((a, k) # fs) s = bind_res (f a k s) (run_fired f fs)"

definition beside :: "(nat \<Rightarrow> 'k \<Rightarrow> 's \<Rightarrow> 's res) \<Rightarrow> ('k, 's) run_task" where
  "beside f a k = (\<lambda>(w, s). bind_res (f a k s) (\<lambda>s'. Inr (w, s')))"

lemma fires_cases: "fires t = [] \<or> (\<exists>k. fires t = [k])"
  by (auto simp: fires_def expire_def split: task.split)

lemma expire_fires: "remainingRounds t = 0 \<Longrightarrow> expire t = (visit t, fires t)"
  by (simp add: visit_def fires_def)

text \<open>Visiting one timeout leaves what the others do alone.\<close>

lemma others_same:
  assumes "a \<notin> set r"
  shows "map (\<lambda>b. map (Pair b) (fires (st[a := t] ! b))) r = map (\<lambda>b. map (Pair b) (fires (st ! b))) r"
    and "filter (\<lambda>b. stays (st[a := t] ! b)) r = filter (\<lambda>b. stays (st ! b)) r"
proof -
  have "st[a := t] ! b = st ! b" if "b \<in> set r" for b
    using that assms by (intro nth_list_update_neq) blast
  then show "map (\<lambda>b. map (Pair b) (fires (st[a := t] ! b))) r = map (\<lambda>b. map (Pair b) (fires (st ! b))) r"
    and "filter (\<lambda>b. stays (st[a := t] ! b)) r = filter (\<lambda>b. stays (st ! b)) r"
    by (auto intro!: map_cong filter_cong)
qed

text \<open>What is left of the visit at position \<open>length p\<close>, with \<open>p\<close> done and \<open>r\<close> to come.\<close>

lemma visit_beside:
  "distinct r \<Longrightarrow> \<forall>a \<in> set r. a < length (timeouts w) \<Longrightarrow> i < length (buckets w) \<Longrightarrow> buckets w ! i = p @ r \<Longrightarrow>
    expireTimeouts_run (beside f) i (length p) (w, s)
    = Some (bind_res (run_fired f (concat (map (\<lambda>a. map (Pair a) (fires (timeouts w ! a))) r)) s)
        (\<lambda>s'. Inr (w\<lparr>timeouts := visit_all (timeouts w) r,
          buckets := (buckets w)[i := p @ filter (\<lambda>a. stays (timeouts w ! a)) r]\<rparr>, s')))"
proof (induction r arbitrary: w p s)
  case Nil
  have "visit_all (timeouts w) [] = timeouts w" by (simp add: visit_all_def map_nth)
  moreover have "(buckets w)[i := p] = buckets w" using Nil(4) by (metis append_Nil2 list_update_id)
  ultimately show ?case using Nil by (simp add: visit_end)
next
  case (Cons a r)
  let ?t = "timeouts w ! a" and ?st = "(timeouts w)[a := visit (timeouts w ! a)]"
  have a: "a \<notin> set r" "a < length (timeouts w)" and d: "distinct r" "\<forall>b \<in> set r. b < length ?st"
    using Cons.prems by auto
  have j: "length p < length (buckets w ! i)" "a = buckets w ! i ! length p" using Cons.prems(4) by auto
  note f = others_same [OF a(1), of "timeouts w" "visit ?t"]
  have v: "visit_all ?st r = visit_all (timeouts w) (a # r)" by (rule visit_all_Cons [OF a(1)])
  let ?gone = "erase_at i (length p) (w\<lparr>timeouts := ?st\<rparr>)"
  have gone: "expireTimeouts_run (beside f) i (length p) (?gone, s')
      = Some (bind_res (run_fired f (concat (map (\<lambda>b. map (Pair b) (fires (timeouts w ! b))) r)) s')
        (\<lambda>s''. Inr (w\<lparr>timeouts := visit_all (timeouts w) (a # r),
          buckets := (buckets w)[i := p @ filter (\<lambda>b. stays (timeouts w ! b)) r]\<rparr>, s'')))" for s'
    using Cons.IH [of ?gone p s'] Cons.prems(3,4) d f v by (simp add: erase_at_def)
  consider "remainingRounds ?t = 0" | "remainingRounds ?t \<noteq> 0" "isCancelled ?t" | "stays ?t"
    by (auto simp: stays_def)
  then show ?case
  proof cases
    case 1
    then have "expire_run (beside f) a (w, s) = (case fires ?t of [] \<Rightarrow> Inr (w\<lparr>timeouts := ?st\<rparr>, s)
        | k # _ \<Rightarrow> bind_res (f a k s) (\<lambda>s'. Inr (w\<lparr>timeouts := ?st\<rparr>, s')))"
      by (simp add: expire_run_def expire_fires beside_def Let_def)
    moreover have "\<not> stays ?t" using 1 by (simp add: stays_def)
    ultimately show ?thesis using visit_next [OF j(1), of "beside f" s] round_fire [OF j(2) 1, of "beside f" s] gone fires_cases [of ?t]
      by (cases "f a (hd (fires ?t)) s") auto
  next
    case 2
    then have "?st = timeouts w" "fires ?t = []" "\<not> stays ?t" by (simp_all add: visit_def fires_def stays_def)
    with visit_next [OF j(1), of "beside f" s] round_cancelled [OF j(2) 2, of "beside f" s] gone [of s] show ?thesis by simp
  next
    case 3
    then have "fires ?t = []" by (simp add: stays_def fires_def)
    with 3 visit_next [OF j(1), of "beside f" s] round_stays [OF j(2) 3, of "beside f" s] Cons.IH [of "w\<lparr>timeouts := ?st\<rparr>" "p @ [a]" s] Cons.prems(3,4) d f v
    show ?thesis by simp
  qed
qed

lemma tick_beside:
  assumes "wheel_ok w"
  shows "tick_run (beside f) (w, s) = Some (bind_res (run_fired f (tick_fires w) s) (\<lambda>s'. Inr (ticked_wheel w, s')))"
proof -
  note h = hand_bound [OF assms]
  have "expireTimeouts_run (beside f) (hand w) 0 (w, s) = Some (bind_res (run_fired f (tick_fires w) s)
      (\<lambda>s'. Inr (w\<lparr>timeouts := visit_all (timeouts w) (buckets w ! hand w),
        buckets := (buckets w)[hand w := filter (\<lambda>a. stays (timeouts w ! a)) (buckets w ! hand w)]\<rparr>, s')))"
    using visit_beside [of "buckets w ! hand w" w "hand w" "[]" f s] wheel_bucket [OF assms h] h
    by (simp add: tick_fires_def)
  then show ?thesis using h
    by (cases "run_fired f (tick_fires w) s") (simp_all add: tick_run_def ticked_wheel_def Let_def flip: hand_def)
qed

section \<open>Periodic tasks\<close>

text \<open>A task that arms itself again, in \<open>d k\<close> milliseconds, and logs that it ran.\<close>

definition rearm :: "('k \<Rightarrow> u64) \<Rightarrow> ('k, 'k list) run_task" where
  "rearm d a k = (\<lambda>(w, log). bind_res (addTimeout w (Run k) (d k)) (\<lambda>(w', _). Inr (w', log @ [k])))"

definition ticks_of :: "'k wheel \<Rightarrow> u64 \<Rightarrow> u32" where
  "ticks_of w ms = ucast ((ms + ucast (msPerTick w) - 1) div ucast (msPerTick w))"

lemma convert_ticks: "msPerTick w \<noteq> 0 \<Longrightarrow> convertExpireMsToTicks w ms = Inr (ticks_of w ms)"
  by (simp add: convertExpireMsToTicks_def ticks_of_def)

text \<open>
  The wheel as it will be after the tick if no task runs any more: the rest of the bucket visited,
  and the tasks that are still to run.
\<close>

definition ahead :: "'k wheel \<Rightarrow> nat \<Rightarrow> 'k wheel" where
  "ahead w j = (let b = buckets w ! hand w in
     w\<lparr>timeouts := visit_all (timeouts w) (drop j b),
       buckets := (buckets w)[hand w := take j b @ filter (\<lambda>a. stays (timeouts w ! a)) (drop j b)],
       ticked := ticked w + 1\<rparr>)"

definition to_fire :: "'k wheel \<Rightarrow> nat \<Rightarrow> (nat \<times> 'k) list" where
  "to_fire w j = concat (map (\<lambda>a. map (Pair a) (fires (timeouts w ! a))) (drop j (buckets w ! hand w)))"

lemma ahead_start: "ahead w 0 = ticked_wheel w" "to_fire w 0 = tick_fires w"
  by (simp_all add: ahead_def ticked_wheel_def to_fire_def tick_fires_def Let_def)

text \<open>What a task that arms itself for \<open>t\<close> ticks during the visit comes to after it.\<close>

definition late_added :: "'k \<Rightarrow> u32 \<Rightarrow> 'k wheel \<Rightarrow> 'k wheel" where
  "late_added k t v = (let i = (unat t - 1 + hand v) mod length (buckets v) in
     v\<lparr>timeouts := timeouts v @ [(new_timeout (drop_bit (normalizeShift v) (t - 1)) (ucast t) (Run k))],
       buckets := (buckets v)[i := buckets v ! i @ [length (timeouts v)]]\<rparr>)"

lemma visit_all_append:
  assumes "\<forall>a \<in> set as. a < length st"
  shows "visit_all (st @ [t]) as = visit_all st as @ [t]"
    and "visit_all (st @ [t]) (as @ [length st]) = visit_all st as @ [visit t]"
proof -
  have "length st \<notin> set as" using assms by blast
  then show "visit_all (st @ [t]) as = visit_all st as @ [t]"
    and "visit_all (st @ [t]) (as @ [length st]) = visit_all st as @ [visit t]"
    by (auto simp: visit_all_def nth_append)
qed

text \<open>Steps of the loop that run no task change nothing of this.\<close>

lemma hand_cong: "ticked w' = ticked w \<Longrightarrow> wheel_mask w' = wheel_mask w \<Longrightarrow> hand w' = hand w"
  by (simp add: hand_def)

lemma ahead_erase:
  assumes "wheel_ok w" and "j < length (buckets w ! hand w)" and "a = buckets w ! hand w ! j" and "\<not> stays (timeouts w ! a)"
  shows "ahead (erase_at (hand w) j (w\<lparr>timeouts := (timeouts w)[a := visit (timeouts w ! a)]\<rparr>)) j = ahead w j"
    and "to_fire w j = map (Pair a) (fires (timeouts w ! a))
      @ to_fire (erase_at (hand w) j (w\<lparr>timeouts := (timeouts w)[a := visit (timeouts w ! a)]\<rparr>)) j"
proof -
  let ?b = "buckets w ! hand w" and ?st = "(timeouts w)[a := visit (timeouts w ! a)]"
  let ?w = "erase_at (hand w) j (w\<lparr>timeouts := ?st\<rparr>)"
  have h: "hand ?w = hand w" by (rule hand_cong) (simp_all add: erase_at_def)
  have b: "drop j ?b = a # drop (Suc j) ?b" using assms(2,3) by (simp add: Cons_nth_drop_Suc)
  have "distinct (drop j ?b)" using wheel_bucket(1) [OF assms(1) hand_bound [OF assms(1)]] by simp
  then have a: "a \<notin> set (drop (Suc j) ?b)" using b by simp
  have bw: "buckets ?w ! hand w = take j ?b @ drop (Suc j) ?b"
    using hand_bound [OF assms(1)] by (simp add: erase_at_def)
  then have d: "drop j (buckets ?w ! hand w) = drop (Suc j) ?b" "take j (buckets ?w ! hand w) = take j ?b"
    using assms(2) by simp_all
  note f = others_same [OF a, of "timeouts w" "visit (timeouts w ! a)"]
  have t: "timeouts ?w = ?st" "buckets ?w = (buckets w)[hand w := take j ?b @ drop (Suc j) ?b]" "ticked ?w = ticked w"
    by (simp_all add: erase_at_def)
  show "ahead ?w j = ahead w j"
    unfolding ahead_def Let_def h d t(1) visit_all_Cons [OF a] b f using assms(4) by (simp add: erase_at_def)
  show "to_fire w j = map (Pair a) (fires (timeouts w ! a)) @ to_fire ?w j"
    unfolding to_fire_def h d t(1) b list.map concat.simps f(1) ..
qed

lemma ahead_stays:
  assumes "wheel_ok w" and "j < length (buckets w ! hand w)" and "a = buckets w ! hand w ! j" and "stays (timeouts w ! a)"
  shows "ahead (w\<lparr>timeouts := (timeouts w)[a := visit (timeouts w ! a)]\<rparr>) (Suc j) = ahead w j"
    and "to_fire (w\<lparr>timeouts := (timeouts w)[a := visit (timeouts w ! a)]\<rparr>) (Suc j) = to_fire w j"
proof -
  let ?b = "buckets w ! hand w" and ?st = "(timeouts w)[a := visit (timeouts w ! a)]"
  let ?w = "w\<lparr>timeouts := ?st\<rparr>"
  have h: "hand ?w = hand w" by (rule hand_cong) simp_all
  have b: "drop j ?b = a # drop (Suc j) ?b" "take (Suc j) ?b = take j ?b @ [a]"
    using assms(2,3) by (simp_all add: Cons_nth_drop_Suc take_Suc_conv_app_nth)
  have "distinct (drop j ?b)" using wheel_bucket(1) [OF assms(1) hand_bound [OF assms(1)]] by simp
  then have a: "a \<notin> set (drop (Suc j) ?b)" using b by simp
  note f = others_same [OF a, of "timeouts w" "visit (timeouts w ! a)"]
  show "ahead ?w (Suc j) = ahead w j"
    unfolding ahead_def Let_def h using visit_all_Cons [OF a, of "timeouts w"] b f(2) assms(4) by simp
  have "fires (timeouts w ! a) = []" using assms(4) by (simp add: stays_def fires_def)
  moreover have "timeouts ?w = ?st" "buckets ?w = buckets w" by simp_all
  ultimately show "to_fire ?w (Suc j) = to_fire w j"
    unfolding to_fire_def h b list.map concat.simps by (simp only: f(1)) simp
qed

text \<open>A task run at \<open>j\<close> adds behind it, whether or not that is in the bucket being visited.\<close>

lemma erase_added:
  assumes "wheel_ok w" and "j < length (buckets w ! hand w)"
  shows "erase_at (hand w) j (added_wheel w task t) = added_wheel (erase_at (hand w) j w) task t"
proof -
  let ?h = "hand w" and ?i = "(unat t + hand w) mod length (buckets w)"
  have h: "hand (erase_at ?h j w) = ?h" by (rule hand_cong) (simp_all add: erase_at_def)
  have lt: "?h < length (buckets w)" by (rule hand_bound [OF assms(1)])
  have "(buckets (added_wheel w task t))[?h := take j (buckets (added_wheel w task t) ! ?h)
      @ drop (Suc j) (buckets (added_wheel w task t) ! ?h)]
    = (buckets (erase_at ?h j w))[?i := buckets (erase_at ?h j w) ! ?i @ [length (timeouts w)]]"
    using assms(2) lt by (cases "?i = ?h") (simp_all add: added_wheel_def erase_at_def Let_def list_update_swap)
  then show ?thesis
    unfolding erase_at_def [of ?h j "added_wheel w task t"] added_wheel_def [of "erase_at ?h j w"] h Let_def
    by (simp add: added_wheel_def erase_at_def Let_def)
qed

lemma word_pred_div:
  fixes t :: u32
  assumes "t \<noteq> 0"
  shows "unat (drop_bit s (t - 1)) = (if 2 ^ s dvd unat t then unat (drop_bit s t) - 1 else unat (drop_bit s t))"
proof -
  have t: "unat (t - 1) = unat t - 1" "0 < unat t" using assms by (simp_all add: unat_pred unat_gt_0)
  then have "unat (drop_bit s (t - 1)) = (unat t - 1) div 2 ^ s" by (simp add: unat_drop_bit)
  also have "\<dots> = (if 2 ^ s dvd unat t then unat t div 2 ^ s - 1 else unat t div 2 ^ s)"
    using t(2) div_Suc [of "unat t - 1" "2 ^ s"] by (auto simp: dvd_eq_mod_eq_0)
  finally show ?thesis by (simp add: unat_drop_bit)
qed

lemma late_slot:
  assumes "h < n" and "0 < t"
  shows "(t - 1 + Suc h mod n) mod n = (t + h) mod (n :: nat)"
    and "(t + h) mod n = h \<longleftrightarrow> n dvd t"
proof -
  have "(t - 1 + Suc h mod n) mod n = (t - 1 + Suc h) mod n" by (simp add: mod_add_right_eq)
  then show "(t - 1 + Suc h mod n) mod n = (t + h) mod n" using assms(2) by simp
  have "(t + h) mod n = (0 + h) mod n \<longleftrightarrow> n dvd t"
    by (metis add.commute add.right_neutral add_diff_cancel_left' dvd_triv_left le_add1 mod_eq_dvd_iff_nat)
  then show "(t + h) mod n = h \<longleftrightarrow> n dvd t" using assms(1) by simp
qed

lemma late_rounds:
  assumes "t \<noteq> 0"
  shows "(if 2 ^ s dvd unat t then visit (new_timeout (drop_bit s t) d (Run k)) else new_timeout (drop_bit s t) d (Run k))
      = new_timeout (drop_bit s (t - 1)) d (Run k)"
    and "2 ^ s dvd unat t \<Longrightarrow> stays (new_timeout (drop_bit s t) d (Run k))"
    and "2 ^ s dvd unat t \<Longrightarrow> fires (new_timeout (drop_bit s t) d (Run k)) = []"
proof -
  have r: "unat (drop_bit s t) \<noteq> 0" if "2 ^ s dvd unat t"
  proof -
    have "2 ^ s \<le> unat t" using that assms by (intro dvd_imp_le) (simp_all add: unat_gt_0)
    moreover have "0 < unat t" using assms by (simp add: unat_gt_0)
    ultimately show ?thesis using that by (simp add: unat_drop_bit dvd_div_eq_0_iff)
  qed
  then have z: "drop_bit s t \<noteq> 0" if "2 ^ s dvd unat t" using that by (metis unat_0)
  have e: "drop_bit s (t - 1) = (if 2 ^ s dvd unat t then drop_bit s t - 1 else drop_bit s t)"
    using word_pred_div [OF assms, of s] z by (auto simp: word_unat_eq_iff unat_pred)
  show "(if 2 ^ s dvd unat t then visit (new_timeout (drop_bit s t) d (Run k)) else new_timeout (drop_bit s t) d (Run k))
      = new_timeout (drop_bit s (t - 1)) d (Run k)"
    unfolding e using z by (auto simp: visit_def new_timeout_def isCancelled_def)
  show "2 ^ s dvd unat t \<Longrightarrow> stays (new_timeout (drop_bit s t) d (Run k))"
    and "2 ^ s dvd unat t \<Longrightarrow> fires (new_timeout (drop_bit s t) d (Run k)) = []"
    using z by (simp_all add: stays_def fires_def new_timeout_def isCancelled_def)
qed

lemma hand_ahead: "wheel_ok w \<Longrightarrow> hand (ahead w j) = Suc (hand w) mod length (buckets w)"
  using hand_ticked [of w] hand_cong [of "ahead w j" "ticked_wheel w"]
  by (simp add: ahead_def ticked_wheel_def Let_def)

lemma ahead_added:
  assumes "wheel_ok u" and "j \<le> length (buckets u ! hand u)" and "t \<noteq> 0"
  shows "ahead (added_wheel u (Run k) t) j = late_added k t (ahead u j)"
    and "to_fire (added_wheel u (Run k) t) j = to_fire u j"
proof -
  let ?b = "buckets u ! hand u" and ?n = "length (buckets u)" and ?a = "length (timeouts u)" and ?w = "added_wheel u (Run k) t"
  let ?nt = "new_timeout (drop_bit (normalizeShift u) t) (ucast t) (Run k)" and ?i = "(unat t + hand u) mod ?n"
  note h = hand_bound [OF assms(1)]
  have n: "?n = 2 ^ normalizeShift u" using assms(1) by (simp add: wheel_ok_def)
  have here: "?i = hand u \<longleftrightarrow> 2 ^ normalizeShift u dvd unat t"
    using late_slot(2) [OF h] assms(3) unfolding n by (simp add: unat_gt_0)
  have slot: "(unat t - 1 + Suc (hand u) mod ?n) mod ?n = ?i"
    by (rule late_slot(1) [OF h]) (use assms(3) in \<open>simp add: unat_gt_0\<close>)
  have lt: "\<forall>a \<in> set (drop j ?b). a < ?a" using wheel_bucket(2) [OF assms(1) h] by (auto dest: in_set_dropD)
  have b: "buckets ?w ! hand u = (if ?i = hand u then ?b @ [?a] else ?b)"
    using added_bucket [OF assms(1) h] by auto
  have d: "drop j (buckets ?w ! hand u) = (if ?i = hand u then drop j ?b @ [?a] else drop j ?b)"
    "take j (buckets ?w ! hand u) = take j ?b" using assms(2) unfolding b by simp_all
  have old: "filter (\<lambda>a. stays ((timeouts u @ [?nt]) ! a)) (drop j ?b) = filter (\<lambda>a. stays (timeouts u ! a)) (drop j ?b)"
    "map (\<lambda>a. map (Pair a) (fires ((timeouts u @ [?nt]) ! a))) (drop j ?b)
      = map (\<lambda>a. map (Pair a) (fires (timeouts u ! a))) (drop j ?b)"
    using lt by (auto intro!: filter_cong map_cong simp: nth_append)
  note L = late_rounds [OF assms(3), of "normalizeShift u" "ucast t" k]
  show "to_fire ?w j = to_fire u j"
    unfolding to_fire_def hand_added d added_timeout
    using here L(3) by (cases "?i = hand u") (simp_all add: old(2) del: map_eq_conv)
  have ts: "timeouts (ahead ?w j) = timeouts (ahead u j) @ [new_timeout (drop_bit (normalizeShift u) (t - 1)) (ucast t) (Run k)]"
    using visit_all_append [OF lt, of ?nt] here L(1)
    by (cases "?i = hand u") (simp_all add: ahead_def Let_def d added_timeout)
  have A: "buckets (ahead v j) = (buckets v)[hand v := take j (buckets v ! hand v)
      @ filter (\<lambda>a. stays (timeouts v ! a)) (drop j (buckets v ! hand v))]" for v :: "'a wheel"
    by (simp add: ahead_def Let_def)
  have B: "buckets ?w = (buckets u)[?i := buckets u ! ?i @ [?a]]" by (simp add: added_wheel_def Let_def)
  have bs: "buckets (ahead ?w j) = (buckets (ahead u j))[?i := buckets (ahead u j) ! ?i @ [?a]]"
    unfolding A hand_added d added_timeout B using here L(2) h assms(2)
    by (cases "?i = hand u") (simp_all add: old(1) list_update_swap)
  show "ahead ?w j = late_added k t (ahead u j)"
    using ts bs slot hand_ahead [OF assms(1), of j]
    by (simp add: late_added_def Let_def) (simp add: ahead_def Let_def added_wheel_def)
qed

text \<open>The whole visit.\<close>

text \<open>Taking timeouts out of a bucket, or changing them, keeps a wheel well formed.\<close>

lemma shrunk_ok:
  assumes "wheel_ok w" and "length st = length (timeouts w)" and "set b \<subseteq> set (buckets w ! i)" and "distinct b"
  shows "wheel_ok (w\<lparr>timeouts := st, buckets := (buckets w)[i := b], ticked := n\<rparr>)"
proof -
  let ?b = "(buckets w)[i := b]"
  have sub: "set (?b ! h) \<subseteq> set (buckets w ! h) \<and> distinct (?b ! h)" if "h < length (buckets w)" for h
    using that wheel_bucket(1) [OF assms(1) that] assms(3,4) by (cases "h = i") auto
  with wheel_bucket [OF assms(1)] bucket_unique [OF assms(1)] have
    "\<forall>h < length (buckets w). distinct (?b ! h) \<and> (\<forall>a \<in> set (?b ! h). a < length (timeouts w))"
    "\<forall>h < length (buckets w). \<forall>g < length (buckets w). \<forall>a \<in> set (?b ! h). a \<in> set (?b ! g) \<longrightarrow> h = g" by blast+
  with assms(1,2) show ?thesis by (simp add: wheel_ok_def)
qed

lemma erased_at_ok:
  assumes "wheel_ok w"
  shows "wheel_ok (erase_at i j w)"
proof (cases "i < length (buckets w)")
  case True
  let ?b = "take j (buckets w ! i) @ drop (Suc j) (buckets w ! i)"
  have "set ?b \<subseteq> set (buckets w ! i)" by (auto dest: in_set_takeD in_set_dropD)
  moreover have "distinct ?b" using wheel_bucket(1) [OF assms True] by (simp add: set_take_disj_set_drop_if_distinct)
  ultimately show ?thesis
    using shrunk_ok [OF assms refl, where b = ?b and i = i and n = "ticked w"] by (simp add: erase_at_def)
next
  case False
  then have "erase_at i j w = w" by (simp add: erase_at_def list_update_beyond)
  with assms show ?thesis by simp
qed

lemma ahead_ok:
  assumes "wheel_ok w"
  shows "wheel_ok (ahead w j)"
proof -
  let ?b = "buckets w ! hand w"
  have d: "distinct ?b" by (rule wheel_bucket(1) [OF assms hand_bound [OF assms]])
  then have "set (take j ?b) \<inter> set (drop j ?b) = {}" by (rule set_take_disj_set_drop_if_distinct) simp
  with d show ?thesis unfolding ahead_def Let_def
    by (intro shrunk_ok [OF assms]) (auto simp: visit_all_def dest: in_set_takeD in_set_dropD)
qed

lemma erased_at_fields:
  "hand (erase_at i j w) = hand w" "msPerTick (erase_at i j w) = msPerTick w" "timeouts (erase_at i j w) = timeouts w"
  "i < length (buckets w) \<Longrightarrow> j < length (buckets w ! i) \<Longrightarrow> length (buckets (erase_at i j w) ! i) = length (buckets w ! i) - 1"
  by (simp_all add: erase_at_def) (rule hand_cong; simp)

lemma updated_ok: "wheel_ok w \<Longrightarrow> length st = length (timeouts w) \<Longrightarrow> wheel_ok (w\<lparr>timeouts := st\<rparr>)"
  by (simp add: wheel_ok_def)

fun late_all :: "('k \<Rightarrow> u64) \<Rightarrow> (nat \<times> 'k) list \<Rightarrow> 'k wheel \<Rightarrow> 'k wheel" where
  "late_all d [] v = v"
| "late_all d ((a, k) # fs) v = late_all d fs (late_added k (ticks_of v (d k)) v)"

lemma ticks_of_cong: "msPerTick w' = msPerTick w \<Longrightarrow> ticks_of w' ms = ticks_of w ms"
  by (simp add: ticks_of_def)

text \<open>The wheel when the visit has come to position \<open>j\<close>, and the timeout there has been looked at.\<close>

definition looked_at :: "'k wheel \<Rightarrow> nat \<Rightarrow> 'k wheel" where
  "looked_at w j = (let a = buckets w ! hand w ! j in w\<lparr>timeouts := (timeouts w)[a := visit (timeouts w ! a)]\<rparr>)"

lemma looked_at_fields [simp]:
  "buckets (looked_at w j) = buckets w" "hand (looked_at w j) = hand w" "msPerTick (looked_at w j) = msPerTick w"
  "length (timeouts (looked_at w j)) = length (timeouts w)"
  by (simp_all add: looked_at_def Let_def) (rule hand_cong; simp)

lemma looked_at_ok: "wheel_ok w \<Longrightarrow> wheel_ok (looked_at w j)"
  unfolding looked_at_def Let_def by (rule updated_ok) simp_all

lemma to_fire_looked_at:
  assumes "wheel_ok w" and "j < length (buckets w ! hand w)" and "a = buckets w ! hand w ! j"
  shows "to_fire w j = map (Pair a) (fires (timeouts w ! a)) @ to_fire (looked_at w j) (Suc j)"
proof -
  have b: "drop j (buckets w ! hand w) = a # drop (Suc j) (buckets w ! hand w)"
    using assms(2,3) by (simp add: Cons_nth_drop_Suc)
  then have "a \<notin> set (drop (Suc j) (buckets w ! hand w))"
    using wheel_bucket(1) [OF assms(1) hand_bound [OF assms(1)]] distinct_drop [of "buckets w ! hand w" j] by simp
  note n = others_same(1) [OF this, of "timeouts w" "visit (timeouts w ! a)"]
  have t: "timeouts (looked_at w j) = (timeouts w)[a := visit (timeouts w ! a)]"
    by (simp add: looked_at_def Let_def flip: assms(3))
  show ?thesis unfolding to_fire_def looked_at_fields b list.map concat.simps t n ..
qed

text \<open>One round of the visit: a timeout stays, or it goes without a task to run, or its task runs.\<close>

lemma visit_round_cases:
  assumes "wheel_ok w" and "j < length (buckets w ! hand w)"
  obtains (stays) "visit_round run (hand w) j (w, s) = Inr (Suc j, looked_at w j, s)"
      and "ahead (looked_at w j) (Suc j) = ahead w j" and "to_fire (looked_at w j) (Suc j) = to_fire w j"
    | (goes) "visit_round run (hand w) j (w, s) = Inr (j, erase_at (hand w) j (looked_at w j), s)"
      and "ahead (erase_at (hand w) j (looked_at w j)) j = ahead w j"
      and "to_fire (erase_at (hand w) j (looked_at w j)) j = to_fire w j"
    | (runs) a k where "visit_round run (hand w) j (w, s)
          = bind_res (run a k (looked_at w j, s)) (\<lambda>(w', s'). Inr (j, erase_at (hand w) j w', s'))"
      and "a = buckets w ! hand w ! j" and "remainingRounds (timeouts w ! a) = 0" and "fires (timeouts w ! a) = [k]"
      and "ahead (erase_at (hand w) j (looked_at w j)) j = ahead w j"
      and "to_fire w j = (a, k) # to_fire (erase_at (hand w) j (looked_at w j)) j"
proof -
  define a where "a = buckets w ! hand w ! j"
  have l: "looked_at w j = w\<lparr>timeouts := (timeouts w)[a := visit (timeouts w ! a)]\<rparr>"
    by (simp add: looked_at_def a_def Let_def)
  note E = ahead_erase [OF assms a_def, folded l]
  consider "stays (timeouts w ! a)" | "remainingRounds (timeouts w ! a) \<noteq> 0" "isCancelled (timeouts w ! a)"
    | "remainingRounds (timeouts w ! a) = 0" "fires (timeouts w ! a) = []"
    | k where "remainingRounds (timeouts w ! a) = 0" "fires (timeouts w ! a) = [k]"
    using fires_cases [of "timeouts w ! a"] by (auto simp: stays_def)
  then show thesis
  proof cases
    case 1
    from round_stays [OF a_def 1, of run s, folded l] ahead_stays [OF assms a_def 1, folded l] show thesis by (rule stays)
  next
    case 2
    then have f: "looked_at w j = w" "fires (timeouts w ! a) = []" "\<not> stays (timeouts w ! a)"
      by (simp_all add: l visit_def fires_def stays_def)
    from round_cancelled [OF a_def 2, of run s] E [OF f(3)] show thesis by (intro goes) (simp_all add: f(1,2))
  next
    case 3
    then have "expire_run run a (w, s) = Inr (looked_at w j, s)" "\<not> stays (timeouts w ! a)"
      by (simp_all add: expire_run_def expire_fires l stays_def)
    with round_fire [OF a_def 3(1), of run s] E 3(2) show thesis by (intro goes) simp_all
  next
    case (4 k)
    then have "expire_run run a (w, s) = run a k (looked_at w j, s)" "\<not> stays (timeouts w ! a)"
      by (simp_all add: expire_run_def expire_fires l stays_def Let_def)
    with round_fire [OF a_def 4(1), of run s] E 4 show thesis by (intro runs [OF _ a_def]) simp_all
  qed
qed

text \<open>For a task \<open>k\<close> that arms itself again: it does so behind itself.\<close>

lemma rearm_round:
  assumes "wheel_ok w" and "j < length (buckets w ! hand w)"
  obtains (stays) w' where "visit_round (rearm d) (hand w) j (w, s) = Inr (Suc j, w', s)" and "wheel_ok w'"
      and "hand w' = hand w" and "msPerTick w' = msPerTick w" and "buckets w' = buckets w"
      and "ahead w' (Suc j) = ahead w j" and "to_fire w' (Suc j) = to_fire w j"
    | (goes) u where "visit_round (rearm d) (hand w) j (w, s) = Inr (j, u, s)" and "wheel_ok u"
      and "hand u = hand w" and "msPerTick u = msPerTick w" and "length (buckets u ! hand w) = length (buckets w ! hand w) - 1"
      and "ahead u j = ahead w j" and "to_fire u j = to_fire w j"
    | (runs) u a k where "visit_round (rearm d) (hand w) j (w, s) = Inr (j, added_wheel u (Run k) (ticks_of u (d k)), s @ [k])"
      and "wheel_ok u"
      and "hand u = hand w" and "msPerTick u = msPerTick w" and "length (buckets u ! hand w) = length (buckets w ! hand w) - 1"
      and "ahead u j = ahead w j" and "to_fire w j = (a, k) # to_fire u j"
proof -
  let ?w = "looked_at w j"
  define u where "u = erase_at (hand w) j ?w"
  have u: "wheel_ok u" "hand u = hand w" "msPerTick u = msPerTick w" "length (buckets u ! hand w) = length (buckets w ! hand w) - 1"
    unfolding u_def using erased_at_ok [OF looked_at_ok [OF assms(1)]] erased_at_fields [where w = ?w and i = "hand w" and j = j] assms hand_bound [OF assms(1)]
    by simp_all
  show thesis
  proof (rule visit_round_cases [OF assms, where run = "rearm d" and s = s], goal_cases stays goes runs)
    case stays
    from stays(1) looked_at_ok [OF assms(1)] looked_at_fields(2,3,1) stays(2,3) show thesis by (rule that(1))
  next
    case goes
    from goes(1) [folded u_def] u goes(2,3) [folded u_def] show thesis by (rule that(2))
  next
    case (runs a k)
    have t: "addTimeout ?w (Run k) (d k) = Inr (added_wheel ?w (Run k) (ticks_of ?w (d k)), length (timeouts w))"
      using addTimeout_eq [OF looked_at_ok [OF assms(1)] convert_ticks] assms(1) by (simp add: wheel_ok_def)
    have "erase_at (hand w) j (added_wheel ?w (Run k) (ticks_of ?w (d k))) = added_wheel u (Run k) (ticks_of u (d k))"
      using erase_added [OF looked_at_ok [OF assms(1)], of j] assms(2) by (simp add: u_def ticks_of_def erase_at_def)
    with runs(1) t have "visit_round (rearm d) (hand w) j (w, s) = Inr (j, added_wheel u (Run k) (ticks_of u (d k)), s @ [k])"
      by (simp add: rearm_def)
    from this u runs(5,6) [folded u_def] show thesis by (rule that(3))
  qed
qed

lemma visit_rearm:
  "wheel_ok w \<Longrightarrow> j \<le> length (buckets w ! hand w) \<Longrightarrow> \<forall>k. ticks_of w (d k) \<noteq> 0 \<Longrightarrow>
    \<exists>w'. expireTimeouts_run (rearm d) (hand w) j (w, s) = Some (Inr (w', s @ map snd (to_fire w j)))
      \<and> w'\<lparr>ticked := ticked w' + 1\<rparr> = late_all d (to_fire w j) (ahead w j)"
proof (induction "length (to_fire w j) + length (buckets w ! hand w) - j" arbitrary: w j s rule: less_induct)
  case less
  note ok = less.prems(1)
  show ?case
  proof (cases "j = length (buckets w ! hand w)")
    case True
    then have "to_fire w j = []" "w\<lparr>ticked := ticked w + 1\<rparr> = ahead w j"
      by (simp_all add: to_fire_def ahead_def visit_all_def map_nth)
    with True show ?thesis by (intro exI [of _ w]) (simp add: visit_end)
  next
    case False
    then have j: "j < length (buckets w ! hand w)" using less.prems(2) by simp
    note go = visit_next [OF j, of "rearm d" s] and IH = less.hyps
    show ?thesis
    proof (rule rearm_round [OF ok j, where d = d and s = s], goal_cases stays goes runs)
      case (stays w')
      from IH [of w' "Suc j", OF _ stays(2)] go stays j less.prems(3) ticks_of_cong [OF stays(4)] show ?thesis by simp
    next
      case (goes u)
      from IH [of u j, OF _ goes(2)] go goes j less.prems(3) ticks_of_cong [OF goes(4)] show ?thesis by simp
    next
      case (runs u a k)
      let ?t = "ticks_of u (d k)"
      have t: "?t \<noteq> 0" using less.prems(3) ticks_of_cong [OF runs(4)] by simp
      have uj: "j \<le> length (buckets u ! hand u)" using runs(3,5) j by simp
      define v where "v = added_wheel u (Run k) ?t"
      have v: "wheel_ok v" "hand v = hand w" "msPerTick v = msPerTick w"
        "length (buckets v ! hand w) \<le> length (buckets w ! hand w)" "j \<le> length (buckets v ! hand w)"
        using added_wheel_ok [OF runs(2)] added_bucket [OF runs(2) hand_bound [OF runs(2)]] runs(3-5) uj j
        by (auto simp: v_def)
      note A = ahead_added [OF runs(2) uj t, where k = k, folded v_def]
      have "ticks_of (ahead w j) (d k) = ?t" using runs(4) by (simp add: ticks_of_def ahead_def Let_def)
      with IH [of v j, OF _ v(1), where s = "s @ [k]"] go runs(1,6,7) v A less.prems(3) ticks_of_cong [OF v(3)]
      show ?thesis by (simp flip: v_def)
    qed
  qed
qed

lemma tick_rearm:
  assumes "wheel_ok w" and "\<forall>k. ticks_of w (d k) \<noteq> 0"
  shows "tick_run (rearm d) (w, s)
    = Some (Inr (late_all d (tick_fires w) (ticked_wheel w), s @ map snd (tick_fires w)))"
proof -
  from visit_rearm [OF assms(1) _ assms(2), of 0 s] obtain w' where
    "expireTimeouts_run (rearm d) (hand w) 0 (w, s) = Some (Inr (w', s @ map snd (tick_fires w)))"
    "w'\<lparr>ticked := ticked w' + 1\<rparr> = late_all d (tick_fires w) (ticked_wheel w)"
    by (auto simp: ahead_start)
  then show ?thesis using hand_bound [OF assms(1)] by (simp add: tick_run_def Let_def flip: hand_def)
qed

subsection \<open>The alarms\<close>

text \<open>The deadline of a timeout is not looked at.\<close>

lemma late_added_eq:
  assumes "t \<noteq> 0"
  shows "late_added k t v = (added_wheel v (Run k) (t - 1))
    \<lparr>timeouts := timeouts v @ [(new_timeout (drop_bit (normalizeShift v) (t - 1)) (ucast t) (Run k))]\<rparr>"
proof -
  have "unat (t - 1) = unat t - 1" using assms by (rule unat_pred)
  then show ?thesis by (simp add: late_added_def added_wheel_def Let_def)
qed

lemma late_added_ok:
  assumes "wheel_ok v" and "t \<noteq> 0"
  shows "wheel_ok (late_added k t v)"
    and "due (late_added k t v) a = (if a = length (timeouts v) then Some (unat t - 1, k) else due v a)"
proof -
  let ?w = "added_wheel v (Run k) (t - 1)"
  note e = late_added_eq [OF assms(2), of k v]
  show "wheel_ok (late_added k t v)"
    unfolding e by (rule updated_ok [OF added_wheel_ok [OF assms(1)]]) simp
  have "bucket_of (late_added k t v) a = bucket_of ?w a" unfolding e by (simp add: bucket_of_def)
  moreover have "hand (late_added k t v) = hand ?w" "length (buckets (late_added k t v)) = length (buckets ?w)"
    unfolding e by (simp_all add: hand_def)
  moreover have "to_state (timeouts (late_added k t v) ! b) = to_state (timeouts ?w ! b)"
    "to_task (timeouts (late_added k t v) ! b) = to_task (timeouts ?w ! b)"
    "remainingRounds (timeouts (late_added k t v) ! b) = remainingRounds (timeouts ?w ! b)"
    if "b < Suc (length (timeouts v))" for b
    using that unfolding e added_timeout by (auto simp: nth_append new_timeout_def less_Suc_eq)
  moreover have "a < Suc (length (timeouts v))" if "bucket_of ?w a = Some i" for i
    using bucket_of_address [OF added_wheel_ok [OF assms(1)] that] by simp
  ultimately have "due (late_added k t v) a = due ?w a"
    by (cases "bucket_of ?w a") (simp_all add: due_def alarm_def split: task.split)
  then show "due (late_added k t v) a = (if a = length (timeouts v) then Some (unat t - 1, k) else due v a)"
    by (simp add: due_added [OF assms(1)] unat_pred [OF assms(2)])
qed

text \<open>The armed timeouts: in how many ticks each rings, and its task.\<close>

definition alarms :: "'k wheel \<Rightarrow> (nat \<times> 'k) multiset" where
  "alarms w = image_mset (\<lambda>a. the (due w a)) (mset_set {a. due w a \<noteq> None})"

lemma due_address: "wheel_ok w \<Longrightarrow> due w a \<noteq> None \<Longrightarrow> a < length (timeouts w)"
  using bucket_of_address by (force simp: due_def split: option.splits)

lemma armed_finite: "wheel_ok w \<Longrightarrow> finite {a. due w a \<noteq> None}"
  by (rule finite_subset [of _ "{..<length (timeouts w)}"]) (auto dest: due_address)

lemma alarms_added:
  assumes "wheel_ok v" and "\<And>a. due w a = (if a = length (timeouts v) then Some x else due v a)"
  shows "alarms w = add_mset x (alarms v)"
proof -
  let ?n = "length (timeouts v)"
  have n: "?n \<notin> {a. due v a \<noteq> None}" using due_address [OF assms(1)] by blast
  have s: "{a. due w a \<noteq> None} = insert ?n {a. due v a \<noteq> None}" by (auto simp: assms(2))
  have "image_mset (\<lambda>a. the (due w a)) (mset_set {a. due v a \<noteq> None}) = alarms v"
    unfolding alarms_def using n armed_finite [OF assms(1)] by (intro image_mset_cong) (auto simp: assms(2))
  then show ?thesis unfolding alarms_def [of w] s using n armed_finite [OF assms(1)] by (simp add: assms(2))
qed

lemma late_all_alarms:
  "wheel_ok v \<Longrightarrow> \<forall>k. ticks_of v (d k) \<noteq> 0 \<Longrightarrow> wheel_ok (late_all d fs v) \<and> msPerTick (late_all d fs v) = msPerTick v
    \<and> alarms (late_all d fs v) = alarms v + mset (map (\<lambda>(a, k). (unat (ticks_of v (d k)) - 1, k)) fs)"
proof (induction fs arbitrary: v)
  case (Cons f fs)
  obtain a k where f: "f = (a, k)" by fastforce
  let ?v = "late_added k (ticks_of v (d k)) v"
  have t: "ticks_of v (d k) \<noteq> 0" using Cons.prems(2) by simp
  note L = late_added_ok [OF Cons.prems(1) t]
  have m: "msPerTick ?v = msPerTick v" by (simp add: late_added_def Let_def)
  with Cons.IH [OF L(1)] Cons.prems(2) alarms_added [OF Cons.prems(1) L(2)] f show ?case by (simp add: ticks_of_def)
qed simp

lemma ticked_alarms:
  assumes "wheel_ok w"
  shows "alarms (ticked_wheel w) = image_mset (\<lambda>(c, k). (c - 1, k)) (filter_mset (\<lambda>(c, k). c \<noteq> 0) (alarms w))"
proof -
  note f = armed_finite [OF assms]
  have s: "{a. due (ticked_wheel w) a \<noteq> None} = {a \<in> {a. due w a \<noteq> None}. fst (the (due w a)) \<noteq> 0}"
    by (auto simp: due_ticked [OF assms] split: option.splits nat.splits)
  have "alarms (ticked_wheel w) = image_mset (\<lambda>a. (\<lambda>(c, k). (c - 1, k)) (the (due w a)))
      (filter_mset (\<lambda>a. fst (the (due w a)) \<noteq> 0) (mset_set {a. due w a \<noteq> None}))"
    unfolding alarms_def s using f
    by (subst filter_mset_mset_set, simp, intro image_mset_cong)
      (auto simp: due_ticked [OF assms] split: option.splits nat.splits)
  then show ?thesis by (simp add: alarms_def filter_mset_image_mset case_prod_unfold image_mset.compositionality o_def)
qed

lemma fired_alarms:
  assumes "wheel_ok w"
  shows "mset (map snd (tick_fires w)) = image_mset snd (filter_mset (\<lambda>(c, k). c = 0) (alarms w))"
proof -
  let ?A = "{a. due w a \<noteq> None \<and> fst (the (due w a)) = 0}"
  have s: "set (tick_fires w) = (\<lambda>a. (a, snd (the (due w a)))) ` ?A"
    using tick_fires_iff [OF assms] by (force simp: image_iff)
  have "mset (tick_fires w) = mset_set (set (tick_fires w))"
    using tick_fires_distinct [OF assms] by (simp add: mset_set_set distinct_map)
  also have "\<dots> = image_mset (\<lambda>a. (a, snd (the (due w a)))) (mset_set ?A)"
    unfolding s by (rule image_mset_mset_set [symmetric]) (auto intro: inj_onI)
  finally have "mset (map snd (tick_fires w)) = image_mset (\<lambda>a. snd (the (due w a))) (mset_set ?A)"
    by (simp add: image_mset.compositionality o_def)
  moreover have "mset_set ?A = filter_mset (\<lambda>a. fst (the (due w a)) = 0) (mset_set {a. due w a \<noteq> None})"
    using armed_finite [OF assms] by (subst filter_mset_mset_set) simp_all
  ultimately show ?thesis by (simp add: alarms_def filter_mset_image_mset case_prod_unfold image_mset.compositionality o_def)
qed

text \<open>A tick, on the multiset of alarms.\<close>

definition next_alarm :: "('k \<Rightarrow> nat) \<Rightarrow> nat \<times> 'k \<Rightarrow> nat \<times> 'k" where
  "next_alarm p = (\<lambda>(c, k). if c = 0 then (p k - 1, k) else (c - 1, k))"

lemma snd_next: "snd (next_alarm p x) = snd x"
  by (cases x) (simp add: next_alarm_def)

lemma tick_rearm_alarms:
  assumes "wheel_ok w" and "\<forall>k. ticks_of w (d k) \<noteq> 0"
  obtains w' l where "tick_run (rearm d) (w, s) = Some (Inr (w', s @ l))" and "wheel_ok w'" and "msPerTick w' = msPerTick w"
    and "alarms w' = image_mset (next_alarm (\<lambda>k. unat (ticks_of w (d k)))) (alarms w)"
    and "mset l = image_mset snd (filter_mset (\<lambda>(c, k). c = 0) (alarms w))"
proof -
  let ?p = "\<lambda>k. unat (ticks_of w (d k))" and ?w = "late_all d (tick_fires w) (ticked_wheel w)"
  have m: "msPerTick (ticked_wheel w) = msPerTick w" by (simp add: ticked_wheel_def)
  have L: "wheel_ok ?w" "msPerTick ?w = msPerTick w" "alarms ?w = alarms (ticked_wheel w) + mset (map (\<lambda>(a, k). (?p k - 1, k)) (tick_fires w))"
    using late_all_alarms [OF ticked_wheel_ok [OF assms(1)], of d "tick_fires w"] assms(2) m by (simp_all add: ticks_of_def)
  have "mset (map (\<lambda>(a, k). (?p k - 1, k)) (tick_fires w)) = image_mset (\<lambda>k. (?p k - 1, k)) (mset (map snd (tick_fires w)))"
    by (simp add: image_mset.compositionality o_def case_prod_unfold)
  also have "\<dots> = image_mset (next_alarm ?p) (filter_mset (\<lambda>(c, k). c = 0) (alarms w))"
    unfolding fired_alarms [OF assms(1)] image_mset.compositionality
    by (intro image_mset_cong) (auto simp: next_alarm_def)
  finally have fired: "mset (map (\<lambda>(a, k). (?p k - 1, k)) (tick_fires w))
    = image_mset (next_alarm ?p) (filter_mset (\<lambda>(c, k). c = 0) (alarms w))" .
  have left: "alarms (ticked_wheel w) = image_mset (next_alarm ?p) (filter_mset (\<lambda>(c, k). c \<noteq> 0) (alarms w))"
    unfolding ticked_alarms [OF assms(1)] by (intro image_mset_cong) (auto simp: next_alarm_def)
  have "alarms w = filter_mset (\<lambda>(c, k). c \<noteq> 0) (alarms w) + filter_mset (\<lambda>(c, k). c = 0) (alarms w)"
    using multiset_partition [of "alarms w" "\<lambda>x. fst x \<noteq> 0"] by (simp add: case_prod_unfold)
  then have "alarms ?w = image_mset (next_alarm ?p) (alarms w)"
    unfolding L(3) fired left by (metis image_mset_union)
  with tick_rearm [OF assms] L(1,2) fired_alarms [OF assms(1)] show thesis by (intro that)
qed

text \<open>How often an alarm rings in \<open>n\<close> ticks.\<close>

fun rings :: "('k \<Rightarrow> nat) \<Rightarrow> nat \<Rightarrow> nat \<times> 'k \<Rightarrow> nat" where
  "rings p n (c, k) = (if n \<le> c then 0 else Suc ((n - 1 - c) div p k))"

lemma rings_Suc:
  assumes "0 < p (snd x)"
  shows "rings p (Suc n) x = (if fst x = 0 then 1 else 0) + rings p n (next_alarm p x)"
proof (cases x)
  case (Pair c k)
  have "n div p k = (if n < p k then 0 else Suc ((n - p k) div p k))"
    using assms Pair by (simp add: le_div_geq)
  with assms Pair show ?thesis by (cases c) (auto simp: next_alarm_def)
qed

lemma count_zero:
  "count (image_mset snd (filter_mset (\<lambda>(c, k). c = 0) A)) k
    = (\<Sum>x \<in># A. if snd x = k \<and> fst x = 0 then 1 else (0 :: nat))"
  by (induction A) auto

lemma ticks_rearm_rings:
  "wheel_ok w \<Longrightarrow> \<forall>k. ticks_of w (d k) \<noteq> 0 \<Longrightarrow>
    \<exists>w' l. ticks_run (rearm d) n (w, s) = Some (Inr (w', s @ l)) \<and> wheel_ok w'
      \<and> (\<forall>k. count (mset l) k = (\<Sum>x \<in># alarms w. if snd x = k then rings (\<lambda>k. unat (ticks_of w (d k))) n x else 0))"
proof (induction n arbitrary: w s)
  case 0
  have "(\<Sum>x \<in># alarms w. if snd x = k then rings p 0 x else 0) = 0" for k p
    by (auto simp: case_prod_unfold)
  with 0 show ?case by (intro exI [of _ w] exI [of _ "[]"]) simp
next
  case (Suc n)
  let ?p = "\<lambda>k. unat (ticks_of w (d k))"
  obtain w1 l1 where 1: "tick_run (rearm d) (w, s) = Some (Inr (w1, s @ l1))" "wheel_ok w1" "msPerTick w1 = msPerTick w"
    "alarms w1 = image_mset (next_alarm ?p) (alarms w)"
    "mset l1 = image_mset snd (filter_mset (\<lambda>(c, k). c = 0) (alarms w))"
    by (rule tick_rearm_alarms [OF Suc.prems])
  have t: "ticks_of w1 x = ticks_of w x" for x by (simp add: ticks_of_def 1(3))
  then have pe: "(\<lambda>k. unat (ticks_of w1 (d k))) = ?p" by simp
  have "\<forall>k. ticks_of w1 (d k) \<noteq> 0" using Suc.prems(2) t by simp
  from Suc.IH [OF 1(2) this, of "s @ l1", unfolded pe] obtain w' l where
    2: "ticks_run (rearm d) n (w1, s @ l1) = Some (Inr (w', (s @ l1) @ l))" "wheel_ok w'"
    "\<forall>k. count (mset l) k = (\<Sum>x \<in># alarms w1. if snd x = k then rings ?p n x else 0)" by blast
  have p: "0 < ?p k" for k using Suc.prems(2) by (simp add: unat_gt_0)
  have "count (mset (l1 @ l)) k = (\<Sum>x \<in># alarms w. if snd x = k then rings ?p (Suc n) x else 0)" for k
  proof -
    have "count (mset l1) k = (\<Sum>x \<in># alarms w. if snd x = k \<and> fst x = 0 then 1 else 0)"
      unfolding 1(5) by (rule count_zero)
    moreover have "count (mset l) k = (\<Sum>x \<in># alarms w. if snd x = k then rings ?p n (next_alarm ?p x) else 0)"
      unfolding 2(3) [rule_format] 1(4) image_mset.compositionality o_def
      by (simp only: snd_next)
    ultimately show ?thesis
      by (auto simp: sum_mset.distrib [symmetric] rings_Suc p intro!: arg_cong [where f = sum_mset] image_mset_cong
        simp del: rings.simps)
  qed
  with 1(1) 2 show ?case by (intro exI [of _ w'] exI [of _ "l1 @ l"]) simp
qed

text \<open>Timeouts added between two ticks, each for its period.\<close>

fun start_all :: "('k \<Rightarrow> u64) \<Rightarrow> 'k list \<Rightarrow> 'k wheel \<Rightarrow> 'k wheel res" where
  "start_all d [] w = Inr w"
| "start_all d (k # ks) w = bind_res (addTimeout w (Run k) (d k)) (\<lambda>(w', _). start_all d ks w')"

lemma start_all_alarms:
  "wheel_ok w \<Longrightarrow> \<exists>w'. start_all d ks w = Inr w' \<and> wheel_ok w' \<and> msPerTick w' = msPerTick w
    \<and> alarms w' = alarms w + mset (map (\<lambda>k. (unat (ticks_of w (d k)), k)) ks)"
proof (induction ks arbitrary: w)
  case (Cons k ks)
  have "msPerTick w \<noteq> 0" using Cons.prems by (simp add: wheel_ok_def)
  note a = addTimeout_eq [OF Cons.prems convert_ticks [OF this], where ms = "d k" and task = "Run k"]
  from Cons.IH [OF added_wheel_ok [OF Cons.prems], of "Run k" "ticks_of w (d k)"]
    alarms_added [OF Cons.prems due_added [OF Cons.prems]]
  show ?case by (simp add: a ticks_of_def)
qed simp

section \<open>Timeouts without delay\<close>

text \<open>
  A task that arms itself for no ticks at all is put behind the iterator again and again. The visit
  does not end: no result satisfies the recursion.
\<close>

definition endless :: "('k \<Rightarrow> u64) \<Rightarrow> nat \<Rightarrow> 'k wheel \<Rightarrow> bool" where
  "endless d j w \<longleftrightarrow> (\<exists>(a, k) \<in> set (to_fire w j). ticks_of w (d k) = 0)"

lemma to_fire_added_now:
  assumes "wheel_ok u" and "j \<le> length (buckets u ! hand u)"
  shows "to_fire (added_wheel u (Run k) 0) j = to_fire u j @ [(length (timeouts u), k)]"
proof -
  let ?b = "buckets u ! hand u" and ?a = "length (timeouts u)"
  note h = hand_bound [OF assms(1)]
  have lt: "\<forall>a \<in> set (drop j ?b). a < ?a" using wheel_bucket(2) [OF assms(1) h] by (auto dest: in_set_dropD)
  have d: "drop j (buckets (added_wheel u (Run k) 0) ! hand u) = drop j ?b @ [?a]"
    using added_bucket [OF assms(1) h, of "Run k" 0] h assms(2) by simp
  have "map (\<lambda>a. map (Pair a) (fires ((timeouts u @ [nt]) ! a))) (drop j ?b)
      = map (\<lambda>a. map (Pair a) (fires (timeouts u ! a))) (drop j ?b)" for nt
    using lt by (auto intro!: map_cong simp: nth_append)
  moreover have "fires (new_timeout 0 0 (Run k)) = [k]" by (simp add: fires_def expire_def new_timeout_def)
  ultimately show ?thesis
    unfolding to_fire_def hand_added d added_timeout by (simp del: map_eq_conv)
qed

lemma endless_added:
  assumes "wheel_ok u" and "j \<le> length (buckets u ! hand u)" and "endless d j u \<or> ticks_of u (d k) = 0"
  shows "endless d j (added_wheel u (Run k) (ticks_of u (d k)))"
proof (cases "ticks_of u (d k) = 0")
  case True
  with to_fire_added_now [OF assms(1,2), of k] show ?thesis by (auto simp: endless_def ticks_of_def)
next
  case False
  with ahead_added(2) [OF assms(1,2) False, of k] assms(3) show ?thesis by (auto simp: endless_def ticks_of_def)
qed

lemma endless_round:
  assumes "wheel_ok w" and "endless d j w"
  obtains j' w' s' where "j < length (buckets w ! hand w)"
    and "visit_round (rearm d) (hand w) j (w, s) = Inr (j', w', s')" and "wheel_ok w'" and "hand w' = hand w"
    and "endless d j' w'"
proof -
  have j: "j < length (buckets w ! hand w)"
    using assms(2) by (cases "length (buckets w ! hand w) \<le> j") (auto simp: endless_def to_fire_def)
  show thesis
  proof (rule rearm_round [OF assms(1) j, where d = d and s = s], goal_cases stays goes runs)
    case (stays w')
    have "endless d (Suc j) w'" using assms(2) stays(7) by (simp add: endless_def ticks_of_cong [OF stays(4)])
    with j stays(1-3) show thesis by (rule that)
  next
    case (goes u)
    have "endless d j u" using assms(2) goes(7) by (simp add: endless_def ticks_of_cong [OF goes(4)])
    with j goes(1-3) show thesis by (rule that)
  next
    case (runs u a k)
    have "j \<le> length (buckets u ! hand u)" using runs(3,5) j by simp
    moreover have "endless d j u \<or> ticks_of u (d k) = 0"
      using assms(2) runs(7) by (auto simp: endless_def ticks_of_cong [OF runs(4)])
    ultimately have "endless d j (added_wheel u (Run k) (ticks_of u (d k)))" by (rule endless_added [OF runs(2)])
    moreover have "hand (added_wheel u (Run k) (ticks_of u (d k))) = hand w" using runs(3) hand_added by metis
    ultimately show thesis using that [OF j runs(1) added_wheel_ok [OF runs(2)]] by blast
  qed
qed

text \<open>No result satisfies the recursion: the recursive call is made on an endless state again.\<close>

lemma endless_visit:
  fixes w :: "'a wheel"
  assumes "expireTimeouts_run (rearm d) (hand w) j (w, s) = Some y" and "wheel_ok w"
  shows "\<not> endless d j w"
proof -
  let ?P = "\<lambda>run i j (x :: 'a wheel \<times> 'a list) (y :: ('a wheel \<times> 'a list) res).
    run = rearm d \<longrightarrow> wheel_ok (fst x) \<longrightarrow> i = hand (fst x) \<longrightarrow> \<not> endless d j (fst x)"
  have all: "?P run i j x y" if "expireTimeouts_run run i j x = Some y" for run i j x y
  proof (rule expireTimeouts_run.raw_induct [where xa = "(((run, i), j), x)" and P = ?P, unfolded prod.case, OF _ that],
      intro impI notI)
    fix f run' i' j' and x' :: "'a wheel \<times> 'a list" and y' :: "('a wheel \<times> 'a list) res"
    assume IH: "\<And>i j x b y. f i j x b = Some y \<Longrightarrow> ?P i j x b y"
      and step: "(if length (buckets (fst x') ! i') \<le> j' then Some (Inr x')
        else case visit_round run' i' j' x' of Inl e \<Rightarrow> Some (Inl e) | Inr y \<Rightarrow> f run' i' (fst y) (snd y)) = Some y'"
      and r: "run' = rearm d" and ok: "wheel_ok (fst x')" and i: "i' = hand (fst x')" and e: "endless d j' (fst x')"
    obtain j2 w2 s2 where n: "j' < length (buckets (fst x') ! hand (fst x'))"
      "visit_round (rearm d) (hand (fst x')) j' (fst x', snd x') = Inr (j2, w2, s2)" "wheel_ok w2" "hand w2 = hand (fst x')"
      "endless d j2 w2" by (rule endless_round [OF ok e])
    then have "f run' i' j2 (w2, s2) = Some y'" using step by (simp add: r i)
    from IH [OF this] r i n(3-5) show False by simp
  qed
  from all [OF assms(1)] assms(2) show ?thesis by simp
qed

section \<open>Properties\<close>

text \<open>The tick of a session manager as the code runs it: the visit calls \<open>removeSession\<close>.\<close>

definition manager_tick_run :: "'c manager \<Rightarrow> 'c manager res option" where
  "manager_tick_run m =
     map_option (\<lambda>r. bind_res r (\<lambda>(w, m'). Inr (m'\<lparr>timer := w\<rparr>)))
       (tick_run (beside (\<lambda>a k. removeSession k)) (timer m, m))"

lemma remove_beside_timer:
  "remove_all (map snd fs) (m\<lparr>timer := w\<rparr>)
    = bind_res (run_fired (\<lambda>a k. removeSession k) fs m) (\<lambda>m'. Inr (m'\<lparr>timer := w\<rparr>))"
proof (induction fs arbitrary: m)
  case (Cons f fs)
  have "removeSession (snd f) (m\<lparr>timer := w\<rparr>)
      = bind_res (removeSession (snd f) m) (\<lambda>m'. Inr (m'\<lparr>timer := w\<rparr>))"
    by (simp add: removeSession_def Let_def)
  with Cons.IH show ?case by (cases f; cases "removeSession (snd f) m") simp_all
qed simp

text \<open>C9: In every state a session manager reaches, the tick whose visit calls
  \<open>removeSession\<close> inside the loop over the bucket ends, and it comes to the same as visiting the
  bucket first and removing the sessions of the timeouts that rang afterwards.\<close>

theorem sessions_removed_in_the_visit:
  assumes "new_SessionManager e = Inr m0" and "run_manager es (setSessionRemoveHandler True m0) = Inr m"
  shows "manager_tick_run m = Some (manager_tick m)"
proof -
  from run_manager_total [OF new_manager_ok(1) [OF assms(1)], of es] assms(2) have "wheel_ok (timer m)"
    by (auto simp: manager_ok_def)
  then show ?thesis
    by (cases "run_fired (\<lambda>a k. removeSession k) (tick_fires (timer m)) m")
      (simp_all add: manager_tick_run_def manager_tick_def tick_beside tick_eq remove_beside_timer)
qed

theorem sessions_removed_in_the_visit_witness:
  "\<exists>m0 m. new_SessionManager 150 = Inr m0
    \<and> run_manager [Heartbeat (peer 1 2) 7 0 0, TimerTick, TimerTick] (setSessionRemoveHandler True m0) = Inr m
    \<and> manager_tick_run m = Some (manager_tick m)"
proof -
  obtain m0 :: "unit manager" where m0: "new_SessionManager 150 = Inr m0"
    using new_manager_total by blast
  from run_manager_total [OF new_manager_ok(1) [OF m0], of "[Heartbeat (peer 1 2) 7 0 0, TimerTick, TimerTick]"]
  obtain m where m: "run_manager [Heartbeat (peer 1 2) 7 0 0, TimerTick, TimerTick] (setSessionRemoveHandler True m0) = Inr m"
    by blast
  from sessions_removed_in_the_visit [OF m0 m] m0 m show ?thesis by blast
qed

text \<open>The period of a task in ticks.\<close>

definition period :: "u32 \<Rightarrow> u64 \<Rightarrow> nat" where
  "period ms d = ((unat d + unat ms - 1) div unat ms) mod 2 ^ 32"

lemma unat_ticks_of:
  assumes "unat d + unat (msPerTick w) \<le> 2 ^ 64" and "msPerTick w \<noteq> 0"
  shows "unat (ticks_of w d) = period (msPerTick w) d"
  using ticks_ceiling [OF assms] by (simp add: ticks_of_def wheel_ticks_def period_def)

lemma new_wheel_alarms: "wheel_ok w \<Longrightarrow> timeouts w = [] \<Longrightarrow> alarms w = {#}"
proof -
  assume "wheel_ok w" "timeouts w = []"
  then have "{a. due w a \<noteq> None} = {}" using due_address [of w] by fastforce
  then show ?thesis by (simp only: alarms_def) simp
qed

lemma sum_rings:
  "(\<Sum>x \<in># mset (map (\<lambda>k. (p k, k)) ks). if snd x = k then rings p n x else 0)
    = count_list ks k * (if p k = 0 then 0 else (n - 1) div p k)"
  if "0 < p k"
proof -
  have "rings p n (p k, k) = (n - 1) div p k"
    using that by (auto simp: le_div_geq div_eq_0_iff)
  then show ?thesis using that by (induction ks) auto
qed

text \<open>C13: Tasks that arm themselves again whenever they run, each with its own delay of at least a
  tick, started between two ticks on a new wheel: \<open>n\<close> ticks end, and each timer
  started for \<open>d k\<close> milliseconds has run exactly once every \<open>\<lceil>d k / msPerTick\<rceil>\<close> ticks, the first
  time in the tick numbered so counting the next one as 0. None is lost or runs early, whether it is
  put back into the bucket being visited or into another.\<close>

theorem periodic_timers_ring:
  assumes "new_HashedWheelTimer ms tpw = Inr w0" and "ms \<noteq> 0" and "tpw \<le> 2 ^ 31"
    and "start_all d ks w0 = Inr w1"
    and "\<And>k. unat (d k) + unat ms \<le> 2 ^ 64 \<and> period ms (d k) \<noteq> 0"
  shows "\<exists>w2 log. ticks_run (rearm d) n (w1, []) = Some (Inr (w2, log))
    \<and> (\<forall>k. count_list log k = count_list ks k * ((n - 1) div period ms (d k)))"
proof -
  note w0 = new_wheel_ok [OF assms(2,1,3)]
  have t: "unat (ticks_of w0 (d k)) = period ms (d k)" for k
    using unat_ticks_of [of "d k" w0] assms(2,5) w0(5) by simp
  from start_all_alarms [OF w0(1), of d ks] assms(4) new_wheel_alarms [OF w0(1,3)]
  have w1: "wheel_ok w1" "msPerTick w1 = msPerTick w0" "alarms w1 = mset (map (\<lambda>k. (period ms (d k), k)) ks)"
    by (auto simp: t)
  have t1: "unat (ticks_of w1 (d k)) = period ms (d k)" for k
    using t [of k] by (simp add: ticks_of_cong [OF w1(2)])
  then have nz: "\<forall>k. ticks_of w1 (d k) \<noteq> 0" using assms(5) by (metis unsigned_0)
  have pe: "(\<lambda>k. unat (ticks_of w1 (d k))) = (\<lambda>k. period ms (d k))" by (simp add: t1)
  obtain w2 l where "ticks_run (rearm d) n (w1, []) = Some (Inr (w2, l))"
    "\<forall>k. count (mset l) k = (\<Sum>x \<in># alarms w1. if snd x = k then rings (\<lambda>k. period ms (d k)) n x else 0)"
    using ticks_rearm_rings [OF w1(1) nz, of n "[]", unfolded pe] by auto
  then show ?thesis
    using sum_rings [where p = "\<lambda>k. period ms (d k)" and ks = ks and n = n] assms(5) w1(3) by (simp add: count_mset)
qed

theorem periodic_timers_ring_witness:
  "\<exists>w0 w1 w2 log. new_HashedWheelTimer 100 2 = Inr w0
    \<and> start_all (\<lambda>k::bool. if k then 150 else 300) [True, False, True] w0 = Inr w1
    \<and> ticks_run (rearm (\<lambda>k. if k then 150 else 300)) 8 (w1, []) = Some (Inr (w2, log))
    \<and> count_list log True = 6 \<and> count_list log False = 2"
proof -
  define w0 :: "bool wheel" where "w0 = projr (new_HashedWheelTimer 100 2)"
  have 0: "new_HashedWheelTimer 100 2 = Inr w0" unfolding w0_def by code_simp
  note ok0 = new_wheel_ok(1) [OF _ 0, simplified]
  let ?d = "\<lambda>k::bool. if k then 150 else 300 :: u64"
  from start_all_alarms [OF ok0, of ?d "[True, False, True]"] obtain w1 where
    1: "start_all ?d [True, False, True] w0 = Inr w1" by blast
  have "unat (?d k) + unat (100 :: u32) \<le> 2 ^ 64 \<and> period 100 (?d k) \<noteq> 0" for k
    by (cases k) (simp_all add: period_def)
  from periodic_timers_ring [OF 0 _ _ 1 this, of 8] obtain w2 log where
    2: "ticks_run (rearm ?d) 8 (w1, []) = Some (Inr (w2, log))"
    "\<forall>k. count_list log k = count_list [True, False, True] k * ((8 - 1) div period 100 (?d k))" by auto
  have "count_list log True = 6" "count_list log False = 2"
    using 2(2) [rule_format, of True] 2(2) [rule_format, of False] by (simp_all add: period_def)
  with 0 1 2(1) show ?thesis by blast
qed

lemma ticks_of_0: "msPerTick w \<noteq> 0 \<Longrightarrow> ticks_of w 0 = 0"
proof -
  assume m: "msPerTick w \<noteq> 0"
  have "unat (msPerTick w) \<le> 2 ^ 64" using unsigned_less [of "msPerTick w", where 'a = nat] by simp
  then have "unat (ticks_of w 0) = period (msPerTick w) 0" using unat_ticks_of [of 0 w] m by simp
  also have "\<dots> = 0" using m by (simp add: period_def unat_gt_0 div_eq_0_iff)
  finally show ?thesis by (simp only: unat_eq_zero)
qed

text \<open>C39: A task that arms itself again without delay is put back into the bucket that is being
  visited, and the visit comes to it again: \<open>tick\<close> never returns.\<close>

theorem zero_delay_never_ends:
  assumes "new_HashedWheelTimer ms tpw = Inr w0" and "ms \<noteq> 0" and "tpw \<le> 2 ^ 31"
    and "start_all d ks w0 = Inr w1" and "k \<in> set ks" and "d k = 0"
  shows "tick_run (rearm d) (w1, s) = None"
proof -
  note w0 = new_wheel_ok [OF assms(2,1,3)]
  have z: "ticks_of w0 0 = 0" using ticks_of_0 [of w0] w0(5) assms(2) by simp
  from start_all_alarms [OF w0(1), of d ks] assms(4) new_wheel_alarms [OF w0(1,3)]
  have w1: "wheel_ok w1" "msPerTick w1 = msPerTick w0" "alarms w1 = mset (map (\<lambda>k. (unat (ticks_of w0 (d k)), k)) ks)"
    by auto
  have "(0, k) \<in># alarms w1" unfolding w1(3) using assms(5,6) z by force
  then have "k \<in># image_mset snd (filter_mset (\<lambda>(c, k). c = 0) (alarms w1))" by force
  then have "k \<in> snd ` set (tick_fires w1)"
    unfolding fired_alarms [OF w1(1), symmetric] by simp
  then have "endless d 0 w1"
    using assms(6) z by (force simp: endless_def ahead_start(2) ticks_of_cong [OF w1(2)])
  then have "expireTimeouts_run (rearm d) (hand w1) 0 (w1, s) = None"
    using endless_visit [OF _ w1(1), of d 0 s] by (cases "expireTimeouts_run (rearm d) (hand w1) 0 (w1, s)") auto
  with hand_bound [OF w1(1)] show ?thesis by (simp add: tick_run_def flip: hand_def)
qed

theorem zero_delay_never_ends_witness:
  "\<exists>w0 w1. new_HashedWheelTimer 100 2 = Inr w0 \<and> start_all (\<lambda>k::nat. 0) [7] w0 = Inr w1
    \<and> tick_run (rearm (\<lambda>k. 0)) (w1, []) = None"
proof -
  define w0 :: "nat wheel" where "w0 = projr (new_HashedWheelTimer 100 2)"
  have 0: "new_HashedWheelTimer 100 2 = Inr w0" unfolding w0_def by code_simp
  note ok0 = new_wheel_ok(1) [OF _ 0, simplified]
  from start_all_alarms [OF ok0, of "\<lambda>k. 0" "[7]"] obtain w1 where 1: "start_all (\<lambda>k. 0) [7] w0 = Inr w1" by blast
  have "tick_run (rearm (\<lambda>k. 0)) (w1, []) = None"
    by (rule zero_delay_never_ends [OF 0 _ _ 1, of 7]) simp_all
  with 0 1 show ?thesis by blast
qed

end
