(* ===== verification/WheelCalls.thy ===== *)
theory WheelCalls
  imports WheelTasks
begin

text \<open>
  Tasks that call the timer: a task run by \<open>tick\<close> (\<^verbatim>\<open>HashedWheelTimer.cpp\<close>) may add timeouts and cancel
  any, its own and those of the bucket being visited among them. Which tasks run in a tick, and in
  which order, and that the tick ends.
\<close>

section \<open>Calls\<close>

datatype 'k wheel_call = Add_timeout 'k u64 | Cancel_timeout nat

fun do_calls :: "'k wheel_call list \<Rightarrow> 'k wheel \<Rightarrow> 'k wheel res" where
  "do_calls [] w = Inr w"
| "do_calls (Add_timeout k d # cs) w = bind_res (addTimeout w (Run k) d) (\<lambda>(w', _). do_calls cs w')"
| "do_calls (Cancel_timeout a # cs) w = do_calls cs (cancel w a)"

text \<open>A task makes its calls and logs that it ran.\<close>

definition calling :: "(nat \<Rightarrow> 'k \<Rightarrow> 'k wheel_call list) \<Rightarrow> ('k, (nat \<times> 'k) list) run_task" where
  "calling f a k = (\<lambda>(w, log). bind_res (do_calls (f a k) w) (\<lambda>w'. Inr (w', log @ [(a, k)])))"

text \<open>No timeout is added for less than a tick.\<close>

definition not_at_once :: "'k wheel \<Rightarrow> 'k wheel_call list \<Rightarrow> bool" where
  "not_at_once w cs \<longleftrightarrow> (\<forall>k d. Add_timeout k d \<in> set cs \<longrightarrow> ticks_of w d \<noteq> 0)"

section \<open>Which tasks run\<close>

text \<open>A timeout does not run when one that ran before it in the same tick has cancelled it.\<close>

definition spared :: "'k wheel_call list \<Rightarrow> (nat \<times> 'k) list \<Rightarrow> (nat \<times> 'k) list" where
  "spared cs = filter (\<lambda>(a, k). Cancel_timeout a \<notin> set cs)"

lemma length_spared: "length (spared cs fs) \<le> length fs"
  by (simp add: spared_def)

function run_order :: "(nat \<Rightarrow> 'k \<Rightarrow> 'k wheel_call list) \<Rightarrow> (nat \<times> 'k) list \<Rightarrow> (nat \<times> 'k) list" where
  "run_order f [] = []"
| "run_order f ((a, k) # fs) = (a, k) # run_order f (spared (f a k) fs)"
  by pat_completeness auto
termination
  by (relation "measure (\<lambda>(f, fs). length fs)") (simp_all add: le_imp_less_Suc length_spared)

lemma run_order_subset: "set (run_order f fs) \<subseteq> set fs"
  by (induction f fs rule: run_order.induct) (auto simp: spared_def)

section \<open>The calls of one task\<close>

lemma fires_cancelled: "fires (cancel_timeout t) = []"
  by (simp add: fires_def cancel_timeout_def expire_def)

lemma to_fire_cancel:
  assumes "wheel_ok w"
  shows "to_fire (cancel w a) j = filter (\<lambda>(b, k). b \<noteq> a) (to_fire w j)"
proof -
  let ?b = "drop j (buckets w ! hand w)"
  have "map (Pair b) (fires (timeouts (cancel w a) ! b)) = filter (\<lambda>(b, k). b \<noteq> a) (map (Pair b) (fires (timeouts w ! b)))"
    if "b \<in> set ?b" for b
    using wheel_bucket(2) [OF assms hand_bound [OF assms]] in_set_dropD [OF that]
    by (cases "b = a") (simp_all add: cancel_def fires_cancelled filter_map o_def)
  then have e: "map (\<lambda>b. map (Pair b) (fires (timeouts (cancel w a) ! b))) ?b
      = map (filter (\<lambda>(b, k). b \<noteq> a)) (map (\<lambda>b. map (Pair b) (fires (timeouts w ! b))) ?b)"
    by simp
  have h: "hand (cancel w a) = hand w" by (rule hand_cong) simp_all
  show ?thesis unfolding to_fire_def filter_concat h cancel_fields e ..
qed

text \<open>The alarms there will be after the tick.\<close>

lemma due_ahead_cancel:
  assumes "wheel_ok w" and "a < length (timeouts w)"
  shows "due (ahead (cancel w a) j) b = (if b = a then None else due (ahead w j) b)"
proof -
  let ?x = "ahead w j" and ?y = "ahead (cancel w a) j"
  have h: "hand (cancel w a) = hand w" by (rule hand_cong) simp_all
  note ok = ahead_ok [OF assms(1)] ahead_ok [OF cancel_wheel_ok [OF assms(1)]]
  have len: "length (buckets ?y) = length (buckets ?x)" by (simp add: ahead_def Let_def)
  have hand: "hand ?y = hand ?x" by (rule hand_cong) (simp_all add: ahead_def Let_def)
  show ?thesis
  proof (cases "b = a")
    case True
    have "to_state (timeouts ?y ! a) \<noteq> ST_INIT"
      using assms(2) by (auto simp: ahead_def Let_def visit_all_def cancel_def visit_def cancel_timeout_def expire_def)
    then show ?thesis using True by (simp add: due_def alarm_def split: option.split)
  next
    case False
    have st: "timeouts (cancel w a) ! b = timeouts w ! b" using False by (simp add: cancel_def)
    then have t: "timeouts ?y ! b = timeouts ?x ! b" if "b < length (timeouts w)"
      using that by (simp add: ahead_def Let_def visit_all_def h)
    have "b \<in> set (buckets ?y ! i) \<longleftrightarrow> b \<in> set (buckets ?x ! i)" if "i < length (buckets w)" for i
      using that st by (cases "i = hand w") (simp_all add: ahead_def Let_def h)
    then have "bucket_of ?y b = bucket_of ?x b"
      unfolding bucket_of_def len by (intro find_cong refl) (simp add: ahead_def Let_def)
    moreover have "b < length (timeouts w)" if "bucket_of ?x b = Some i" for i
      using bucket_of_address [OF ok(1) that] by (simp add: ahead_def Let_def visit_all_def)
    ultimately show ?thesis unfolding due_def alarm_def len hand using t False
      by (cases "bucket_of ?x b") (simp_all split: task.split)
  qed
qed

lemma do_calls_ok:
  "wheel_ok w \<Longrightarrow> j \<le> length (buckets w ! hand w) \<Longrightarrow> not_at_once w cs \<Longrightarrow> \<forall>a. Cancel_timeout a \<in> set cs \<longrightarrow> a < length (timeouts w) \<Longrightarrow>
    \<exists>w'. do_calls cs w = Inr w' \<and> wheel_ok w' \<and> hand w' = hand w \<and> msPerTick w' = msPerTick w
      \<and> j \<le> length (buckets w' ! hand w) \<and> length (timeouts w) \<le> length (timeouts w')
      \<and> to_fire w' j = spared cs (to_fire w j)
      \<and> (\<forall>b < length (timeouts w). due (ahead w' j) b = (if Cancel_timeout b \<in> set cs then None else due (ahead w j) b))"
proof (induction cs arbitrary: w)
  case Nil
  have "to_fire w j = spared [] (to_fire w j)" by (simp add: spared_def case_prod_unfold)
  with Nil show ?case by simp
next
  case (Cons c cs)
  show ?case
  proof (cases c)
    case (Add_timeout k d)
    let ?t = "ticks_of w d"
    let ?w = "added_wheel w (Run k) ?t"
    have t: "?t \<noteq> 0" using Cons.prems(3) Add_timeout by (simp add: not_at_once_def)
    have a: "addTimeout w (Run k) d = Inr (?w, length (timeouts w))"
      using Cons.prems(1) addTimeout_eq [OF Cons.prems(1) convert_ticks] by (simp add: wheel_ok_def)
    have m: "msPerTick ?w = msPerTick w" and lt: "length (timeouts ?w) = Suc (length (timeouts w))"
      by (simp_all add: added_timeout)
    have n: "not_at_once ?w cs" using Cons.prems(3) by (simp add: not_at_once_def ticks_of_cong [OF m])
    have len: "j \<le> length (buckets ?w ! hand w)"
      using added_bucket [OF Cons.prems(1) hand_bound [OF Cons.prems(1)]] Cons.prems(2) by simp
    note A = ahead_added [OF Cons.prems(1,2) t, of k]
    have "length (timeouts (ahead w j)) = length (timeouts w)" by (simp add: ahead_def Let_def visit_all_def)
    then have "due (ahead ?w j) b = due (ahead w j) b" if "b < length (timeouts w)" for b
      unfolding A(1) using that by (simp add: late_added_ok(2) [OF ahead_ok [OF Cons.prems(1)] t])
    moreover have "spared (c # cs) = spared cs" unfolding spared_def Add_timeout by simp
    moreover have "\<forall>a. Cancel_timeout a \<in> set cs \<longrightarrow> a < length (timeouts ?w)"
      using Cons.prems(4) lt by (simp add: less_SucI)
    ultimately show ?thesis
      using Cons.IH [OF added_wheel_ok [OF Cons.prems(1), of "Run k" ?t] _ n] len a m lt A(2) Add_timeout by auto
  next
    case (Cancel_timeout a)
    have h: "hand (cancel w a) = hand w" by (rule hand_cong) simp_all
    have n: "not_at_once (cancel w a) cs"
      using Cons.prems(3) by (simp add: not_at_once_def ticks_of_cong [of "cancel w a" w])
    have al: "a < length (timeouts w)" using Cons.prems(4) Cancel_timeout by simp
    have "spared (c # cs) (to_fire w j) = spared cs (to_fire (cancel w a) j)"
      unfolding to_fire_cancel [OF Cons.prems(1)] spared_def Cancel_timeout filter_filter by (rule filter_cong) auto
    then show ?thesis
      using Cons.IH [OF cancel_wheel_ok [OF Cons.prems(1)] _ n] Cons.prems(2,4) h Cancel_timeout
        due_ahead_cancel [OF Cons.prems(1) al] by auto
  qed
qed

text \<open>A timeout the iterator stands on may be erased before the calls as well as after them.\<close>

lemma do_calls_erase:
  "wheel_ok w \<Longrightarrow> hand w = h \<Longrightarrow> j < length (buckets w ! h) \<Longrightarrow>
    do_calls cs (erase_at h j w) = bind_res (do_calls cs w) (\<lambda>w'. Inr (erase_at h j w'))"
proof (induction cs arbitrary: w)
  case (Cons c cs)
  show ?case
  proof (cases c)
    case (Add_timeout k d)
    have m: "msPerTick w \<noteq> 0" using Cons.prems(1) by (simp add: wheel_ok_def)
    let ?w = "added_wheel w (Run k) (ticks_of w d)"
    have "addTimeout (erase_at h j w) (Run k) d = Inr (erase_at h j ?w, length (timeouts w))"
      using addTimeout_eq [OF erased_at_ok [OF Cons.prems(1)] convert_ticks, of h j "Run k" d] m
        erase_added [OF Cons.prems(1)] Cons.prems(2,3) by (simp add: erased_at_fields ticks_of_def)
    moreover have "j < length (buckets ?w ! h)"
      using added_bucket [OF Cons.prems(1) hand_bound [OF Cons.prems(1)]] Cons.prems(2,3) by simp
    ultimately show ?thesis
      using Cons.IH [OF added_wheel_ok [OF Cons.prems(1)]] addTimeout_eq [OF Cons.prems(1) convert_ticks [OF m]] Cons.prems(2) Add_timeout
      by simp
  next
    case (Cancel_timeout a)
    have "cancel (erase_at h j w) a = erase_at h j (cancel w a)" by (simp add: cancel_def erase_at_def)
    moreover have "hand (cancel w a) = hand w" by (rule hand_cong) simp_all
    ultimately show ?thesis using Cons.IH [OF cancel_wheel_ok [OF Cons.prems(1)]] Cons.prems Cancel_timeout by simp
  qed
qed simp

section \<open>The visit\<close>

text \<open>The tasks cancel timeouts there are when the tick begins.\<close>

definition calls_fit :: "'k wheel \<Rightarrow> (nat \<Rightarrow> 'k \<Rightarrow> 'k wheel_call list) \<Rightarrow> bool" where
  "calls_fit w f \<longleftrightarrow> (\<forall>a k. not_at_once w (f a k) \<and> (\<forall>b. Cancel_timeout b \<in> set (f a k) \<longrightarrow> b < length (timeouts w)))"

definition cancels :: "(nat \<Rightarrow> 'k \<Rightarrow> 'k wheel_call list) \<Rightarrow> (nat \<times> 'k) list \<Rightarrow> nat \<Rightarrow> bool" where
  "cancels f fs b \<longleftrightarrow> (\<exists>(a, k) \<in> set fs. Cancel_timeout b \<in> set (f a k))"

lemma visit_calls:
  "wheel_ok w \<Longrightarrow> j \<le> length (buckets w ! hand w) \<Longrightarrow> calls_fit w f \<Longrightarrow>
    \<exists>w'. expireTimeouts_run (calling f) (hand w) j (w, s) = Some (Inr (w', s @ run_order f (to_fire w j)))
      \<and> wheel_ok w' \<and> (\<forall>b < length (timeouts w). due (w'\<lparr>ticked := ticked w' + 1\<rparr>) b
          = (if cancels f (run_order f (to_fire w j)) b then None else due (ahead w j) b))"
proof (induction "(w, j, s)" arbitrary: w j s
    rule: wf_induct_rule [OF wf_measures [of "[\<lambda>(w, j, s). length (to_fire w j), \<lambda>(w, j, s). length (buckets w ! hand w) - j]"]])
  case (1 w j s)
  note ok = "1.prems"(1) and fit = "1.prems"(3)
  show ?case
  proof (cases "j < length (buckets w ! hand w)")
    case False
    then have "to_fire w j = []" "w\<lparr>ticked := ticked w + 1\<rparr> = ahead w j"
      by (simp_all add: to_fire_def ahead_def visit_all_def map_nth)
    with False ok show ?thesis by (intro exI [of _ w]) (simp add: visit_end cancels_def)
  next
    case True
    note go = visit_next [OF True, of "calling f" s] and h = hand_bound [OF ok]
    have fit': "calls_fit v f" if "msPerTick v = msPerTick w" "length (timeouts w) \<le> length (timeouts v)" for v
      using fit that(2) unfolding calls_fit_def not_at_once_def ticks_of_cong [OF that(1)] by (meson less_le_trans)
    let ?u = "erase_at (hand w) j (looked_at w j)"
    have u: "wheel_ok ?u" "hand ?u = hand w" "msPerTick ?u = msPerTick w" "length (timeouts ?u) = length (timeouts w)"
      "length (buckets ?u ! hand w) = length (buckets w ! hand w) - 1"
      using erased_at_ok [OF looked_at_ok [OF ok]] True h by (simp_all add: erased_at_fields)
    have less: "length (buckets w ! hand w) - Suc j < length (buckets w ! hand w) - j" using True by simp
    show ?thesis
    proof (rule visit_round_cases [OF ok True, where run = "calling f" and s = s], goal_cases stays goes runs)
      case stays
      from "1.hyps" [of "looked_at w j" "Suc j" s, OF _ looked_at_ok [OF ok] _ fit', unfolded stays(2,3)] stays(1,3) go True less show ?thesis by simp
    next
      case goes
      from "1.hyps" [of ?u j s, OF _ u(1) _ fit', unfolded goes(2,3)] goes(1,3) go True u show ?thesis by simp
    next
      case (runs a k)
      have "not_at_once ?u (f a k)" "\<forall>b. Cancel_timeout b \<in> set (f a k) \<longrightarrow> b < length (timeouts ?u)"
        using fit' [OF u(3)] u(4) by (simp_all add: calls_fit_def)
      moreover have "j \<le> length (buckets ?u ! hand ?u)" using u(2,5) True by simp
      ultimately obtain e where
        e: "do_calls (f a k) ?u = Inr e" "wheel_ok e" "hand e = hand w" "msPerTick e = msPerTick w"
          "j \<le> length (buckets e ! hand e)" "length (timeouts w) \<le> length (timeouts e)"
          "to_fire e j = spared (f a k) (to_fire ?u j)"
          "\<forall>b < length (timeouts w). due (ahead e j) b = (if Cancel_timeout b \<in> set (f a k) then None else due (ahead w j) b)"
        using do_calls_ok [OF u(1), where j = j and cs = "f a k", unfolded runs(5)] u by auto
      have "length (to_fire e j) < length (to_fire w j)"
        unfolding e(7) runs(6) using length_spared [of "f a k"] by (simp add: le_imp_less_Suc)
      with "1.hyps" [of e j "s @ [(a, k)]", OF _ e(2,5) fit' [OF e(4,6)]] obtain w' where
        w': "expireTimeouts_run (calling f) (hand w) j (e, s @ [(a, k)])
          = Some (Inr (w', (s @ [(a, k)]) @ run_order f (to_fire e j)))" "wheel_ok w'"
        "\<forall>b < length (timeouts e). due (w'\<lparr>ticked := ticked w' + 1\<rparr>) b
          = (if cancels f (run_order f (to_fire e j)) b then None else due (ahead e j) b)"
        unfolding e(3) by auto
      obtain v where v: "do_calls (f a k) (looked_at w j) = Inr v" "e = erase_at (hand w) j v"
        using do_calls_erase [OF looked_at_ok [OF ok], where h = "hand w" and j = j and cs = "f a k"] True e(1)
        by (cases "do_calls (f a k) (looked_at w j)") auto
      then have "visit_round (calling f) (hand w) j (w, s) = Inr (j, e, s @ [(a, k)])"
        using runs(1) by (simp add: calling_def)
      with go w'(1) have r: "expireTimeouts_run (calling f) (hand w) j (w, s)
          = Some (Inr (w', s @ run_order f (to_fire w j)))" by (simp add: e(7) runs(6))
      have c: "cancels f (run_order f (to_fire w j)) b
          \<longleftrightarrow> Cancel_timeout b \<in> set (f a k) \<or> cancels f (run_order f (to_fire e j)) b" for b
        by (simp add: e(7) runs(6) cancels_def)
      show ?thesis using r w'(2,3) e(6,8) c by (intro exI [of _ w']) (simp add: less_le_trans)
    qed
  qed
qed

section \<open>Properties\<close>


text \<open>Two timeouts are due; the task of the first cancels the second and adds another one.\<close>

definition first_cancels_second :: "nat \<Rightarrow> nat \<Rightarrow> nat wheel_call list" where
  "first_cancels_second a k = (if k = 7 then [Cancel_timeout 1, Add_timeout 9 100] else [])"


end
