(* ===== verification/SessionUsers.thy ===== *)
theory SessionUsers
  imports Session
begin

text \<open>
  The second map of \<open>SessionManager\<close> (\<^verbatim>\<open>netpack/Session.hpp\<close>), from users to their sessions, through
  which \<open>sendToUin\<close> and \<open>sendMultipleToUin\<close> find the sessions they send to.
\<close>

section \<open>The invariant\<close>

abbreviation session_at :: "'c manager \<Rightarrow> nat \<Rightarrow> 'c session" where
  "session_at m a \<equiv> sessions m ! a"

text \<open>Every entry is a registered session of its user, and a session is there unless one of the same
  user has been removed.\<close>

definition users_ok :: "'c manager \<Rightarrow> bool" where
  "users_ok m \<longleftrightarrow> distinct (map snd (uinMap m)) \<and> (\<forall>b \<in> set (removed m). b < length (sessions m))
     \<and> (\<forall>(u, a) \<in> set (uinMap m). a < length (sessions m) \<and> s_uin (session_at m a) = u
          \<and> cidMap m (s_cid (session_at m a)) = Some a)
     \<and> (\<forall>cid a. cidMap m cid = Some a \<longrightarrow>
          (\<forall>b \<in> set (removed m). s_uin (session_at m b) \<noteq> s_uin (session_at m a)) \<longrightarrow>
          (s_uin (session_at m a), a) \<in> set (uinMap m))"

text \<open>What a heartbeat changes in a session leaves its user and its connection alone.\<close>

lemma touch_users:
  assumes "touchSession a now m = Inr m'" and "users_ok m"
  shows "users_ok m'"
proof -
  from assms(1) obtain s' where m': "uinMap m' = uinMap m" "cidMap m' = cidMap m" "removed m' = removed m"
    "sessions m' = (sessions m)[a := s']" "s_uin s' = s_uin (session_at m a)" "s_cid s' = s_cid (session_at m a)"
    by (auto simp: touchSession_def resetTimeout_def touch_def)
  then have "s_uin (session_at m' b) = s_uin (session_at m b) \<and> s_cid (session_at m' b) = s_cid (session_at m b)" for b
    by (cases "b = a"; cases "a < length (sessions m)") (simp_all add: not_less list_update_beyond)
  with assms(2) m'(1-4) show ?thesis by (simp add: users_ok_def)
qed

lemma add_users:
  assumes ok: "users_ok m" and new: "cidMap m (s_cid s) = None"
    and cids: "\<And>cid a. cidMap m cid = Some a \<Longrightarrow> a < length (sessions m)"
  shows "users_ok (addSession (length (sessions m)) (m\<lparr>sessions := sessions m @ [s]\<rparr>))" (is "users_ok ?m")
proof -
  let ?n = "length (sessions m)"
  have m: "cidMap ?m = (cidMap m)(s_cid s \<mapsto> ?n)" "uinMap ?m = uinMap m @ [(s_uin s, ?n)]"
    "sessions ?m = sessions m @ [s]" "removed ?m = removed m"
    using new by (simp_all add: addSession_def Let_def)
  have old: "session_at ?m b = session_at m b" if "b < ?n" for b using that m(3) by (simp add: nth_append)
  have last: "session_at ?m ?n = s" using m(3) by simp
  have lt: "a < ?n" if "(u, a) \<in> set (uinMap m)" for u a using that ok by (auto simp: users_ok_def)
  have "distinct (map snd (uinMap ?m))" using ok lt m(2) by (fastforce simp: users_ok_def)
  moreover have "\<forall>b \<in> set (removed ?m). b < length (sessions ?m)" using ok m(3,4) by (auto simp: users_ok_def)
  moreover have "a < length (sessions ?m) \<and> s_uin (session_at ?m a) = u \<and> cidMap ?m (s_cid (session_at ?m a)) = Some a"
    if "(u, a) \<in> set (uinMap ?m)" for u a
  proof (cases "a = ?n")
    case True
    with that lt m last show ?thesis by auto
  next
    case False
    with that m(2) have e: "(u, a) \<in> set (uinMap m)" by auto
    with ok have "s_uin (session_at m a) = u" "cidMap m (s_cid (session_at m a)) = Some a" by (auto simp: users_ok_def)
    with lt [OF e] new m(1,3) old show ?thesis by auto
  qed
  moreover have "(s_uin (session_at ?m a), a) \<in> set (uinMap ?m)"
    if c: "cidMap ?m cid = Some a" and r: "\<forall>b \<in> set (removed ?m). s_uin (session_at ?m b) \<noteq> s_uin (session_at ?m a)"
    for cid a
  proof (cases "cid = s_cid s")
    case True
    with c m last show ?thesis by simp
  next
    case False
    with c m(1) have a: "cidMap m cid = Some a" by simp
    have "\<forall>b \<in> set (removed m). s_uin (session_at m b) \<noteq> s_uin (session_at m a)"
      using r ok old cids [OF a] m(4) by (simp add: users_ok_def)
    with ok a have "(s_uin (session_at m a), a) \<in> set (uinMap m)" by (simp add: users_ok_def)
    with old [OF cids [OF a]] m(2) show ?thesis by simp
  qed
  ultimately show ?thesis unfolding users_ok_def by blast
qed

lemma remove_users:
  assumes ok: "users_ok m" and a: "a < length (sessions m)" "cidMap m (s_cid (session_at m a)) = Some a"
    and r: "removeSession a m = Inr m'"
  shows "users_ok m'"
proof -
  let ?s = "session_at m a"
  from r have m': "cidMap m' = (cidMap m)(s_cid ?s := None)" "uinMap m' = filter (\<lambda>p. fst p \<noteq> s_uin ?s) (uinMap m)"
    "sessions m' = sessions m" "removed m' = removed m @ [a]"
    by (auto simp: removeSession_def Let_def split: if_splits)
  have "cidMap m' (s_cid (session_at m b)) = Some b" if b: "(u, b) \<in> set (uinMap m)" "u \<noteq> s_uin ?s" for u b
  proof -
    from b(1) ok have e: "s_uin (session_at m b) = u" "cidMap m (s_cid (session_at m b)) = Some b"
      by (auto simp: users_ok_def)
    with b(2) have "b \<noteq> a" by auto
    with e(2) a(2) have "s_cid (session_at m b) \<noteq> s_cid ?s" by auto
    with e(2) m'(1) show ?thesis by simp
  qed
  moreover have "distinct (map snd (uinMap m'))"
    using ok m'(2) by (simp add: users_ok_def distinct_map_filter)
  ultimately show ?thesis using ok a(1) m' by (fastforce simp: users_ok_def split: if_splits)
qed

section \<open>Runs\<close>

lemma remove_all_shrinks: "remove_all as m = Inr m' \<Longrightarrow> set (uinMap m') \<subseteq> set (uinMap m)"
proof (induction as arbitrary: m)
  case (Cons a as)
  then obtain m1 where r: "removeSession a m = Inr m1" "remove_all as m1 = Inr m'" by auto
  from Cons.IH [OF r(2)] r(1) show ?case
    by (auto simp: removeSession_def Let_def split: if_splits)
qed simp

lemma remove_all_users:
  "users_ok m \<Longrightarrow> distinct as \<Longrightarrow>
    \<forall>a \<in> set as. a < length (sessions m) \<and> cidMap m (s_cid (session_at m a)) = Some a \<Longrightarrow>
    remove_all as m = Inr m' \<Longrightarrow>
    users_ok m' \<and> (\<forall>a \<in> set as. \<forall>p \<in> set (uinMap m'). fst p \<noteq> s_uin (session_at m a))
      \<and> sessions m' = sessions m"
proof (induction as arbitrary: m)
  case (Cons a as)
  from Cons.prems(4) obtain m1 where r: "removeSession a m = Inr m1" "remove_all as m1 = Inr m'" by auto
  from r(1) have m1: "cidMap m1 = (cidMap m)(s_cid (session_at m a) := None)" "sessions m1 = sessions m"
    "uinMap m1 = filter (\<lambda>p. fst p \<noteq> s_uin (session_at m a)) (uinMap m)"
    by (auto simp: removeSession_def Let_def split: if_splits)
  have ok1: "users_ok m1" using Cons.prems(1,3) by (intro remove_users [OF _ _ _ r(1)]) simp_all
  have "cidMap m1 (s_cid (session_at m1 b)) = Some b" if "b \<in> set as" for b
  proof -
    from that Cons.prems(2,3) have "b \<noteq> a" "cidMap m (s_cid (session_at m b)) = Some b"
      "cidMap m (s_cid (session_at m a)) = Some a" by auto
    then show ?thesis using m1(1,2) by auto
  qed
  with Cons.IH [OF ok1 _ _ r(2)] Cons.prems(2,3) m1(2)
  have rest: "users_ok m'" "\<forall>b \<in> set as. \<forall>p \<in> set (uinMap m'). fst p \<noteq> s_uin (session_at m b)"
    "sessions m' = sessions m" by simp_all
  have "set (uinMap m') \<subseteq> set (uinMap m1)" by (rule remove_all_shrinks [OF r(2)])
  with rest m1(3) show ?case by auto
qed simp

text \<open>What rings is registered, and is registered with its user no more.\<close>

lemma tick_users:
  assumes "manager_ok m" and "users_ok m" and "manager_tick m = Inr m'"
  shows "users_ok m'"
    and "removed m' = removed m @ rs \<Longrightarrow> a \<in> set rs \<Longrightarrow> sessions_of_uin (s_uin (session_at m' a)) m' = []"
proof -
  note M = manager_okD [OF assms(1)]
  from wheel.tick_law [OF M(1)] obtain w f where w: "tick (timer m) = Inr (w, f)"
    "\<forall>t a. (t, a) \<in> set f \<longleftrightarrow> due (timer m) t = Some (0, a)" "distinct (map fst f)" by blast
  from assms(3) w(1) have r: "remove_all (map snd f) (m\<lparr>timer := w\<rparr>) = Inr m'" by (simp add: manager_tick_def)
  have reg: "\<forall>a \<in> set (map snd f). a < length (sessions m) \<and> cidMap m (s_cid (session_at m a)) = Some a"
    using w(2) M(4) by fastforce
  have "inj_on snd (set f)" using w(2) M(4) by (intro inj_onI) (metis option.inject prod.collapse)
  with w(3) have d: "distinct (map snd f)" by (simp add: distinct_map)
  have ok: "users_ok (m\<lparr>timer := w\<rparr>)" using assms(2) by (simp add: users_ok_def)
  from remove_all_users [OF ok d _ r] reg have m': "users_ok m'"
    "\<forall>a \<in> set (map snd f). \<forall>p \<in> set (uinMap m'). fst p \<noteq> s_uin (session_at m a)" "sessions m' = sessions m"
    by simp_all
  from m'(1) show "users_ok m'" .
  assume "removed m' = removed m @ rs" and "a \<in> set rs"
  moreover have "removed m' = removed m @ map snd f"
    using remove_all_eq [of "m\<lparr>timer := w\<rparr>" "map snd f"] r M(2) by auto
  ultimately have "a \<in> set (map snd f)" by simp
  with m'(2,3) show "sessions_of_uin (s_uin (session_at m' a)) m' = []"
    by (auto simp: sessions_of_uin_def filter_empty_conv)
qed

lemma heartbeat_users:
  assumes "manager_ok m" and "users_ok m" and h: "handlerHeartbeatReq src uin sk now m = Inr m'"
  shows "users_ok m'"
proof (cases "cidMap m (genConnectId src)")
  case None
  let ?s = "new_Session uin sk src now"
  have "users_ok (addSession (length (sessions m)) (m\<lparr>sessions := sessions m @ [?s]\<rparr>))"
    using assms(2) None manager_okD(3) [OF assms(1)] by (intro add_users) (simp_all add: new_Session_def)
  with h None show ?thesis by (auto simp: handlerHeartbeatReq_def findSessionByCid_def Let_def intro: touch_users)
next
  case (Some a)
  with h assms(2) show ?thesis by (auto simp: handlerHeartbeatReq_def findSessionByCid_def intro: touch_users)
qed

lemma run_users:
  "manager_ok m \<Longrightarrow> users_ok m \<Longrightarrow> run_manager es m = Inr m' \<Longrightarrow> manager_ok m' \<and> users_ok m'"
proof (induction es arbitrary: m)
  case (Cons e es)
  then obtain m1 where m1: "run_manager [e] m = Inr m1" "run_manager es m1 = Inr m'"
    by (cases e) auto
  from run_manager_total [OF Cons.prems(1), of "[e]"] m1(1) have "manager_ok m1" by auto
  moreover have "users_ok m1"
    using m1(1) Cons.prems(1,2) by (cases e) (auto intro: heartbeat_users tick_users(1))
  ultimately show ?case by (rule Cons.IH [OF _ _ m1(2)])
qed simp

lemma sessions_of_user:
  assumes "users_ok m"
  shows "distinct (sessions_of_uin u m)"
    and "a \<in> set (sessions_of_uin u m) \<Longrightarrow>
      s_uin (session_at m a) = u \<and> findSessionByCid (s_cid (session_at m a)) m = Some a"
    and "\<forall>b \<in> set (removed m). s_uin (session_at m b) \<noteq> u \<Longrightarrow> findSessionByCid cid m = Some a \<Longrightarrow>
      s_uin (session_at m a) = u \<Longrightarrow> a \<in> set (sessions_of_uin u m)"
proof -
  have mem: "a \<in> set (sessions_of_uin u m) \<longleftrightarrow> (u, a) \<in> set (uinMap m)" for a
    by (force simp: sessions_of_uin_def)
  show "distinct (sessions_of_uin u m)"
    using assms by (simp add: users_ok_def sessions_of_uin_def distinct_map_filter)
  show "s_uin (session_at m a) = u \<and> findSessionByCid (s_cid (session_at m a)) m = Some a"
    if "a \<in> set (sessions_of_uin u m)"
    using that assms unfolding mem users_ok_def findSessionByCid_def by fast
  show "a \<in> set (sessions_of_uin u m)"
    if "\<forall>b \<in> set (removed m). s_uin (session_at m b) \<noteq> u" "findSessionByCid cid m = Some a"
      "s_uin (session_at m a) = u"
    using that assms unfolding mem users_ok_def findSessionByCid_def by fast
qed

text \<open>What is sent, recorded: to whom and what.\<close>

definition record_send :: "nat \<Rightarrow> 'b \<Rightarrow> (nat \<times> 'b) list \<Rightarrow> (nat \<times> 'b) list res" where
  "record_send a data l = Inr (l @ [(a, data)])"

lemma send_each_recorded: "send_each record_send data as l = Inr (l @ map (\<lambda>a. (a, data)) as)"
  by (induction as arbitrary: l) (simp_all add: record_send_def)

section \<open>Properties\<close>

text \<open>C8: A message to a user goes to sessions of that user that are registered and alive, to each once,
  in every state the manager gets to; and to all of them, unless a session of that user has
  expired before: then those left out are sessions that are registered and kept alive, but that
  \<open>sendToUin\<close> does not find, because the expired one took all entries of the user with it.\<close>

theorem user_sessions_registered:
  assumes "new_SessionManager idle = Inr m0"
    and "run_manager es (setSessionRemoveHandler True m0) = Inr m"
  shows "distinct (sessions_of_uin u m)
    \<and> sendToUin record_send u b m [] = Inr (map (\<lambda>a. (a, b)) (sessions_of_uin u m))
    \<and> sendMultipleToUin record_send u bs m [] = Inr (map (\<lambda>a. (a, bs)) (sessions_of_uin u m))
    \<and> (\<forall>a \<in> set (sessions_of_uin u m). s_uin (sessions m ! a) = u
          \<and> findSessionByCid (s_cid (sessions m ! a)) m = Some a)
    \<and> ((\<forall>b \<in> set (removed m). s_uin (sessions m ! b) \<noteq> u) \<longrightarrow>
        (\<forall>cid a. findSessionByCid cid m = Some a \<longrightarrow> s_uin (sessions m ! a) = u \<longrightarrow>
            a \<in> set (sessions_of_uin u m)))
    \<and> (\<forall>m' rs a. manager_tick m = Inr m' \<longrightarrow> removed m' = removed m @ rs \<longrightarrow> a \<in> set rs \<longrightarrow>
          sessions_of_uin (s_uin (sessions m' ! a)) m' = [])"
proof -
  note N = new_manager_ok [OF assms(1)]
  have "users_ok (setSessionRemoveHandler True m0)"
    using assms(1) by (auto simp: users_ok_def setSessionRemoveHandler_def new_SessionManager_def)
  from run_users [OF N(1) this assms(2)] have m: "manager_ok m" "users_ok m" by simp_all
  show ?thesis
  proof (intro conjI)
    show "distinct (sessions_of_uin u m)" using m(2) by (rule sessions_of_user(1))
    show "sendToUin record_send u b m [] = Inr (map (\<lambda>a. (a, b)) (sessions_of_uin u m))"
      "sendMultipleToUin record_send u bs m [] = Inr (map (\<lambda>a. (a, bs)) (sessions_of_uin u m))"
      by (simp_all add: sendToUin_def sendMultipleToUin_def send_each_recorded)
    show "\<forall>a \<in> set (sessions_of_uin u m). s_uin (sessions m ! a) = u
        \<and> findSessionByCid (s_cid (sessions m ! a)) m = Some a"
      using m(2) by (intro ballI) (rule sessions_of_user(2))
    show "(\<forall>b \<in> set (removed m). s_uin (sessions m ! b) \<noteq> u) \<longrightarrow>
        (\<forall>cid a. findSessionByCid cid m = Some a \<longrightarrow> s_uin (sessions m ! a) = u \<longrightarrow>
            a \<in> set (sessions_of_uin u m))"
      using m(2) by (intro impI allI) (rule sessions_of_user(3))
    show "\<forall>m' rs a. manager_tick m = Inr m' \<longrightarrow> removed m' = removed m @ rs \<longrightarrow> a \<in> set rs \<longrightarrow>
        sessions_of_uin (s_uin (sessions m' ! a)) m' = []"
      using m by (intro impI allI) (rule tick_users(2))
  qed
qed

text \<open>After the first heartbeat of user 7, a message to the user goes to its session, and a timer tick
  leaves the manager in a state in which all of the above holds again.\<close>

theorem user_sessions_registered_witness:
  "\<exists>(m0 :: unit manager) m m'. new_SessionManager 150 = Inr m0
    \<and> run_manager [Heartbeat (peer 1 2) 7 0 0] (setSessionRemoveHandler True m0) = Inr m
    \<and> sessions_of_uin 7 m = [0]
    \<and> run_manager [Heartbeat (peer 1 2) 7 0 0, TimerTick] (setSessionRemoveHandler True m0) = Inr m'
    \<and> distinct (sessions_of_uin 7 m')"
proof -
  obtain m0 :: "unit manager" where m0: "new_SessionManager 150 = Inr m0"
    using new_manager_total by blast
  let ?m0 = "setSessionRemoveHandler True m0"
  note N = new_manager_ok [OF m0]
  have e: "cidMap ?m0 (genConnectId (peer 1 2)) = None" "sessions ?m0 = []" "uinMap ?m0 = []"
    using N(4) m0 by (auto simp: setSessionRemoveHandler_def new_SessionManager_def)
  from heartbeat_new [OF N(1) e(1) refl, of 7 0 0] obtain m where
    m: "handlerHeartbeatReq (peer 1 2) 7 0 0 ?m0 = Inr m" "manager_ok m" by blast
  from m(1) e have "uinMap m = [(7, 0)]"
    by (auto simp: handlerHeartbeatReq_def findSessionByCid_def Let_def addSession_def new_Session_def
      touchSession_def resetTimeout_def split: option.splits)
  then have s: "sessions_of_uin 7 m = [0]" by (simp add: sessions_of_uin_def)
  from run_manager_total [OF N(1), of "[Heartbeat (peer 1 2) 7 0 0, TimerTick]"] obtain m' where
    m': "run_manager [Heartbeat (peer 1 2) 7 0 0, TimerTick] ?m0 = Inr m'" by blast
  have r: "run_manager [Heartbeat (peer 1 2) 7 0 0] ?m0 = Inr m" using m(1) by simp
  from user_sessions_registered [OF m0 m'] have "distinct (sessions_of_uin 7 m')" by (rule conjunct1)
  with m0 r s m' show ?thesis by blast
qed

end
