(* ===== verification/TimeoutStates.thy ===== *)
theory TimeoutStates
  imports HashedWheelTimer
begin

text \<open>
  The life of a single timeout object (\<^verbatim>\<open>include/HashedWheelTimer.hpp\<close>): its state only moves
  forward, from waiting to expired to cancelled, and its task runs at the one step that
  leaves the first of them by expiring.
\<close>

section \<open>The order of the states\<close>

fun stage :: "timeout_state \<Rightarrow> nat" where
  "stage ST_INIT = 0"
| "stage ST_EXPIRED = 1"
| "stage ST_CANCELLED = 2"

instantiation timeout_state :: linorder
begin

definition less_eq_timeout_state :: "timeout_state \<Rightarrow> timeout_state \<Rightarrow> bool" where
  "s \<le> t \<longleftrightarrow> stage s \<le> stage t"

definition less_timeout_state :: "timeout_state \<Rightarrow> timeout_state \<Rightarrow> bool" where
  "s < t \<longleftrightarrow> stage s < stage t"

instance
proof
  fix s t :: timeout_state
  assume "s \<le> t" and "t \<le> s"
  then show "s = t" by (cases s; cases t) (simp_all add: less_eq_timeout_state_def)
qed (auto simp: less_eq_timeout_state_def less_timeout_state_def)

end

lemma init_least [simp]: "ST_INIT \<le> s"
  by (simp add: less_eq_timeout_state_def)

lemma cancelled_greatest [simp]: "s \<le> ST_CANCELLED"
  by (cases s) (simp_all add: less_eq_timeout_state_def)

lemma below_init [simp]: "s \<le> ST_INIT \<longleftrightarrow> s = ST_INIT"
  by (cases s) (simp_all add: less_eq_timeout_state_def)

section \<open>Operations move it forward\<close>

abbreviation state_of :: "'k timeout list \<Rightarrow> nat \<Rightarrow> timeout_state" where
  "state_of st a \<equiv> to_state (st ! a)"

text \<open>From one store to another, with the addresses that rang in between.\<close>

definition moves_on :: "'k timeout list \<Rightarrow> nat list \<Rightarrow> 'k timeout list \<Rightarrow> bool" where
  "moves_on st rang st' \<longleftrightarrow> length st \<le> length st' \<and> (\<forall>a < length st. state_of st a \<le> state_of st' a
     \<and> count_list rang a \<le> (if state_of st a = ST_INIT \<and> state_of st' a \<noteq> ST_INIT then 1 else 0))"

lemma moves_on_refl [simp]: "moves_on st [] st"
  by (simp add: moves_on_def)

lemma count_list_append_le: "count_list (xs @ ys) a = count_list xs a + count_list ys a"
  by (induction xs) auto

lemma moves_on_trans:
  assumes "moves_on st r st1" and "moves_on st1 r' st2"
  shows "moves_on st (r @ r') st2"
  unfolding moves_on_def
proof (intro conjI allI impI)
  show "length st \<le> length st2" using assms by (simp add: moves_on_def)
  fix a
  assume a: "a < length st"
  with assms have 1: "state_of st a \<le> state_of st1 a" "state_of st1 a \<le> state_of st2 a"
    "count_list r a \<le> (if state_of st a = ST_INIT \<and> state_of st1 a \<noteq> ST_INIT then 1 else 0)"
    "count_list r' a \<le> (if state_of st1 a = ST_INIT \<and> state_of st2 a \<noteq> ST_INIT then 1 else 0)"
    by (auto simp: moves_on_def)
  from 1(1,2) show "state_of st a \<le> state_of st2 a" by (rule order_trans)
  show "count_list (r @ r') a \<le> (if state_of st a = ST_INIT \<and> state_of st2 a \<noteq> ST_INIT then 1 else 0)"
    using 1 by (auto simp: count_list_append_le split: if_splits)
qed

lemma moves_on_update:
  assumes "to_state (st ! a) \<le> to_state t"
    and "rang = [] \<or> rang = [a] \<and> to_state (st ! a) = ST_INIT \<and> to_state t \<noteq> ST_INIT"
  shows "moves_on st rang (st[a := t])"
  unfolding moves_on_def
proof (intro conjI allI impI)
  fix b
  assume b: "b < length st"
  show "state_of st b \<le> state_of (st[a := t]) b"
    using assms(1) b by (cases "b = a") simp_all
  show "count_list rang b \<le> (if state_of st b = ST_INIT \<and> state_of (st[a := t]) b \<noteq> ST_INIT then 1 else 0)"
    using assms(2) b by (cases "b = a") auto
qed simp

lemma expire_moves:
  "moves_on st (map fst (map (Pair a) (snd (expire (st ! a))))) (st[a := fst (expire (st ! a))])"
  by (rule moves_on_update) (auto simp: expire_def split: task.splits)

lemma expireTimeouts_moves:
  "expireTimeouts st as = Inr (st', left, fired) \<Longrightarrow> moves_on st (map fst fired) st'"
proof (induction st as arbitrary: left fired rule: expireTimeouts.induct)
  case (2 st a as)
  consider (out) "remainingRounds (st ! a) = 0" | (gone) "remainingRounds (st ! a) \<noteq> 0" "isCancelled (st ! a)"
    | (next_round) "remainingRounds (st ! a) \<noteq> 0" "\<not> isCancelled (st ! a)" by blast
  then show ?case
  proof cases
    case out
    obtain t ks where e: "expire (st ! a) = (t, ks)" by fastforce
    with out "2.prems" obtain f where f: "expireTimeouts (st[a := t]) as = Inr (st', left, f)"
      "fired = map (Pair a) ks @ f" by auto
    from "2.IH"(1) [OF out, of "(t, ks)" t ks] e f(1) have "moves_on (st[a := t]) (map fst f) st'" by simp
    from moves_on_trans [OF expire_moves [of st a, unfolded e fst_conv snd_conv] this] f(2)
    show ?thesis by simp
  next
    case gone
    with "2.IH"(2) "2.prems" show ?thesis by simp
  next
    case next_round
    with "2.prems" obtain t f l where t: "decreaseRounds (st ! a) = Inr t"
      "expireTimeouts (st[a := t]) as = Inr (st', l, f)" "fired = f" by auto
    have "moves_on st [] (st[a := t])"
      using t(1) by (intro moves_on_update) (auto simp: decreaseRounds_def split: if_splits)
    moreover have "moves_on (st[a := t]) (map fst f) st'"
      using "2.IH"(3) [OF next_round t(1)] t(2) by simp
    ultimately have "moves_on st ([] @ map fst f) st'" by (rule moves_on_trans)
    with t(3) show ?thesis by simp
  qed
qed simp

lemma tick_moves: "tick w = Inr (w', fired) \<Longrightarrow> moves_on (timeouts w) (map fst fired) (timeouts w')"
  by (auto simp: tick_def Let_def split: if_splits dest: expireTimeouts_moves)

lemma cancel_moves: "moves_on (timeouts w) [] (timeouts (cancel w a))"
  by (simp add: cancel_def moves_on_update cancel_timeout_def)

lemma add_moves: "addTimeout w k ms = Inr (w', a) \<Longrightarrow> moves_on (timeouts w) [] (timeouts w')"
  by (auto simp: addTimeout_def moves_on_def nth_append Let_def split: if_splits)

lemma run_moves:
  "run_wheel es w = Inr (w', fs) \<Longrightarrow> moves_on (timeouts w) (map fst (concat fs)) (timeouts w')"
proof (induction es arbitrary: w fs)
  case (Cons e es)
  show ?case
  proof (cases e)
    case Tick
    with Cons.prems obtain w1 f gs where t: "tick w = Inr (w1, f)" "run_wheel es w1 = Inr (w', gs)" "fs = f # gs"
      by auto
    from moves_on_trans [OF tick_moves [OF t(1)] Cons.IH [OF t(2)]] t(3) show ?thesis by simp
  next
    case (Add k ms)
    with Cons.prems obtain w1 a where t: "addTimeout w (Run k) ms = Inr (w1, a)" "run_wheel es w1 = Inr (w', fs)"
      by auto
    from moves_on_trans [OF add_moves [OF t(1)] Cons.IH [OF t(2)]] show ?thesis by simp
  next
    case (Cancel a)
    with Cons.prems have "run_wheel es (cancel w a) = Inr (w', fs)" by simp
    from moves_on_trans [OF cancel_moves Cons.IH [OF this]] show ?thesis by simp
  qed
qed simp

section \<open>Properties\<close>

text \<open>C11: Whatever ticks, additions and cancellations come, a timeout's state only moves forward (waiting,
  expired, cancelled), so an expired or cancelled timeout never waits again, and its task runs at
  most once in all: not at all if the timeout still waits at the end, or did not at the beginning.\<close>

theorem timeout_runs_at_most_once:
  assumes "run_wheel es w = Inr (w', fs)" and "a < length (timeouts w)"
  shows "to_state (timeouts w ! a) \<le> to_state (timeouts w' ! a)
    \<and> count_list (map fst (concat fs)) a
      \<le> (if to_state (timeouts w ! a) = ST_INIT \<and> to_state (timeouts w' ! a) \<noteq> ST_INIT then 1 else 0)"
  using run_moves [OF assms(1)] assms(2) by (simp add: moves_on_def)

theorem timeout_runs_at_most_once_witness:
  "\<exists>w0 w1 w2 fs a. new_HashedWheelTimer 100 4 = Inr (w0 :: nat wheel) \<and> addTimeout w0 (Run 5) 100 = Inr (w1, a)
    \<and> run_wheel [Tick, Tick, Cancel a, Tick] w1 = Inr (w2, fs) \<and> count_list (map fst (concat fs)) a \<le> 1"
proof -
  define w0 :: "nat wheel" where "w0 = projr (new_HashedWheelTimer 100 4)"
  have 0: "new_HashedWheelTimer 100 4 = Inr w0" unfolding w0_def by code_simp
  note ok0 = new_wheel_ok(1) [OF _ 0, simplified]
  from wheel.add_law [OF ok0, of 5 100] obtain w1 a
    where 1: "addTimeout w0 (Run 5) 100 = Inr (w1, a)" "wheel_ok w1" "a < length (timeouts w1)"
    by auto
  from wheel.run_total [OF 1(2), of "[Tick, Tick, Cancel a, Tick]"] obtain w2 fs where
    2: "run_wheel [Tick, Tick, Cancel a, Tick] w1 = Inr (w2, fs)" by blast
  from timeout_runs_at_most_once [OF 2 1(3)] have "count_list (map fst (concat fs)) a \<le> 1"
    by (auto split: if_splits)
  with 0 1 2 show ?thesis by blast
qed

end
