(* ===== verification/UdpDispatch.thy ===== *)
theory UdpDispatch
  imports Dispatcher Source
begin

text \<open>
  An endpoint whose new-message handler is the dispatcher of a packet format: \<open>handleRead\<close> of
  \<^verbatim>\<open>include/UdpEndpoint.hpp\<close> gives each datagram, in a buffer of its own, to \<open>dispatch\<close> of
  \<^verbatim>\<open>netpack/NetPackDispatcher.hpp\<close> with a \<open>UdpSource\<close> for its sender. The handlers of the
  dispatcher change the user's state.
\<close>

section \<open>Reading with a stateful handler\<close>

text \<open>The handler gets the buffer and the sender; \<open>None\<close> is a handler that does not return.\<close>

type_synonym 'u datagram_handler = "mem \<Rightarrow> nat \<Rightarrow> u32 \<Rightarrow> u16 \<Rightarrow> 'u \<Rightarrow> (mem \<times> 'u) res option"

fun udp_serve :: "'u datagram_handler \<Rightarrow> epoll_ctl \<Rightarrow> recv_result list \<Rightarrow> endpoint \<Rightarrow> 'u
    \<Rightarrow> (endpoint \<times> 'u) res option" where
  "udp_serve h ctl [] e u = Some (Inr (e, u))"
| "udp_serve h ctl (Datagram bs raddr # rs) e u =
     (if recv_size (u_store e) (u_rcvBuf e) bs > 0
      then (case recvfrom (u_store e) (u_rcvBuf e) bs of
          Inl x \<Rightarrow> Some (Inl x)
        | Inr m \<Rightarrow> (case h m (u_rcvBuf e) (ip raddr) (port raddr) u of
            None \<Rightarrow> None
          | Some (Inl x) \<Rightarrow> Some (Inl x)
          | Some (Inr (m1, u1)) \<Rightarrow> (case new_VecBuffer m1 (mtu e) of
              Inl x \<Rightarrow> Some (Inl x)
            | Inr (m2, b) \<Rightarrow> udp_serve h ctl rs (e\<lparr>u_store := m2, u_rcvBuf := b,
                received := received e @ [(readable m (u_rcvBuf e), ip raddr, port raddr)]\<rparr>) u1)))
      else Some (bind_res (udp_detach ctl e) (\<lambda>e'. Inr (udp_close e', u))))"
| "udp_serve h ctl (Recv_error errno # rs) e u =
     (if errno \<noteq> 11 \<and> errno \<noteq> 4
      then Some (bind_res (udp_detach ctl e) (\<lambda>e'. Inr (udp_close e', u))) else Some (Inr (e, u)))"

text \<open>With a handler that only looks it is \<open>handleRead\<close>.\<close>

lemma udp_serve_observer:
  "udp_serve (\<lambda>m p rip rport u. Some (Inr (m, u))) ctl rs e u
    = Some (map_sum id (\<lambda>e'. (e', u)) (udp_handleRead ctl rs e))"
proof (induction ctl rs e rule: udp_handleRead.induct)
  case (2 ctl bs raddr rs e)
  show ?case
  proof (cases "recvfrom (u_store e) (u_rcvBuf e) bs")
    case (Inr m)
    with 2 show ?thesis
      by (cases "new_VecBuffer m (mtu e)"; cases "udp_detach ctl e") auto
  qed (cases "udp_detach ctl e"; simp)+
next
  case (3 ctl errno rs e)
  then show ?case by (cases "udp_detach ctl e") simp_all
qed simp

lemma fold_res_map: "fold_res h (map f xs) u = fold_res (\<lambda>x. h (f x)) xs u"
proof (induction xs arbitrary: u)
  case (Cons x xs)
  then show ?case by (cases "h (f x) u") simp_all
qed simp

section \<open>Datagrams of packets\<close>

context netpack
begin

abbreviation serving ::
  "('c, 'v \<times> 'src, 'u) dispatcher \<Rightarrow> (u32 \<Rightarrow> u16 \<Rightarrow> 'src) \<Rightarrow> 'u datagram_handler" where
  "serving d mk \<equiv> (\<lambda>m p rip rport u. loop d m p (mk rip rport) u)"

text \<open>One datagram: its complete packets are handled, and the endpoint is ready for the next.\<close>

lemma udp_round:
  assumes "ready_to_receive e" and "bs \<noteq> []" and "mtu e + max_packet \<le> max_vec"
    and "decode_stream nxt (take (mtu e) bs) = (vs, rest, True)"
  shows "case fold_res (deliver d (mk (ip a) (port a))) vs u of
      Inl x \<Rightarrow> udp_serve (serving d mk) ctl (Datagram bs a # rs) e u = Some (Inl x)
    | Inr u' \<Rightarrow> \<exists>e'. udp_serve (serving d mk) ctl (Datagram bs a # rs) e u
          = udp_serve (serving d mk) ctl rs e' u' \<and> ready_to_receive e' \<and> mtu e' = mtu e"
proof -
  let ?m = "u_store e" and ?b = "u_rcvBuf e"
  from assms(1) have v: "valid ?m ?b" "readable ?m ?b = []" "writtableSize ?m ?b = mtu e"
    "0 < mtu e" "mtu e \<le> max_vec" "length (data_of ?m ?b) = mtu e"
    by (simp_all add: ready_to_receive_def)
  obtain m where m: "append_bytes ?m ?b (take (mtu e) bs) = Inr m"
    using v(3) by (simp add: append_bytes_eq [OF v(1)])
  have vm: "valid m ?b" using append_bytes_valid [OF v(1) m v(1)] .
  have dec: "decode_stream nxt (readable m ?b) = (vs, rest, True)"
    using append_bytes_readable [OF v(1) m] v(2) assms(4) by simp
  have "roomy max_packet m ?b"
    using append_bytes_length [OF v(1) m] v(6) assms(3) by (simp add: roomy_def)
  from v assms(2) m have r: "0 < recv_size ?m ?b bs" "recvfrom ?m ?b bs = Inr m"
    by (simp_all add: recv_size_def recvfrom_def)
  from vm dec \<open>roomy max_packet m ?b\<close> show ?thesis
  proof (cases rule: loop_total [where d = d and src = "mk (ip a) (port a)" and u = u])
    case (stop x)
    with r show ?thesis by simp
  next
    case (go m1 u1)
    have mo: "mem_ok m1" using go(3) by (simp add: valid_def)
    obtain m2 q where n: "new_VecBuffer m1 (mtu e) = Inr (m2, q)"
      using v(5) by (simp add: new_VecBuffer_def)
    let ?e = "e\<lparr>u_store := m2, u_rcvBuf := q,
      received := received e @ [(readable m ?b, ip a, port a)]\<rparr>"
    have "ready_to_receive ?e"
      using new_VecBuffer_Inr [OF mo n] v(4,5) by (simp add: ready_to_receive_def)
    with r go n show ?thesis by (simp, intro exI [of _ ?e]) simp
  qed
qed

text \<open>The messages of a datagram, each with its source.\<close>

definition messages_of :: "nat \<Rightarrow> (u32 \<Rightarrow> u16 \<Rightarrow> 'src) \<Rightarrow> byte list \<times> sockaddr_in \<Rightarrow> ('v \<times> 'src) list" where
  "messages_of n mk x = (case x of (bs, a) \<Rightarrow>
     map (\<lambda>v. (v, mk (ip a) (port a))) (fst (decode_stream nxt (take n bs))))"

lemma udp_serve_decodes:
  assumes "ready_to_receive e" and "mtu e + max_packet \<le> max_vec"
    and "\<forall>(bs, a) \<in> set ds. bs \<noteq> [] \<and> snd (snd (decode_stream nxt (take (mtu e) bs)))"
  shows "case fold_res (\<lambda>(v, src). deliver d src v) (concat (map (messages_of (mtu e) mk) ds)) u of
      Inl x \<Rightarrow> udp_serve (serving d mk) ctl (map (\<lambda>(bs, a). Datagram bs a) ds @ rs) e u = Some (Inl x)
    | Inr u' \<Rightarrow> \<exists>e'. udp_serve (serving d mk) ctl (map (\<lambda>(bs, a). Datagram bs a) ds @ rs) e u
          = udp_serve (serving d mk) ctl rs e' u' \<and> ready_to_receive e'"
  using assms
proof (induction ds arbitrary: e u)
  case Nil
  then show ?case by auto
next
  case (Cons x ds)
  obtain bs a where x: "x = (bs, a)" by fastforce
  obtain vs rest where dec: "decode_stream nxt (take (mtu e) bs) = (vs, rest, True)"
    using Cons.prems(3) x by (cases "decode_stream nxt (take (mtu e) bs)") auto
  let ?s = "mk (ip a) (port a)"
  have ms: "messages_of (mtu e) mk x = map (\<lambda>v. (v, ?s)) vs" by (simp add: messages_of_def x dec)
  have f: "fold_res (\<lambda>(v, src). deliver d src v) (messages_of (mtu e) mk x) u
      = fold_res (deliver d ?s) vs u" by (simp add: ms fold_res_map)
  have "bs \<noteq> []" using Cons.prems(3) x by simp
  note R = udp_round [OF Cons.prems(1) this Cons.prems(2) dec, where d = d and mk = mk and a = a and u = u and ctl = ctl]
  show ?case
  proof (cases "fold_res (deliver d ?s) vs u")
    case (Inl y)
    with R f x show ?thesis by (simp add: fold_res_append)
  next
    case (Inr u1)
    with R obtain e1 where e1: "udp_serve (serving d mk) ctl
        (map (\<lambda>(bs, a). Datagram bs a) (x # ds) @ rs) e u
        = udp_serve (serving d mk) ctl (map (\<lambda>(bs, a). Datagram bs a) ds @ rs) e1 u1"
      "ready_to_receive e1" "mtu e1 = mtu e"
      unfolding x by (auto simp del: udp_serve.simps)
    have "mtu e1 + max_packet \<le> max_vec" using e1(3) Cons.prems(2) by simp
    moreover have "\<forall>(bs, a) \<in> set ds. bs \<noteq> [] \<and> snd (snd (decode_stream nxt (take (mtu e1) bs)))"
      using e1(3) Cons.prems(3) by simp
    ultimately show ?thesis
      using Cons.IH [OF e1(2), of u1] Inr f e1(3) unfolding e1(1) by (simp add: fold_res_append)
  qed
qed

end

section \<open>The packet format\<close>

text \<open>The new-message handler of an endpoint that speaks the packet format.\<close>

definition flnp_datagrams :: "(u32, view \<times> 'c source, 'u) dispatcher \<Rightarrow> 'c \<Rightarrow> 'u datagram_handler" where
  "flnp_datagrams d ept m p rip rport u = flnp_dispatch (on_views d) m p (new_UdpSource ept rip rport) u"

text \<open>What a peer sends in one datagram: packets, then bytes that are not a complete packet.\<close>

definition datagram_of :: "view list \<Rightarrow> byte list \<Rightarrow> byte list" where
  "datagram_of vs tail = concat (map packet_of vs) @ tail"

lemma serve_packets:
  assumes "ready_to_receive e" and "mtu e + 32767 \<le> max_vec"
    and "\<forall>(vs, tail, a) \<in> set ds. (\<forall>v \<in> set vs. sendable v) \<and> next_frame tail = Need_more
      \<and> datagram_of vs tail \<noteq> [] \<and> length (datagram_of vs tail) \<le> mtu e"
  shows "case fold_res (\<lambda>(v, src). dispatch d (v_cmd v) (v, src))
      (concat (map (\<lambda>(vs, tail, a). map (\<lambda>v. (v, new_UdpSource ept (ip a) (port a))) vs) ds)) u of
      Inl x \<Rightarrow> udp_serve (flnp_datagrams d ept) ctl
        (map (\<lambda>(vs, tail, a). Datagram (datagram_of vs tail) a) ds @ [Recv_error 11]) e u = Some (Inl x)
    | Inr u' \<Rightarrow> \<exists>e'. udp_serve (flnp_datagrams d ept) ctl
        (map (\<lambda>(vs, tail, a). Datagram (datagram_of vs tail) a) ds @ [Recv_error 11]) e u
          = Some (Inr (e', u')) \<and> ready_to_receive e'"
proof -
  let ?d = "\<lambda>(vs, tail, a). (datagram_of vs tail, a)"
  let ?mk = "\<lambda>rip rport. new_UdpSource ept rip rport"
  have h: "flnp_datagrams d ept = flnp.serving d ?mk"
    by (intro ext) (simp add: flnp_datagrams_def flnp_dispatch_def on_views_def)
  have dec: "decode_stream next_frame (take (mtu e) (datagram_of vs tail)) = (vs, tail, True)"
    if "(vs, tail, a) \<in> set ds" for vs tail a
  proof -
    have "\<forall>v \<in> set vs. sendable v" "next_frame tail = Need_more" "length (datagram_of vs tail) \<le> mtu e"
      using assms(3) that by auto
    then show ?thesis by (simp add: datagram_of_def decode_stream_packets)
  qed
  have ok: "\<forall>(bs, a) \<in> set (map ?d ds). bs \<noteq> [] \<and> snd (snd (decode_stream next_frame (take (mtu e) bs)))"
    using assms(3) dec by fastforce
  have ms: "map (flnp.messages_of (mtu e) ?mk) (map ?d ds)
      = map (\<lambda>(vs, tail, a). map (\<lambda>v. (v, new_UdpSource ept (ip a) (port a))) vs) ds"
    using dec by (auto simp: flnp.messages_of_def)
  have rs: "map (\<lambda>(bs, a). Datagram bs a) (map ?d ds)
      = map (\<lambda>(vs, tail, a). Datagram (datagram_of vs tail) a) ds" by auto
  from flnp.udp_serve_decodes [OF assms(1,2) ok, where d = d and mk = ?mk and u = u and ctl = ctl
      and rs = "[Recv_error 11]"]
  show ?thesis unfolding h ms rs by (auto split: sum.split_asm)
qed

section \<open>Properties\<close>

text \<open>C18: From datagrams to the handlers. Datagrams are waiting from any senders, each holding the
  packets of some messages and perhaps the beginning of another one, not empty and no longer than
  the MTU. One \<open>handleRead\<close> calls the handlers exactly on the complete messages, in order, each
  with a source that has its datagram's sender; an incomplete rest goes with its datagram and is
  never joined with the next one. A failing handler is the failure of \<open>handleRead\<close>; otherwise it
  returns with the endpoint ready for more.\<close>

theorem udp_delivers_messages:
  assumes "ready_to_receive e" and "mtu e + 32767 \<le> max_vec"
    and "\<forall>(vs, tail, a) \<in> set ds. (\<forall>v \<in> set vs. sendable v) \<and> next_frame tail = Need_more
      \<and> datagram_of vs tail \<noteq> [] \<and> length (datagram_of vs tail) \<le> mtu e"
  shows "case fold_res (\<lambda>(v, src). dispatch d (v_cmd v) (v, src))
      (concat (map (\<lambda>(vs, tail, a). map (\<lambda>v. (v, new_UdpSource ept (ip a) (port a))) vs) ds)) u of
      Inl x \<Rightarrow> udp_serve (flnp_datagrams d ept) ctl
        (map (\<lambda>(vs, tail, a). Datagram (datagram_of vs tail) a) ds @ [Recv_error 11]) e u = Some (Inl x)
    | Inr u' \<Rightarrow> \<exists>e'. udp_serve (flnp_datagrams d ept) ctl
        (map (\<lambda>(vs, tail, a). Datagram (datagram_of vs tail) a) ds @ [Recv_error 11]) e u
          = Some (Inr (e', u')) \<and> ready_to_receive e'"
  using assms by (rule serve_packets)

text \<open>A handler that records the command of a message and its sender.\<close>

definition source_recorder :: "(u32, view \<times> unit source, (u32 \<times> u32) list) dispatcher" where
  "source_recorder = registerAny new_Dispatcher
     (Some (\<lambda>(v, src) us. Inr (us @ [(v_cmd v, getPeerIp src)])))"

lemma source_recorder_dispatch:
  "dispatch source_recorder cmd (v, src) us = Inr (us @ [(v_cmd v, getPeerIp src)])"
  by (simp add: source_recorder_def registerAny_def new_Dispatcher_def dispatch_def)

text \<open>An endpoint with an MTU of 16 bytes.\<close>

definition demo_endpoint16 :: endpoint where
  "demo_endpoint16 = demo_endpoint\<lparr>mtu := 16, u_store := \<lparr>vecs = [replicate 16 0],
     bufs = [\<lparr>vb_offset = 0, vb_len = 0, vb_buffer = 0\<rparr>]\<rparr>\<rparr>"

lemma demo_endpoint16_ready: "ready_to_receive demo_endpoint16" "mtu demo_endpoint16 = 16"
  by (simp_all add: ready_to_receive_def demo_endpoint16_def demo_endpoint_def valid_def mem_ok_def
      vb_ok_def readable_def writtableSize_def max_vec_def)

theorem udp_delivers_messages_witness:
  "\<exists>e'. udp_serve (flnp_datagrams source_recorder ()) sample_ctl
      [Datagram (datagram_of [demo_view] [0]) (InetAddr_ip 9 80),
       Datagram (datagram_of [] [5]) (InetAddr_ip 8 80), Recv_error 11] demo_endpoint16 []
    = Some (Inr (e', [(42, 9)]))"
proof -
  let ?ds = "[([demo_view], [0], InetAddr_ip 9 80), ([], [5], InetAddr_ip 8 80)]"
  have m: "mtu demo_endpoint16 + 32767 \<le> max_vec" by (simp add: demo_endpoint16_ready max_vec_def)
  have ok: "\<forall>(vs, tail, a) \<in> set ?ds. (\<forall>v \<in> set vs. sendable v) \<and> next_frame tail = Need_more
      \<and> datagram_of vs tail \<noteq> [] \<and> length (datagram_of vs tail) \<le> mtu demo_endpoint16"
    by (simp add: demo_endpoint16_ready datagram_of_def proto_of_def next_frame_def packet_bytes_def)
  from udp_delivers_messages [OF demo_endpoint16_ready(1) m ok, where d = source_recorder and ept = "()"
      and u = "[]" and ctl = sample_ctl]
  show ?thesis
    by (auto simp: source_recorder_dispatch InetAddr_reads simp del: packet_of.simps udp_serve.simps)
qed

end
