(* ===== verification/TcpClient.thy ===== *)
theory TcpClient
  imports TcpServer
begin

text \<open>
  \<^verbatim>\<open>TcpConnector.cpp\<close>, \<^verbatim>\<open>TcpClient.cpp\<close> and their headers: a client owns a looper (here
  its epoll instance), a connector whose channel watches the socket it connects, and the
  connection built on that socket once it is connected. The calls the code posts to the loop
  are functions of their own, run when the loop gets to them.
\<close>

section \<open>The connector\<close>

datatype connector_callback = Connector_handleRead

record connector =
  cn_channel :: "connector_callback channel"
  cn_open :: bool
  remoteAddr :: sockaddr_in
  cn_onNewConn_set :: bool

definition new_TcpConnector ::
  "epoll_ctl \<Rightarrow> interest \<Rightarrow> int \<Rightarrow> (sockaddr_in \<Rightarrow> int) \<Rightarrow> u16 \<Rightarrow> sockaddr_in \<Rightarrow> (connector \<times> interest) res"
where
  "new_TcpConnector ctl k fd call_bind localPort remote =
     bind_res (new_StreamSocket fd call_bind localPort) (\<lambda>fd.
     assert_then (fd \<noteq> 0)
     (bind_res (enableRead ctl True (setReadCallback (User Connector_handleRead) (new_Channel fd), k))
       (\<lambda>(ch, k'). Inr (\<lparr>cn_channel = ch, cn_open = True, remoteAddr = remote,
                         cn_onNewConn_set = False\<rparr>, k'))))"

definition cn_attach :: "epoll_ctl \<Rightarrow> connector \<times> interest \<Rightarrow> (connector \<times> interest) res" where
  "cn_attach ctl = (\<lambda>(c, k). bind_res (attach ctl (cn_channel c, k))
     (\<lambda>(ch, k'). Inr (c\<lparr>cn_channel := ch\<rparr>, k')))"

definition cn_detach :: "epoll_ctl \<Rightarrow> connector \<times> interest \<Rightarrow> (connector \<times> interest) res" where
  "cn_detach ctl = (\<lambda>(c, k). bind_res (detach ctl (cn_channel c, k))
     (\<lambda>(ch, k'). Inr (c\<lparr>cn_channel := ch\<rparr>, k')))"

text \<open>\<open>connectInternal\<close>: \<open>connect\<close> returned \<open>ret\<close>; a failure is logged and not retried.\<close>

definition connectInternal ::
  "(int \<Rightarrow> sockaddr_in \<Rightarrow> 's \<Rightarrow> 's res) \<Rightarrow> int \<Rightarrow> connector \<Rightarrow> 's \<Rightarrow> 's res" where
  "connectInternal onNewConn ret cn s =
     (if ret = 0
      then if cn_onNewConn_set cn
           then onNewConn (if cn_open cn then ch_fd (cn_channel cn) else - 1) (remoteAddr cn) s
           else Inl BadFunctionCall
      else Inr s)"

definition disconnectInternal :: "connector \<times> interest \<Rightarrow> connector \<times> interest" where
  "disconnectInternal = (\<lambda>(cn, k).
     if cn_open cn then (cn\<lparr>cn_open := False\<rparr>, k(ch_fd (cn_channel cn) := None)) else (cn, k))"

section \<open>The client\<close>

record client =
  cl_epoll :: interest
  cl_connector :: connector
  cl_thread :: bool
  spConn :: "connection option"
  cl_newConnHandler :: "(connection \<Rightarrow> connection res) option"
  cl_newMsgHandler :: "message_handler option"

text \<open>The address of the peer is text, \<open>pton\<close> is \<open>inet_pton\<close>.\<close>

definition new_TcpClient ::
  "epoll_ctl \<Rightarrow> interest \<Rightarrow> int \<Rightarrow> (string \<Rightarrow> u32 option) \<Rightarrow> string \<Rightarrow> u16 \<Rightarrow> client res" where
  "new_TcpClient ctl k fd pton rip rport =
     bind_res (new_TcpConnector ctl k fd (\<lambda>_. 0) 0 (InetAddr_str pton rip rport)) (\<lambda>(cn, k').
     Inr \<lparr>cl_epoll = k', cl_connector = cn, cl_thread = False, spConn = None,
          cl_newConnHandler = None, cl_newMsgHandler = None\<rparr>)"

definition cl_setConnectionHandler ::
  "(connection \<Rightarrow> connection res) option \<Rightarrow> client \<Rightarrow> client" where
  "cl_setConnectionHandler h c = c\<lparr>cl_newConnHandler := h\<rparr>"

definition cl_setMessageHandler :: "message_handler option \<Rightarrow> client \<Rightarrow> client" where
  "cl_setMessageHandler h c = c\<lparr>cl_newMsgHandler := h\<rparr>"

text \<open>An operation on the client's connection.\<close>

definition on_spConn :: "(connection \<Rightarrow> connection res) \<Rightarrow> client \<Rightarrow> client res" where
  "on_spConn f c = (case spConn c of
       None \<Rightarrow> Inl NullDeref
     | Some co \<Rightarrow> bind_res (f (co\<lparr>epoll := cl_epoll c\<rparr>))
         (\<lambda>co'. Inr (c\<lparr>spConn := Some co', cl_epoll := epoll co'\<rparr>)))"

definition cl_onNewConnection :: "epoll_ctl \<Rightarrow> int \<Rightarrow> sockaddr_in \<Rightarrow> client \<Rightarrow> client res" where
  "cl_onNewConnection ctl fd addr c =
     bind_res (new_TcpConnection ctl (cl_epoll c) \<lparr>vecs = [], bufs = []\<rparr> fd (ip addr, port addr))
       (\<lambda>co. let c1 = c\<lparr>spConn := Some co\<rparr> in
         case cl_newConnHandler c of None \<Rightarrow> Inr c1 | Some h \<Rightarrow> on_spConn h c1)"

text \<open>\<open>startWork\<close> attaches the connector; the connecting it posts is \<open>cl_connect\<close>.\<close>

definition cl_startWork :: "epoll_ctl \<Rightarrow> client \<Rightarrow> client res" where
  "cl_startWork ctl c =
     bind_res (cn_attach ctl ((cl_connector c)\<lparr>cn_onNewConn_set := True\<rparr>, cl_epoll c))
       (\<lambda>(cn, k). Inr (c\<lparr>cl_thread := True, cl_connector := cn, cl_epoll := k\<rparr>))"

definition cl_connect :: "epoll_ctl \<Rightarrow> int \<Rightarrow> client \<Rightarrow> client res" where
  "cl_connect ctl ret c = connectInternal (cl_onNewConnection ctl) ret (cl_connector c) c"

text \<open>\<open>stopWork\<close>, with \<open>disconnectInternal\<close> run by the loop before it ends; joining needs a thread.\<close>

definition cl_stopWork :: "epoll_ctl \<Rightarrow> client \<Rightarrow> client res" where
  "cl_stopWork ctl c =
     bind_res (cn_detach ctl (cl_connector c, cl_epoll c)) (\<lambda>s.
     let (cn, k) = disconnectInternal s in
     if cl_thread c then Inr (c\<lparr>cl_connector := cn, cl_epoll := k\<rparr>) else Inl NullDeref)"

section \<open>Properties\<close>

text \<open>A client that has been started, on a socket nobody else watches.\<close>

definition started_on :: "epoll_ctl \<Rightarrow> int \<Rightarrow> client \<Rightarrow> bool" where
  "started_on ctl fd c \<longleftrightarrow> (\<exists>k pton rip rport h mh c0. k fd = None
     \<and> new_TcpClient ctl k fd pton rip rport = Inr c0
     \<and> cl_startWork ctl (cl_setMessageHandler mh (cl_setConnectionHandler h c0)) = Inr c)"

lemma started_fields:
  assumes "epoll_documented ctl" and "started_on ctl fd c"
  shows "fd > 0" "ch_fd (cn_channel (cl_connector c)) = fd" "attached (cn_channel (cl_connector c))"
    "cl_epoll c fd \<noteq> None" "cn_onNewConn_set (cl_connector c)" "cn_open (cl_connector c)" "cl_thread c"
proof -
  from assms(2) obtain k pton rip rport h mh c0 where k: "k fd = None"
    and n: "new_TcpClient ctl k fd pton rip rport = Inr c0"
    and st: "cl_startWork ctl (cl_setMessageHandler mh (cl_setConnectionHandler h c0)) = Inr c"
    by (auto simp: started_on_def)
  from n have c0: "fd > 0" "ch_fd (cn_channel (cl_connector c0)) = fd"
    "\<not> attached (cn_channel (cl_connector c0))" "cl_epoll c0 = k" "cn_open (cl_connector c0)"
    by (auto simp: new_TcpClient_def new_TcpConnector_def new_StreamSocket_def channel_eval)
  then have "attach ctl (cn_channel (cl_connector c0), k)
      = Inr ((cn_channel (cl_connector c0))\<lparr>attached := True\<rparr>,
             k(fd \<mapsto> ch_events (cn_channel (cl_connector c0))))"
    using attach_fresh [OF assms(1), of "cn_channel (cl_connector c0)" k] k by simp
  with st c0 have "c = (cl_setMessageHandler mh (cl_setConnectionHandler h c0))\<lparr>cl_thread := True,
      cl_connector := (cl_connector c0)\<lparr>cn_onNewConn_set := True,
        cn_channel := (cn_channel (cl_connector c0))\<lparr>attached := True\<rparr>\<rparr>,
      cl_epoll := k(fd \<mapsto> ch_events (cn_channel (cl_connector c0)))\<rparr>"
    by (simp add: cl_startWork_def cn_attach_def cl_setMessageHandler_def cl_setConnectionHandler_def)
  with c0 show "fd > 0" "ch_fd (cn_channel (cl_connector c)) = fd"
    "attached (cn_channel (cl_connector c))"
    "cl_epoll c fd \<noteq> None" "cn_onNewConn_set (cl_connector c)" "cn_open (cl_connector c)" "cl_thread c"
    by (simp_all add: cl_setMessageHandler_def cl_setConnectionHandler_def)
qed

text \<open>C35: The connection of a client cannot be used: the connector stays attached on the very
  descriptor the connection is built on, so a connection handler that attaches it, as those of
  a server do, aborts the process; without one, attaching it later does. The message handler the
  user gave the client is not installed either. A failed \<open>connect\<close> changes nothing.\<close>

theorem client_connection_unusable:
  assumes "epoll_documented ctl" and "started_on ctl fd c"
  shows "(ret \<noteq> 0 \<longrightarrow> cl_connect ctl ret c = Inr c)
    \<and> (cl_newConnHandler c = Some (attach_on_connect ctl mh cl)
         \<longrightarrow> cl_connect ctl 0 c = Inl AssertFail)
    \<and> (cl_newConnHandler c = None \<longrightarrow> (\<exists>c' co. cl_connect ctl 0 c = Inr c' \<and> spConn c' = Some co
         \<and> newMessageHandler co = None \<and> on_spConn (tcp_attach ctl) c' = Inl AssertFail))"
proof -
  note st = started_fields [OF assms]
  from new_TcpConnection_eq [of fd ctl "cl_epoll c" "(ip (remoteAddr (cl_connector c)),
      port (remoteAddr (cl_connector c)))"] st(1) obtain co
    where conn: "new_TcpConnection ctl (cl_epoll c) \<lparr>vecs = [], bufs = []\<rparr> fd
        (ip (remoteAddr (cl_connector c)), port (remoteAddr (cl_connector c))) = Inr co"
      "epoll co = cl_epoll c" "ch_fd (tcp_channel co) = fd" "\<not> attached (tcp_channel co)"
      "newMessageHandler co = None" by auto
  then have busy: "attach ctl (tcp_channel co, cl_epoll c) = Inl AssertFail"
    using attach_twice [OF assms(1), of "tcp_channel co" "cl_epoll c"] st(1,4) by simp
  have "cl_connect ctl 0 c = cl_onNewConnection ctl fd (remoteAddr (cl_connector c)) c"
    using st by (simp add: cl_connect_def connectInternal_def)
  with conn busy show ?thesis
    by (auto simp: cl_onNewConnection_def on_spConn_def attach_on_connect_def tcp_attach_def Let_def
        setTcpCloseHandler_def setNewMessageHandler_def cl_connect_def connectInternal_def)
qed

definition demo_client :: client where
  "demo_client = projr (cl_startWork sample_ctl (cl_setMessageHandler (Some observe)
     (cl_setConnectionHandler (Some (attach_on_connect sample_ctl (Some observe) True))
       (projr (new_TcpClient sample_ctl (\<lambda>_. None) 3 (\<lambda>_. Some 0x0100007F) ''127.0.0.1'' 3001)))))"

lemmas client_eval = new_TcpClient_def new_TcpConnector_def cl_startWork_def cn_attach_def
  cl_setMessageHandler_def cl_setConnectionHandler_def

lemma demo_client_started: "started_on sample_ctl 3 demo_client"
  unfolding started_on_def
  by (intro exI [of _ "\<lambda>_. None"] exI [of _ "\<lambda>_. Some 0x0100007F"] exI [of _ "''127.0.0.1''"]
      exI [of _ 3001] exI [of _ "Some (attach_on_connect sample_ctl (Some observe) True)"]
      exI [of _ "Some observe"] exI [of _ "projr (new_TcpClient sample_ctl (\<lambda>_. None) 3
        (\<lambda>_. Some 0x0100007F) ''127.0.0.1'' 3001)"] conjI)
    (simp_all add: demo_client_def client_eval server_eval)

theorem client_connection_unusable_witness:
  "cl_connect sample_ctl 0 demo_client = Inl AssertFail"
proof -
  have "cl_newConnHandler demo_client = Some (attach_on_connect sample_ctl (Some observe) True)"
    by (simp add: demo_client_def client_eval server_eval)
  with client_connection_unusable [OF sample_ctl_documented demo_client_started,
      of 0 "Some observe" True] show ?thesis by blast
qed

end
