(* ===== verification/BitmapTree.thy ===== *)
theory BitmapTree
  imports Prelude
begin

text \<open>
  \<^verbatim>\<open>include/BitmapTree.hpp\<close> and \<^verbatim>\<open>BitmapTree.cpp\<close>: a tree of bitmaps that
  hands out the least free index. A layer is a vector of 64-bit words, bit \<open>i\<close> counted from the
  most significant end; a set bit of a layer says that the word below it is not zero, and a set
  bit of the last layer that its index is free. Indexes are converted to \<open>uint\<close> and \<open>int\<close> where
  the code converts them.
\<close>

section \<open>Conversions and the leading zeros\<close>

definition to_uint :: "int \<Rightarrow> nat" where
  "to_uint x = nat (x mod 2 ^ 32)"

definition to_int :: "nat \<Rightarrow> int" where
  "to_int n = (if n < 2 ^ 31 then int n else int n - 2 ^ 32)"

text \<open>\<open>__builtin_clzl\<close> on a word that is not zero.\<close>

definition clzl :: "u64 \<Rightarrow> nat" where
  "clzl w = length (takeWhile (\<lambda>i. \<not> bit w (63 - i)) [0..<64])"

section \<open>Layers\<close>

record layer =
  bits :: "u64 list"
  lwords :: nat
  tailBits :: nat
  layer_size :: nat

definition calculate_lwords :: "nat \<Rightarrow> nat" where
  "calculate_lwords n = sz_sub (sz_add n 64) 1 div 64"

definition new_layer :: "nat \<Rightarrow> layer" where
  "new_layer n =
     (if n > 0
      then (let k = calculate_lwords n; tail = n mod 64; ws = replicate k (- 1) in
        \<lparr>bits = (if tail \<noteq> 0 then ws[k - 1 := ws ! (k - 1) AND push_bit (64 - tail) (- 1)] else ws),
         lwords = k, tailBits = tail, layer_size = n\<rparr>)
      else \<lparr>bits = [], lwords = 0, tailBits = 0, layer_size = n\<rparr>)"

text \<open>
  \<open>set\<close>: \<open>1 << n\<close> is an \<open>int\<close>. A count of 32 or more is undefined, and \<open>1 << 31\<close> is the least
  \<open>int\<close>, which becomes the word with its upper 33 bits set.
\<close>

definition int_shifted_one :: "nat \<Rightarrow> u64 res" where
  "int_shifted_one n = (if n \<ge> 32 then Inl BadShift
     else if n = 31 then Inr (push_bit 31 (- 1)) else Inr (push_bit n 1))"

definition layer_set :: "layer \<Rightarrow> nat \<Rightarrow> (layer \<times> bool) res" where
  "layer_set l bitIdx =
     (if bitIdx > layer_size l then Inr (l, False)
      else let lwoff = bitIdx div 64 in
        if lwoff < length (bits l)
        then let upApply = (bits l ! lwoff = 0) in
          bind_res (int_shifted_one (64 - 1 - bitIdx mod 64))
            (\<lambda>m. Inr (l\<lparr>bits := (bits l)[lwoff := bits l ! lwoff OR m]\<rparr>, upApply))
        else Inl OutOfBounds)"

definition layer_reset :: "layer \<Rightarrow> nat \<Rightarrow> (layer \<times> bool) res" where
  "layer_reset l bitIdx =
     (if bitIdx > layer_size l then Inr (l, False)
      else let lwoff = bitIdx div 64 in
        if lwoff < length (bits l)
        then let w = bits l ! lwoff AND NOT (push_bit (64 - 1 - bitIdx mod 64) 1) in
          Inr (l\<lparr>bits := (bits l)[lwoff := w]\<rparr>, w = 0)
        else Inl OutOfBounds)"

definition firstBitSet :: "layer \<Rightarrow> nat \<Rightarrow> int res" where
  "firstBitSet l lwoff =
     (if lwoff > lwords l then Inr (- 1)
      else if lwoff < length (bits l)
      then (if bits l ! lwoff = 0 then Inr (- 1)
            else Inr (to_int ((lwoff * 64 + clzl (bits l ! lwoff)) mod 2 ^ 32)))
      else Inl OutOfBounds)"

section \<open>The tree\<close>

abbreviation BMT_MAX_DEEP :: nat where
  "BMT_MAX_DEEP \<equiv> 8"

record bitmap_tree =
  layers :: "layer list"
  deep :: nat

text \<open>The loop of the constructor; the stack leaves the smallest layer on top.\<close>

fun make_layers :: "nat \<Rightarrow> nat \<Rightarrow> layer list option" where
  "make_layers 0 n = (if n > 1 then None else Some [])"
| "make_layers (Suc fuel) n =
     (if n > 1 then map_option (\<lambda>ls. ls @ [new_layer n]) (make_layers fuel (lwords (new_layer n)))
      else Some [])"

definition new_BitmapTree :: "nat \<Rightarrow> bitmap_tree option" where
  "new_BitmapTree n = map_option
     (\<lambda>ls. \<lparr>layers = take BMT_MAX_DEEP ls, deep = length ls\<rparr>) (make_layers 64 n)"

text \<open>
  The first loop of \<open>bitRequire\<close>: the offset found in each layer, from the top, or \<open>None\<close> when
  some layer has none.
\<close>

fun descend :: "layer list \<Rightarrow> int \<Rightarrow> int list option res" where
  "descend [] lwOffs = Inr (Some [])"
| "descend (l # ls) lwOffs =
     bind_res (firstBitSet l (to_uint lwOffs))
       (\<lambda>off. if off < 0 then Inr None
         else bind_res (descend ls off) (\<lambda>r. Inr (map_option (\<lambda>os. off # os) r)))"

text \<open>The second loop, from the last layer up while the word reset became zero.\<close>

fun reset_upward :: "layer list \<Rightarrow> int list \<Rightarrow> (layer list \<times> bool) res" where
  "reset_upward (l # ls) (off # offs) =
     bind_res (reset_upward ls offs)
       (\<lambda>(ls', go). if go
          then bind_res (layer_reset l (to_uint off)) (\<lambda>(l', z). Inr (l' # ls', z))
          else Inr (l # ls', False))"
| "reset_upward ls offs = Inr (ls, True)"

definition bitRequire :: "bitmap_tree \<Rightarrow> (bitmap_tree \<times> int) res" where
  "bitRequire t =
     (if deep t > length (layers t) then Inl OutOfBounds
      else bind_res (descend (layers t) 0)
        (\<lambda>r. case r of
            None \<Rightarrow> Inr (t, - 1)
          | Some offs \<Rightarrow> bind_res (reset_upward (layers t) offs)
              (\<lambda>(ls, _). Inr (t\<lparr>layers := ls\<rparr>, if offs = [] then 0 else last offs))))"

text \<open>\<open>bitTurnback\<close>, again from the last layer up; the index shifts by 6 per layer.\<close>

fun set_upward :: "layer list \<Rightarrow> int \<Rightarrow> (layer list \<times> bool \<times> int) res" where
  "set_upward [] idx = Inr ([], True, idx)"
| "set_upward (l # ls) idx =
     bind_res (set_upward ls idx)
       (\<lambda>(ls', go, i). if go
          then bind_res (layer_set l (to_uint i)) (\<lambda>(l', up). Inr (l' # ls', up, i div 64))
          else Inr (l # ls', False, i))"

definition bitTurnback :: "bitmap_tree \<Rightarrow> int \<Rightarrow> bitmap_tree res" where
  "bitTurnback t idx =
     (if deep t > length (layers t) then Inl OutOfBounds
      else bind_res (set_upward (layers t) idx) (\<lambda>(ls, _, _). Inr (t\<lparr>layers := ls\<rparr>)))"

section \<open>Bits of a layer\<close>

definition layer_bit :: "layer \<Rightarrow> nat \<Rightarrow> bool" where
  "layer_bit l i \<longleftrightarrow> bit (bits l ! (i div 64)) (63 - i mod 64)"

definition layer_ok :: "layer \<Rightarrow> bool" where
  "layer_ok l \<longleftrightarrow> length (bits l) = lwords l \<and> lwords l = (layer_size l + 63) div 64
     \<and> layer_size l > 0 \<and> (\<forall>i. layer_size l \<le> i \<longrightarrow> i < 64 * lwords l \<longrightarrow> \<not> layer_bit l i)"

lemma clzl_spec:
  assumes "w \<noteq> 0"
  shows "clzl w < 64" and "bit w (63 - clzl w)" and "k < clzl w \<Longrightarrow> \<not> bit w (63 - k)"
proof -
  let ?P = "\<lambda>i. \<not> bit w (63 - i)"
  from assms obtain n where n: "bit w n" by (auto simp: bit_eq_iff)
  then have n64: "n < 64" using bit_imp_le_length [of w n] by simp
  then have "63 - n \<in> set [0..<64]" "\<not> ?P (63 - n)" using n by simp_all
  then have lt: "length (takeWhile ?P [0..<64]) < length [0..<64]"
    by (metis length_takeWhile_le nat_less_le set_takeWhileD takeWhile_eq_take take_all_iff)
  then show c: "clzl w < 64" by (simp add: clzl_def)
  from nth_length_takeWhile [OF lt] c show "bit w (63 - clzl w)"
    by (simp add: clzl_def)
  assume k: "k < clzl w"
  then have "takeWhile ?P [0..<64] ! k \<in> set (takeWhile ?P [0..<64])"
    unfolding clzl_def by (rule nth_mem)
  then have "?P (takeWhile ?P [0..<64] ! k)" by (auto dest: set_takeWhileD)
  moreover have "takeWhile ?P [0..<64] ! k = k"
    using k c takeWhile_nth [of k ?P "[0..<64]"] by (simp add: clzl_def)
  ultimately show "\<not> bit w (63 - k)" by simp
qed

lemma word_zero_iff: "bits l ! w = 0 \<longleftrightarrow> (\<forall>i. i div 64 = w \<longrightarrow> \<not> layer_bit l i)"
proof
  assume all: "\<forall>i. i div 64 = w \<longrightarrow> \<not> layer_bit l i"
  have "\<not> bit (bits l ! w) n" if "n < 64" for n
  proof -
    define m where "m = 63 - n"
    with that have m: "m < 64" "63 - m = n" by simp_all
    then have "(64 * w + m) div 64 = w" "(64 * w + m) mod 64 = m" by simp_all
    with all m(2) show ?thesis by (metis layer_bit_def)
  qed
  then show "bits l ! w = 0"
    by (intro bit_word_eqI) simp
qed (auto simp: layer_bit_def)

lemma to_int_small: "n < 2 ^ 31 \<Longrightarrow> to_int (n mod 2 ^ 32) = int n"
  by (simp add: to_int_def)

lemma to_uint_int [simp]: "n < 2 ^ 32 \<Longrightarrow> to_uint (int n) = n"
  by (simp add: to_uint_def nat_mod_distrib)

lemma layer_bit_range:
  assumes "layer_ok l" and "layer_bit l i" and "i div 64 < lwords l"
  shows "i < layer_size l"
proof (rule ccontr)
  assume "\<not> i < layer_size l"
  moreover have "i < 64 * lwords l" using assms(3) by (simp add: div_less_iff_less_mult mult.commute)
  ultimately show False using assms(1,2) by (auto simp: layer_ok_def)
qed

lemma firstBitSet_eq:
  assumes "layer_ok l" and "w < lwords l" and "bits l ! w \<noteq> 0" and "layer_size l \<le> 2 ^ 31"
  shows "\<exists>i. firstBitSet l w = Inr (int i) \<and> i div 64 = w \<and> layer_bit l i \<and> i < layer_size l
    \<and> (\<forall>j < i. j div 64 = w \<longrightarrow> \<not> layer_bit l j)"
proof -
  let ?c = "clzl (bits l ! w)"
  let ?i = "w * 64 + ?c"
  note c = clzl_spec [OF assms(3)]
  have d: "?i div 64 = w" "?i mod 64 = ?c" using c(1) by simp_all
  have b: "layer_bit l ?i" using c(2) by (simp only: layer_bit_def d)
  have lt: "?i < layer_size l"
    by (rule layer_bit_range [OF assms(1) b]) (simp only: d assms(2))
  have "\<not> layer_bit l j" if "j < ?i" "j div 64 = w" for j
  proof -
    from that have "j mod 64 < ?c"
      by (metis add_less_cancel_left div_mult_mod_eq)
    from c(3) [OF this] that(2) show ?thesis by (simp add: layer_bit_def)
  qed
  moreover have "firstBitSet l w = Inr (int ?i)"
    using assms lt to_int_small [of ?i] by (simp add: firstBitSet_def layer_ok_def)
  ultimately show ?thesis using d b lt by blast
qed

lemma firstBitSet_none:
  "layer_ok l \<Longrightarrow> w < lwords l \<Longrightarrow> bits l ! w = 0 \<Longrightarrow> firstBitSet l w = Inr (- 1)"
  by (simp add: firstBitSet_def layer_ok_def)

lemma layer_reset_eq:
  assumes "layer_ok l" and "i < layer_size l"
  shows "\<exists>l'. layer_reset l i = Inr (l', bits l' ! (i div 64) = 0) \<and> layer_ok l'
    \<and> layer_size l' = layer_size l \<and> lwords l' = lwords l
    \<and> (\<forall>j. j div 64 < lwords l \<longrightarrow> (layer_bit l' j \<longleftrightarrow> layer_bit l j \<and> j \<noteq> i))
    \<and> (\<forall>v. v \<noteq> i div 64 \<longrightarrow> bits l' ! v = bits l ! v)"
proof -
  let ?v = "bits l ! (i div 64) AND NOT (push_bit (64 - 1 - i mod 64) 1)"
  let ?l = "l\<lparr>bits := (bits l)[i div 64 := ?v]\<rparr>"
  have w: "i div 64 < length (bits l)" using assms by (auto simp: layer_ok_def)
  have b: "layer_bit ?l j \<longleftrightarrow> layer_bit l j \<and> j \<noteq> i" if "j div 64 < lwords l" for j
  proof (cases "j div 64 = i div 64")
    case True
    then have "j \<noteq> i \<longleftrightarrow> j mod 64 \<noteq> i mod 64"
      by (metis div_mult_mod_eq)
    moreover have "63 - j mod 64 = 63 - i mod 64 \<longleftrightarrow> j mod 64 = i mod 64"
      using mod_less_divisor [of 64 j] mod_less_divisor [of 64 i] by linarith
    moreover have "63 - j mod 64 < 64" by simp
    ultimately show ?thesis using True w
      by (auto simp: layer_bit_def bit_simps)
  next
    case False
    then show ?thesis using w by (auto simp: layer_bit_def)
  qed
  have "layer_ok ?l"
    using assms(1) b by (auto simp: layer_ok_def)
  moreover have "layer_reset l i = Inr (?l, bits ?l ! (i div 64) = 0)"
    using assms w by (simp add: layer_reset_def Let_def)
  ultimately show ?thesis using b by (intro exI [of _ ?l]) simp
qed

section \<open>Trees\<close>

text \<open>Each layer describes the words of the next one exactly.\<close>

fun tree_ok :: "layer list \<Rightarrow> bool" where
  "tree_ok [] = False"
| "tree_ok [l] = layer_ok l"
| "tree_ok (u # l # ls) = (layer_ok u \<and> layer_size u = lwords l
     \<and> (\<forall>j < lwords l. layer_bit u j \<longleftrightarrow> bits l ! j \<noteq> 0) \<and> tree_ok (l # ls))"

text \<open>The offsets on the way to leaf \<open>k\<close> through \<open>n\<close> layers.\<close>

fun trail :: "nat \<Rightarrow> nat \<Rightarrow> int list" where
  "trail 0 k = []"
| "trail (Suc n) k = int (k div 64 ^ n) # trail n k"

lemma last_trail: "n > 0 \<Longrightarrow> last (trail n k) = int k"
proof (induction n)
  case (Suc n)
  then show ?case by (cases n) simp_all
qed simp

lemma trail_nonempty: "trail (Suc n) k \<noteq> []"
  by simp

lemma layer_word_bound: "layer_ok l \<Longrightarrow> i < layer_size l \<Longrightarrow> i div 64 < lwords l"
  by (auto simp: layer_ok_def)

lemma above_leaf:
  "tree_ok ls \<Longrightarrow> layer_bit (last ls) i \<Longrightarrow> i < layer_size (last ls) \<Longrightarrow>
    i div 64 ^ length ls < lwords (hd ls) \<and> bits (hd ls) ! (i div 64 ^ length ls) \<noteq> 0"
proof (induction ls rule: tree_ok.induct)
  case (2 l)
  then show ?case using layer_word_bound [of l i] by (auto simp: word_zero_iff)
next
  case (3 u l ls)
  let ?j = "i div 64 ^ length (l # ls)"
  have j: "?j < lwords l" "bits l ! ?j \<noteq> 0" using 3 by auto
  with "3.prems"(1) have u: "layer_bit u ?j" "?j < layer_size u" "layer_ok u" by auto
  have d: "i div 64 ^ length (u # l # ls) = ?j div 64"
    by (simp add: div_mult2_eq [symmetric] mult.commute)
  have "bits u ! (?j div 64) \<noteq> 0" using u(1) by (auto simp: word_zero_iff)
  with layer_word_bound [OF u(3,2)] show ?case unfolding d by simp
qed simp

lemma descend_none:
  assumes "tree_ok (l # ls)" and "w < lwords l" and "bits l ! w = 0" and "lwords l < 2 ^ 32"
  shows "descend (l # ls) (int w) = Inr None"
proof -
  have "layer_ok l" using assms(1) by (cases ls) auto
  with assms show ?thesis by (simp add: firstBitSet_none)
qed

lemma lwords_bound: "layer_ok l \<Longrightarrow> layer_size l \<le> 2 ^ 31 \<Longrightarrow> lwords l < 2 ^ 32"
  by (auto simp: layer_ok_def)

lemma descend_eq:
  "tree_ok (l # ls) \<Longrightarrow> \<forall>x \<in> set (l # ls). layer_size x \<le> 2 ^ 31 \<Longrightarrow> w < lwords l \<Longrightarrow>
    bits l ! w \<noteq> 0 \<Longrightarrow>
    \<exists>k. descend (l # ls) (int w) = Inr (Some (trail (Suc (length ls)) k))
      \<and> k div 64 ^ Suc (length ls) = w \<and> k < layer_size (last (l # ls))
      \<and> layer_bit (last (l # ls)) k
      \<and> (\<forall>j < k. j div 64 ^ Suc (length ls) = w \<longrightarrow> \<not> layer_bit (last (l # ls)) j)"
proof (induction ls arbitrary: l w)
  case Nil
  then have ok: "layer_ok l" "layer_size l \<le> 2 ^ 31" by simp_all
  from firstBitSet_eq [OF ok(1) Nil.prems(3,4) ok(2)] obtain i where
    i: "firstBitSet l w = Inr (int i)" "i div 64 = w" "layer_bit l i" "i < layer_size l"
      "\<forall>j < i. j div 64 = w \<longrightarrow> \<not> layer_bit l j" by blast
  have "w < 2 ^ 32" using Nil.prems(3) lwords_bound [OF ok] by simp
  with i show ?case by (intro exI [of _ i]) simp
next
  case (Cons m ls)
  then have ok: "layer_ok l" "layer_size l \<le> 2 ^ 31" "tree_ok (m # ls)" "layer_size l = lwords m"
    "\<forall>j < lwords m. layer_bit l j \<longleftrightarrow> bits m ! j \<noteq> 0" by simp_all
  from firstBitSet_eq [OF ok(1) Cons.prems(3,4) ok(2)] obtain i where
    i: "firstBitSet l w = Inr (int i)" "i div 64 = w" "layer_bit l i" "i < layer_size l"
      "\<forall>j < i. j div 64 = w \<longrightarrow> \<not> layer_bit l j" by blast
  have "w < 2 ^ 32" using Cons.prems(3) lwords_bound [OF ok(1,2)] by simp
  then have w: "to_uint (int w) = w" by simp
  let ?n = "Suc (length ls)"
  have m: "i < lwords m" "bits m ! i \<noteq> 0" using i ok(4,5) by simp_all
  from Cons.IH [OF ok(3) _ m] Cons.prems(2) obtain k where
    k: "descend (m # ls) (int i) = Inr (Some (trail ?n k))" "k div 64 ^ ?n = i"
      "k < layer_size (last (m # ls))" "layer_bit (last (m # ls)) k"
      "\<forall>j < k. j div 64 ^ ?n = i \<longrightarrow> \<not> layer_bit (last (m # ls)) j" by auto
  have up: "j div 64 ^ Suc ?n = j div 64 ^ ?n div 64" for j :: nat
    by (simp add: div_mult2_eq [symmetric] mult.commute)
  have "\<not> layer_bit (last (m # ls)) j" if j: "j < k" "j div 64 ^ Suc ?n = w" for j
  proof
    assume b: "layer_bit (last (m # ls)) j"
    have "j < layer_size (last (m # ls))" using j(1) k(3) by simp
    from above_leaf [OF ok(3) b this] have a: "j div 64 ^ ?n < lwords m" "bits m ! (j div 64 ^ ?n) \<noteq> 0"
      by simp_all
    then have "layer_bit l (j div 64 ^ ?n)" using ok(5) by simp
    moreover have "j div 64 ^ ?n div 64 = w" using j(2) up by simp
    ultimately have "\<not> j div 64 ^ ?n < i" using i(5) by blast
    moreover have "j div 64 ^ ?n \<le> i" using j(1) div_le_mono [of j k "64 ^ ?n"] k(2) by simp
    ultimately have "j div 64 ^ ?n = i" by simp
    with k(5) j(1) b show False by blast
  qed
  moreover have "descend (l # m # ls) (int w) = Inr (Some (trail (Suc ?n) k))"
    using w i(1) k(1,2) by simp
  moreover have "k div 64 ^ Suc ?n = w" using up k(2) i(2) by simp
  ultimately show ?case using k(3,4) by (intro exI [of _ k]) simp
qed

text \<open>
  One layer of the way up: the bit of a word that became empty is reset, that of one that is still in
  use is left, and either way the layer above says again which words below are not zero.
\<close>

lemma reset_layer_above:
  assumes u: "layer_ok u" "layer_size u = lwords l" "\<forall>j < lwords l. layer_bit u j \<longleftrightarrow> bits l ! j \<noteq> 0"
    and i: "i < lwords l" "layer_bit u i"
    and ms: "tree_ok (l' # ls')" "lwords l' = lwords l" "\<forall>v. v \<noteq> i \<longrightarrow> bits l' ! v = bits l ! v"
  obtains u' where "(if bits l' ! i = 0
      then bind_res (layer_reset u i) (\<lambda>(x, z). Inr (x # l' # ls', z)) else Inr (u # l' # ls', False))
      = Inr (u' # l' # ls', bits u' ! (i div 64) = 0)"
    and "tree_ok (u' # l' # ls')" and "layer_size u' = layer_size u" and "lwords u' = lwords u"
    and "\<forall>v. v \<noteq> i div 64 \<longrightarrow> bits u' ! v = bits u ! v"
proof (cases "bits l' ! i = 0")
  case True
  have "i < layer_size u" using i(1) u(2) by simp
  from layer_reset_eq [OF u(1) this] obtain u' where
    u': "layer_reset u i = Inr (u', bits u' ! (i div 64) = 0)" "layer_ok u'"
      "layer_size u' = layer_size u" "lwords u' = lwords u"
      "\<forall>j. j div 64 < lwords u \<longrightarrow> (layer_bit u' j \<longleftrightarrow> layer_bit u j \<and> j \<noteq> i)"
      "\<forall>v. v \<noteq> i div 64 \<longrightarrow> bits u' ! v = bits u ! v" by blast
  have "layer_bit u' j \<longleftrightarrow> bits l' ! j \<noteq> 0" if "j < lwords l" for j
    using that u'(5) layer_word_bound [OF u(1), of j] u(2,3) ms(3) True by (cases "j = i") auto
  with u' u(2) ms(1,2) True show ?thesis by (intro that [of u']) simp_all
next
  case False
  have "bits u ! (i div 64) \<noteq> 0" using i(2) by (auto simp: word_zero_iff)
  moreover have "layer_bit u j \<longleftrightarrow> bits l' ! j \<noteq> 0" if "j < lwords l" for j
    using that u(3) ms(3) False i(2) by (cases "j = i") auto
  ultimately show ?thesis using u(1,2) ms(1,2) False by (intro that [of u]) simp_all
qed

lemma reset_upward_eq:
  "tree_ok ls \<Longrightarrow> \<forall>x \<in> set ls. layer_size x \<le> 2 ^ 31 \<Longrightarrow> layer_bit (last ls) k \<Longrightarrow>
    k < layer_size (last ls) \<Longrightarrow>
    \<exists>ls'. reset_upward ls (trail (length ls) k)
        = Inr (ls', bits (hd ls') ! (k div 64 ^ length ls) = 0)
      \<and> tree_ok ls' \<and> map layer_size ls' = map layer_size ls \<and> map lwords ls' = map lwords ls
      \<and> (\<forall>j. j div 64 < lwords (last ls) \<longrightarrow>
            (layer_bit (last ls') j \<longleftrightarrow> layer_bit (last ls) j \<and> j \<noteq> k))
      \<and> (\<forall>v. v \<noteq> k div 64 ^ length ls \<longrightarrow> bits (hd ls') ! v = bits (hd ls) ! v)"
proof (induction ls rule: tree_ok.induct)
  case (2 l)
  from layer_reset_eq [of l k] 2 obtain l' where
    "layer_reset l k = Inr (l', bits l' ! (k div 64) = 0)" "layer_ok l'"
    "layer_size l' = layer_size l" "lwords l' = lwords l"
    "\<forall>j. j div 64 < lwords l \<longrightarrow> (layer_bit l' j \<longleftrightarrow> layer_bit l j \<and> j \<noteq> k)"
    "\<forall>v. v \<noteq> k div 64 \<longrightarrow> bits l' ! v = bits l ! v" by auto
  moreover have "k < 2 ^ 32" using 2 by simp
  ultimately show ?case by (intro exI [of _ "[l']"]) simp
next
  case (3 u l ls)
  let ?n = "Suc (length ls)"
  let ?i = "k div 64 ^ ?n"
  have ok: "layer_ok u" "layer_size u = lwords l" "tree_ok (l # ls)"
    "\<forall>j < lwords l. layer_bit u j \<longleftrightarrow> bits l ! j \<noteq> 0" using "3.prems"(1) by simp_all
  have leaf: "layer_bit (last (l # ls)) k" "k < layer_size (last (l # ls))"
    using "3.prems"(3,4) by simp_all
  from above_leaf [OF ok(3) leaf] ok(2,4) have i: "?i < lwords l" "?i < layer_size u" "layer_bit u ?i"
    by simp_all
  have up: "k div 64 ^ length (u # l # ls) = ?i div 64"
    by (simp add: div_mult2_eq [symmetric] mult.commute)
  have u32: "to_uint (int ?i) = ?i" using i(2) "3.prems"(2) by simp
  from "3.IH" [OF ok(3) _ leaf] "3.prems"(2) obtain ms where
    ms: "reset_upward (l # ls) (trail ?n k) = Inr (ms, bits (hd ms) ! ?i = 0)" "tree_ok ms"
      "map layer_size ms = map layer_size (l # ls)" "map lwords ms = map lwords (l # ls)"
      "\<forall>j. j div 64 < lwords (last (l # ls)) \<longrightarrow>
          (layer_bit (last ms) j \<longleftrightarrow> layer_bit (last (l # ls)) j \<and> j \<noteq> k)"
      "\<forall>v. v \<noteq> ?i \<longrightarrow> bits (hd ms) ! v = bits l ! v" by auto
  obtain l' ls' where l': "ms = l' # ls'" using ms(2) by (cases ms) auto
  have step: "reset_upward (u # l # ls) (trail (length (u # l # ls)) k)
      = bind_res (reset_upward (l # ls) (trail ?n k))
          (\<lambda>(ls', go). if go
            then bind_res (layer_reset u (to_uint (int ?i))) (\<lambda>(l', z). Inr (l' # ls', z))
            else Inr (u # ls', False))"
    by (simp only: list.size add_Suc_right add_0_right trail.simps reset_upward.simps)
  from reset_layer_above [OF ok(1,2,4) i(1,3), of l' ls'] ms(2,4,6) l' obtain u' where
    u': "(if bits l' ! ?i = 0
        then bind_res (layer_reset u ?i) (\<lambda>(x, z). Inr (x # l' # ls', z)) else Inr (u # l' # ls', False))
        = Inr (u' # l' # ls', bits u' ! (?i div 64) = 0)"
      "tree_ok (u' # l' # ls')" "layer_size u' = layer_size u" "lwords u' = lwords u"
      "\<forall>v. v \<noteq> ?i div 64 \<longrightarrow> bits u' ! v = bits u ! v" by auto
  have "reset_upward (u # l # ls) (trail (length (u # l # ls)) k)
      = Inr (u' # ms, bits u' ! (?i div 64) = 0)"
    using u'(1) l' by (simp only: step ms(1) u32 bind_res.simps prod.case list.sel)
  with u' ms(3,4,5) l' show ?case unfolding up by (intro exI [of _ "u' # ms"]) simp
qed simp

section \<open>Requiring\<close>

definition bmt_ok :: "bitmap_tree \<Rightarrow> bool" where
  "bmt_ok t \<longleftrightarrow> tree_ok (layers t) \<and> deep t = length (layers t)
     \<and> lwords (hd (layers t)) = 1 \<and> (\<forall>l \<in> set (layers t). layer_size l \<le> 2 ^ 31)"

definition capacity_of :: "bitmap_tree \<Rightarrow> nat" where
  "capacity_of t = layer_size (last (layers t))"

text \<open>The abstract tree: the set of free indexes.\<close>

definition free :: "bitmap_tree \<Rightarrow> nat set" where
  "free t = {i. i < capacity_of t \<and> layer_bit (last (layers t)) i}"

lemma bmt_nonempty: "bmt_ok t \<Longrightarrow> \<exists>l ls. layers t = l # ls"
  by (cases "layers t") (auto simp: bmt_ok_def)

lemma free_below: "bmt_ok t \<Longrightarrow> i \<in> free t \<Longrightarrow>
    i div 64 ^ length (layers t) = 0 \<and> bits (hd (layers t)) ! 0 \<noteq> 0"
  using above_leaf [of "layers t" i] by (auto simp: bmt_ok_def free_def capacity_of_def)

lemma bitRequire_none:
  assumes "bmt_ok t" and "free t = {}"
  shows "bitRequire t = Inr (t, - 1)"
proof -
  from bmt_nonempty [OF assms(1)] obtain l ls where ls: "layers t = l # ls" by blast
  have t: "tree_ok (l # ls)" "0 < lwords l" "\<forall>x \<in> set (l # ls). layer_size x \<le> 2 ^ 31"
    "deep t = length (layers t)" using assms(1) by (simp_all add: bmt_ok_def ls)
  have "bits l ! 0 = 0"
  proof (rule ccontr)
    assume "bits l ! 0 \<noteq> 0"
    from descend_eq [OF t(1,3,2) this] obtain k where
      "k < layer_size (last (l # ls))" "layer_bit (last (l # ls)) k" by blast
    then have "k \<in> free t" by (simp add: free_def capacity_of_def ls)
    with assms(2) show False by simp
  qed
  moreover have "lwords l < 2 ^ 32" using assms(1) by (simp add: bmt_ok_def ls)
  ultimately have "descend (layers t) 0 = Inr None"
    using descend_none [OF t(1,2)] ls by simp
  then show ?thesis using t(4) by (simp add: bitRequire_def)
qed

text \<open>New words in layers of the same sizes.\<close>

lemma bmt_same_sizes:
  assumes "bmt_ok t" and "tree_ok ls" and "map layer_size ls = map layer_size (layers t)"
    and "map lwords ls = map lwords (layers t)"
  shows "bmt_ok (t\<lparr>layers := ls\<rparr>)" and "layer_size (last ls) = layer_size (last (layers t))"
proof -
  have "ls \<noteq> []" and "layers t \<noteq> []" using bmt_nonempty [OF assms(1)] assms(2) by auto
  then show "layer_size (last ls) = layer_size (last (layers t))" using assms(3) by (metis last_map)
  have "lwords (hd ls) = lwords (hd (layers t))" using assms(4) \<open>ls \<noteq> []\<close> by (metis list.map_sel(1) map_is_Nil_conv)
  moreover have "layer_size ` set ls = layer_size ` set (layers t)" using assms(3) by (metis list.set_map)
  then have "\<forall>x \<in> set ls. layer_size x \<le> 2 ^ 31" using assms(1) unfolding bmt_ok_def by (metis imageE imageI)
  ultimately show "bmt_ok (t\<lparr>layers := ls\<rparr>)" using assms map_eq_imp_length_eq [OF assms(3)] by (simp add: bmt_ok_def)
qed

lemma bitRequire_some:
  assumes "bmt_ok t" and "free t \<noteq> {}"
  shows "\<exists>t' k. bitRequire t = Inr (t', int k) \<and> bmt_ok t' \<and> capacity_of t' = capacity_of t
    \<and> k \<in> free t \<and> (\<forall>j \<in> free t. k \<le> j) \<and> free t' = free t - {k}"
proof -
  from bmt_nonempty [OF assms(1)] obtain l ls where ls: "layers t = l # ls" by blast
  let ?n = "Suc (length ls)"
  have t: "tree_ok (l # ls)" "\<forall>x \<in> set (l # ls). layer_size x \<le> 2 ^ 31" "0 < lwords l"
    "deep t = length (layers t)" "lwords l = 1" using assms(1) by (simp_all add: bmt_ok_def ls)
  have "bits l ! 0 \<noteq> 0" using assms free_below [OF assms(1)] by (auto simp: ls)
  from descend_eq [OF t(1-3) this] obtain k where
    k: "descend (l # ls) (int 0) = Inr (Some (trail ?n k))" "k div 64 ^ ?n = 0"
      "k < layer_size (last (l # ls))" "layer_bit (last (l # ls)) k"
      "\<forall>j < k. j div 64 ^ ?n = 0 \<longrightarrow> \<not> layer_bit (last (l # ls)) j" by blast
  from reset_upward_eq [OF t(1,2) k(4,3)] obtain ls' where
    r: "reset_upward (l # ls) (trail (length (l # ls)) k)
        = Inr (ls', bits (hd ls') ! (k div 64 ^ length (l # ls)) = 0)"
      "tree_ok ls'" "map layer_size ls' = map layer_size (l # ls)"
      "map lwords ls' = map lwords (l # ls)"
      "\<forall>j. j div 64 < lwords (last (l # ls)) \<longrightarrow>
          (layer_bit (last ls') j \<longleftrightarrow> layer_bit (last (l # ls)) j \<and> j \<noteq> k)" by blast
  let ?t = "t\<lparr>layers := ls'\<rparr>"
  have D: "descend (layers t) 0 = Inr (Some (trail ?n k))" using k(1) ls by simp
  obtain z where R: "reset_upward (layers t) (trail ?n k) = Inr (ls', z)"
    using r(1) by (simp only: ls list.size add_Suc_right add_0_right)
  note S = bmt_same_sizes [OF assms(1) r(2), unfolded ls, OF r(3,4)]
  note ok = S(1) and cap = S(2)
  have tree: "layer_ok (last (l # ls))"
    using t(1) by (induction "l # ls" arbitrary: l ls rule: tree_ok.induct) auto
  have "free ?t = free t - {k}"
    using cap r(5) layer_word_bound [OF tree] by (auto simp: free_def capacity_of_def ls)
  moreover have "bitRequire t = Inr (?t, int k)"
    using t(4) D R last_trail [of ?n k] trail_nonempty [of "length ls" k]
    by (simp add: bitRequire_def del: trail.simps)
  moreover have "k \<in> free t" using k(3,4) by (simp add: free_def capacity_of_def ls)
  moreover have "\<not> j < k" if "j \<in> free t" for j
  proof
    assume "j < k"
    moreover have "j div 64 ^ ?n = 0"
      using div_le_mono [of j k "64 ^ ?n"] \<open>j < k\<close> k(2) by simp
    ultimately show False using k(5) that by (simp add: free_def capacity_of_def ls)
  qed
  then have "\<forall>j \<in> free t. k \<le> j" by (auto simp: not_less)
  moreover have "capacity_of ?t = capacity_of t" using cap by (simp add: capacity_of_def ls)
  ultimately show ?thesis using ok by blast
qed

section \<open>Building\<close>

lemma lwords_new: "n \<le> 2 ^ 31 \<Longrightarrow> calculate_lwords n = (n + 63) div 64"
  by (simp add: calculate_lwords_def)

lemma ceil64: "(n + 63) div 64 = (if n mod 64 = 0 then n div 64 else Suc (n div 64))"
  for n :: nat
proof -
  define q r where "q = n div 64" and "r = n mod 64"
  then have n: "n = 64 * q + r" and r: "r < 64" by simp_all
  have "(n + 63) div 64 = q" if "r = 0"
    by (rule div_nat_eqI) (use n that in simp_all)
  moreover have "(n + 63) div 64 = Suc q" if "r \<noteq> 0"
    by (rule div_nat_eqI) (use n r that in simp_all)
  ultimately show ?thesis by (simp add: q_def [symmetric] r_def [symmetric])
qed

lemma lt64: "i < n \<longleftrightarrow> i div 64 < n div 64 \<or> (i div 64 = n div 64 \<and> i mod 64 < n mod 64)"
  for i n :: nat
proof -
  define q r p s where "q = n div 64" and "r = n mod 64" and "p = i div 64" and "s = i mod 64"
  then have n: "n = 64 * q + r" "r < 64" and i: "i = 64 * p + s" "s < 64" by simp_all
  have "i < n \<longleftrightarrow> p < q \<or> (p = q \<and> s < r)"
  proof (cases p q rule: linorder_cases)
    case less
    then show ?thesis using n i by simp
  next
    case equal
    then show ?thesis using n i by simp
  next
    case greater
    then show ?thesis using n i by simp
  qed
  then show ?thesis by (simp add: p_def q_def r_def s_def)
qed

lemma tail_mask: "m < 64 \<Longrightarrow> tail \<le> 64 \<Longrightarrow>
    bit (push_bit (64 - tail) (- 1) :: u64) (63 - m) \<longleftrightarrow> m < tail"
  by (auto simp: bit_simps)

lemma new_layer_ok:
  assumes "0 < n" and "n \<le> 2 ^ 31"
  shows "layer_ok (new_layer n)" and "layer_size (new_layer n) = n"
    and "lwords (new_layer n) = (n + 63) div 64"
    and "\<And>i. i < n \<Longrightarrow> layer_bit (new_layer n) i"
proof -
  let ?k = "(n + 63) div 64"
  note k = lwords_new [OF assms(2)]
  show s: "layer_size (new_layer n) = n" and l: "lwords (new_layer n) = ?k"
    using assms k by (simp_all add: new_layer_def Let_def)
  have len: "length (bits (new_layer n)) = ?k"
    using assms k by (simp add: new_layer_def Let_def)
  have b: "layer_bit (new_layer n) i \<longleftrightarrow> i < n" if "i div 64 < ?k" for i
  proof (cases "n mod 64 = 0 \<or> i div 64 \<noteq> ?k - 1")
    case True
    then have "i < n" using that lt64 [of i n] ceil64 [of n] by (auto split: if_splits)
    moreover have "bits (new_layer n) ! (i div 64) = - 1"
      using that True assms(1) k by (auto simp: new_layer_def Let_def)
    ultimately show ?thesis by (simp add: layer_bit_def)
  next
    case False
    then have c: "n mod 64 \<noteq> 0" "i div 64 = ?k - 1" by simp_all
    then have "bits (new_layer n) ! (i div 64) = push_bit (64 - n mod 64) (- 1)"
      using that assms(1) k by (simp add: new_layer_def Let_def)
    then have "layer_bit (new_layer n) i \<longleftrightarrow> i mod 64 < n mod 64"
      by (simp only: layer_bit_def) (rule tail_mask; simp)
    also have "\<dots> \<longleftrightarrow> i < n" using c lt64 [of i n] ceil64 [of n] by simp
    finally show ?thesis .
  qed
  show "layer_ok (new_layer n)"
    unfolding layer_ok_def using s l len b assms(1) by auto
  show "layer_bit (new_layer n) i" if "i < n" for i
    using b [of i] that lt64 [of i n] ceil64 [of n] by (auto split: if_splits)
qed

lemma new_layer_words:
  assumes "0 < n" and "n \<le> 2 ^ 31" and "j < lwords (new_layer n)"
  shows "bits (new_layer n) ! j \<noteq> 0"
proof -
  have "64 * j < n" using assms(3) new_layer_ok(3) [OF assms(1,2)] by auto
  from new_layer_ok(4) [OF assms(1,2) this] show ?thesis
    by (auto simp: word_zero_iff intro!: exI [of _ "64 * j"])
qed

lemma tree_ok_snoc:
  "tree_ok ls \<Longrightarrow> layer_ok l \<Longrightarrow> layer_size (last ls) = lwords l \<Longrightarrow>
    \<forall>j < lwords l. layer_bit (last ls) j \<longleftrightarrow> bits l ! j \<noteq> 0 \<Longrightarrow> tree_ok (ls @ [l])"
  by (induction ls rule: tree_ok.induct) auto

lemma make_layers_ok:
  "n \<le> 64 ^ d \<Longrightarrow> d \<le> fuel \<Longrightarrow> n \<le> 2 ^ 31 \<Longrightarrow>
    \<exists>ls. make_layers fuel n = Some ls \<and> length ls \<le> d \<and> (n \<le> 1 \<longrightarrow> ls = [])
      \<and> (1 < n \<longrightarrow> tree_ok ls \<and> lwords (hd ls) = 1 \<and> last ls = new_layer n
            \<and> (\<forall>l \<in> set ls. layer_size l \<le> 2 ^ 31))"
proof (induction fuel arbitrary: n d)
  case 0
  then show ?case by simp
next
  case (Suc fuel)
  show ?case
  proof (cases "1 < n")
    case True
    with Suc.prems(1) obtain e where d: "d = Suc e" by (cases d) auto
    let ?k = "(n + 63) div 64"
    have n: "0 < n" using True by simp
    note L = new_layer_ok [OF n Suc.prems(3)]
    have "n + 63 < (64 ^ e + 1) * 64" using Suc.prems(1) d by simp
    then have "?k < 64 ^ e + 1" by (rule less_mult_imp_div_less)
    then have "?k \<le> 64 ^ e" by simp
    moreover have "?k \<le> 2 ^ 31" using Suc.prems(3) by simp
    moreover have "e \<le> fuel" using Suc.prems(2) d by simp
    ultimately obtain ls where ls: "make_layers fuel ?k = Some ls" "length ls \<le> e"
      "?k \<le> 1 \<longrightarrow> ls = []" "1 < ?k \<longrightarrow> tree_ok ls \<and> lwords (hd ls) = 1 \<and> last ls = new_layer ?k
            \<and> (\<forall>l \<in> set ls. layer_size l \<le> 2 ^ 31)" using Suc.IH by blast
    have m: "make_layers (Suc fuel) n = Some (ls @ [new_layer n])"
      using True ls(1) L(3) by simp
    show ?thesis
    proof (cases "1 < ?k")
      case False
      then have "?k = 1" using n by (auto simp: ceil64 split: if_splits)
      with False ls(3) m L Suc.prems(3) True d show ?thesis by simp
    next
      case many: True
      with ls(4) have t: "tree_ok ls" "lwords (hd ls) = 1" "last ls = new_layer ?k" by simp_all
      from many Suc.prems(3) have k: "0 < ?k" "?k \<le> 2 ^ 31" by simp_all
      have "tree_ok (ls @ [new_layer n])"
        using new_layer_ok(2,4) [OF k] new_layer_words [OF n Suc.prems(3)]
        by (intro tree_ok_snoc t(1) L(1)) (simp_all add: t(3) L(3))
      moreover have "ls \<noteq> []" using t(1) by auto
      ultimately show ?thesis
        using m t(2) ls(2,4) many True L(2) Suc.prems(3) d by simp
    qed
  qed simp
qed

lemma new_tree_ok:
  assumes "1 < n" and "n \<le> 2 ^ 31"
  shows "\<exists>t. new_BitmapTree n = Some t \<and> bmt_ok t \<and> capacity_of t = n \<and> free t = {..<n}"
proof -
  have "n \<le> 64 ^ 6" using assms(2) by simp
  from make_layers_ok [OF this, of 64] assms obtain ls where
    ls: "make_layers 64 n = Some ls" "length ls \<le> 6" "tree_ok ls" "lwords (hd ls) = 1"
      "last ls = new_layer n" "\<forall>l \<in> set ls. layer_size l \<le> 2 ^ 31" by auto
  let ?t = "\<lparr>layers = ls, deep = length ls\<rparr>"
  have "new_BitmapTree n = Some ?t" using ls(1,2) by (simp add: new_BitmapTree_def)
  moreover have "bmt_ok ?t" using ls by (simp add: bmt_ok_def)
  moreover have "capacity_of ?t = n" using assms new_layer_ok(2) [of n] ls(5)
    by (simp add: capacity_of_def)
  moreover have "free ?t = {..<n}" using assms new_layer_ok(2,4) [of n] ls(5)
    by (auto simp: free_def capacity_of_def)
  ultimately show ?thesis by blast
qed

section \<open>Turning back\<close>

lemma set_upward_bad:
  "tree_ok ls \<Longrightarrow> i < layer_size (last ls) \<Longrightarrow> i < 2 ^ 32 \<Longrightarrow> i mod 64 < 32 \<Longrightarrow>
    set_upward ls (int i) = Inl BadShift"
proof (induction ls rule: tree_ok.induct)
  case (2 l)
  then have "i div 64 < length (bits l)" using layer_word_bound [of l i] by (simp add: layer_ok_def)
  moreover have "64 - 1 - i mod 64 \<ge> 32" using 2 by simp
  ultimately show ?case using 2 by (simp add: layer_set_def int_shifted_one_def Let_def)
qed simp_all

text \<open>The bits that one \<open>set\<close> of a layer sets.\<close>

definition turned :: "nat \<Rightarrow> nat set" where
  "turned i = (if i mod 64 = 32 then {64 * (i div 64)..i} else {i})"

lemma shifted_bits:
  assumes "32 \<le> m" and "m < 64" and "j < 64"
  shows "\<exists>x. int_shifted_one (64 - 1 - m) = Inr x \<and>
    (bit x (63 - j) \<longleftrightarrow> (if m = 32 then j \<le> 32 else j = m))"
  using assms by (auto simp: int_shifted_one_def bit_simps)

lemma layer_set_eq:
  assumes "layer_ok l" and "i < layer_size l" and "32 \<le> i mod 64"
  shows "\<exists>l' up. layer_set l i = Inr (l', up) \<and> layer_size l' = layer_size l
    \<and> lwords l' = lwords l \<and> length (bits l') = length (bits l)
    \<and> (\<forall>j. j div 64 < lwords l \<longrightarrow> (layer_bit l' j \<longleftrightarrow> layer_bit l j \<or> j \<in> turned i))"
proof -
  have w: "i div 64 < length (bits l)"
    using assms layer_word_bound [of l i] by (simp add: layer_ok_def)
  from shifted_bits [OF assms(3) _ zero_less_numeral] obtain x where
    x: "int_shifted_one (64 - 1 - i mod 64) = Inr x" by fastforce
  have xb: "bit x (63 - j) \<longleftrightarrow> (if i mod 64 = 32 then j \<le> 32 else j = i mod 64)" if "j < 64" for j
    using shifted_bits [OF assms(3) _ that] x by fastforce
  let ?l = "l\<lparr>bits := (bits l)[i div 64 := bits l ! (i div 64) OR x]\<rparr>"
  have "layer_bit ?l j \<longleftrightarrow> layer_bit l j \<or> j \<in> turned i" if "j div 64 < lwords l" for j
  proof (cases "j div 64 = i div 64")
    case True
    have j: "j = 64 * (i div 64) + j mod 64" using True by (metis mult_div_mod_eq)
    have i: "i = 64 * (i div 64) + i mod 64" by simp
    have "j \<in> turned i \<longleftrightarrow> (if i mod 64 = 32 then j mod 64 \<le> 32 else j mod 64 = i mod 64)"
      unfolding turned_def using i j by (auto; linarith)
    with True w xb [of "j mod 64"] show ?thesis by (simp add: layer_bit_def bit_or_iff)
  next
    case False
    then have "j \<notin> turned i"
      by (auto simp: turned_def split: if_splits)
    with False w show ?thesis by (auto simp: layer_bit_def)
  qed
  moreover have "layer_set l i = Inr (?l, bits l ! (i div 64) = 0)"
    using assms w x by (simp add: layer_set_def Let_def)
  ultimately show ?thesis by (intro exI [of _ ?l] exI) simp
qed

section \<open>Trees whose upper layers say too much\<close>

text \<open>
  A \<open>set\<close> at position 32 marks words of the layer below as not empty that are. What is left then
  of \<open>tree_ok\<close> is that the layers fit one another; it is enough to say what requiring and turning
  back do to the last layer.
\<close>

fun chain_ok :: "layer list \<Rightarrow> bool" where
  "chain_ok [] = False"
| "chain_ok [l] = layer_ok l"
| "chain_ok (u # l # ls) = (layer_ok u \<and> layer_size u = lwords l \<and> chain_ok (l # ls))"

lemma tree_chain: "tree_ok ls \<Longrightarrow> chain_ok ls"
  by (induction ls rule: tree_ok.induct) auto

lemma chain_last: "chain_ok ls \<Longrightarrow> layer_ok (last ls)"
  by (induction ls rule: chain_ok.induct) auto

lemma chain_nonempty: "chain_ok ls \<Longrightarrow> ls \<noteq> []"
  by auto

lemma div_up: "k div 64 ^ Suc n = k div 64 ^ n div 64" for k :: nat
  by (simp add: div_mult2_eq [symmetric] mult.commute)

lemma chain_above:
  "chain_ok ls \<Longrightarrow> k < layer_size (last ls) \<Longrightarrow> k div 64 ^ length ls < lwords (hd ls)"
proof (induction ls rule: chain_ok.induct)
  case (2 l)
  then show ?case using layer_word_bound by simp
next
  case (3 u l ls)
  then have "k div 64 ^ length (l # ls) < layer_size u" "layer_ok u" by simp_all
  then show ?case using layer_word_bound by (simp only: list.size list.sel add_0_right add_Suc_right div_up)
qed simp

lemma descend_chain:
  "chain_ok (l # ls) \<Longrightarrow> \<forall>x \<in> set (l # ls). layer_size x \<le> 2 ^ 31 \<Longrightarrow> w < lwords l \<Longrightarrow>
    descend (l # ls) (int w) = Inr None
    \<or> (\<exists>k. descend (l # ls) (int w) = Inr (Some (trail (Suc (length ls)) k))
      \<and> k div 64 ^ Suc (length ls) = w \<and> k < layer_size (last (l # ls))
      \<and> layer_bit (last (l # ls)) k)"
proof (induction ls arbitrary: l w)
  case Nil
  then have ok: "layer_ok l" "layer_size l \<le> 2 ^ 31" by simp_all
  have w: "w < 2 ^ 32" using Nil.prems(3) lwords_bound [OF ok] by simp
  show ?case
  proof (cases "bits l ! w = 0")
    case False
    from firstBitSet_eq [OF ok(1) Nil.prems(3) False ok(2)] w show ?thesis by auto
  qed (use ok Nil.prems(3) w firstBitSet_none in simp)
next
  case (Cons m ls)
  then have ok: "layer_ok l" "layer_size l \<le> 2 ^ 31" "chain_ok (m # ls)" "layer_size l = lwords m"
    by simp_all
  have w: "w < 2 ^ 32" using Cons.prems(3) lwords_bound [OF ok(1,2)] by simp
  show ?case
  proof (cases "bits l ! w = 0")
    case False
    from firstBitSet_eq [OF ok(1) Cons.prems(3) False ok(2)] obtain i where
      i: "firstBitSet l w = Inr (int i)" "i div 64 = w" "i < lwords m" using ok(4) by auto
    have step: "descend (l # m # ls) (int w)
        = bind_res (descend (m # ls) (int i)) (\<lambda>r. Inr (map_option ((#) (int i)) r))"
      using i(1) w by simp
    from Cons.IH [OF ok(3) _ i(3)] Cons.prems(2) consider "descend (m # ls) (int i) = Inr None"
      | k where "descend (m # ls) (int i) = Inr (Some (trail (Suc (length ls)) k))"
        "k div 64 ^ Suc (length ls) = i" "k < layer_size (last (m # ls))" "layer_bit (last (m # ls)) k"
      by auto
    then show ?thesis
    proof cases
      case (2 k)
      have "k div 64 ^ Suc (length (m # ls)) = w"
        using 2(2) i(2) by (simp only: list.size div_up add_0_right add_Suc_right)
      moreover have "descend (l # m # ls) (int w) = Inr (Some (trail (Suc (length (m # ls))) k))"
        unfolding step 2(1) using 2(2) by simp
      ultimately show ?thesis using 2(3,4) by (intro disjI2 exI [of _ k]) simp
    next
      case 1
      then show ?thesis by (intro disjI1) (simp only: step, simp)
    qed
  qed (use ok Cons.prems(3) w firstBitSet_none in simp)
qed

lemma reset_chain:
  "chain_ok ls \<Longrightarrow> \<forall>x \<in> set ls. layer_size x \<le> 2 ^ 31 \<Longrightarrow> k < layer_size (last ls) \<Longrightarrow>
    \<exists>ls' z. reset_upward ls (trail (length ls) k) = Inr (ls', z) \<and> chain_ok ls'
      \<and> map layer_size ls' = map layer_size ls \<and> map lwords ls' = map lwords ls
      \<and> (\<forall>j. j div 64 < lwords (last ls) \<longrightarrow> (layer_bit (last ls') j \<longleftrightarrow> layer_bit (last ls) j \<and> j \<noteq> k))"
proof (induction ls rule: chain_ok.induct)
  case (2 l)
  moreover have "k < 2 ^ 32" using 2 by simp
  ultimately show ?case using layer_reset_eq [of l k] by auto
next
  case (3 u l ls)
  let ?i = "k div 64 ^ length (l # ls)"
  have ok: "layer_ok u" "layer_size u = lwords l" "chain_ok (l # ls)" using "3.prems"(1) by simp_all
  have i: "?i < layer_size u" using chain_above [OF ok(3)] "3.prems"(3) ok(2) by simp
  then have u32: "to_uint (int ?i) = ?i" using "3.prems"(2) by simp
  from "3.IH" [OF ok(3)] "3.prems"(2,3) obtain ms z where
    ms: "reset_upward (l # ls) (trail (length (l # ls)) k) = Inr (ms, z)" "chain_ok ms"
      "map layer_size ms = map layer_size (l # ls)" "map lwords ms = map lwords (l # ls)"
      "\<forall>j. j div 64 < lwords (last (l # ls)) \<longrightarrow>
          (layer_bit (last ms) j \<longleftrightarrow> layer_bit (last (l # ls)) j \<and> j \<noteq> k)" by auto
  obtain l' ls' where l': "ms = l' # ls'" using ms(2) by (cases ms) auto
  have step: "reset_upward (u # l # ls) (trail (length (u # l # ls)) k)
      = (if z then bind_res (layer_reset u ?i) (\<lambda>(u', y). Inr (u' # ms, y)) else Inr (u # ms, False))"
    using ms(1) u32 by (simp only: list.size trail.simps reset_upward.simps bind_res.simps
        prod.case add_Suc_right add_0_right)
  from layer_reset_eq [OF ok(1) i] obtain u' y where
    u': "layer_reset u ?i = Inr (u', y)" "layer_ok u'" "layer_size u' = layer_size u"
      "lwords u' = lwords u" by blast
  define x where "x = (if z then u' else u)"
  have "reset_upward (u # l # ls) (trail (length (u # l # ls)) k) = Inr (x # ms, z \<and> y)"
    using step u'(1) by (simp only: x_def) (cases z; simp only: if_True if_False bind_res.simps prod.case simp_thms)
  moreover have "layer_ok x" "layer_size x = layer_size u" "lwords x = lwords u"
    using u' ok(1) by (simp_all add: x_def)
  ultimately show ?case using ms(2-) ok(2) l'
    by (intro exI [of _ "x # ms"] exI [of _ "z \<and> y"]) (simp del: reset_upward.simps trail.simps)
qed simp

lemma turned_range: "j \<in> turned i \<Longrightarrow> j \<le> i \<and> j div 64 = i div 64"
  by (auto simp: turned_def split: if_splits)

lemma layer_set_ok:
  assumes "layer_ok l" and "i < layer_size l"
  shows "if i mod 64 < 32 then layer_set l i = Inl BadShift
    else \<exists>l' up. layer_set l i = Inr (l', up) \<and> layer_ok l' \<and> layer_size l' = layer_size l
      \<and> lwords l' = lwords l
      \<and> (\<forall>j. j div 64 < lwords l \<longrightarrow> (layer_bit l' j \<longleftrightarrow> layer_bit l j \<or> j \<in> turned i))"
proof (cases "i mod 64 < 32")
  case True
  have "i div 64 < length (bits l)" using layer_word_bound [OF assms] assms(1) by (simp add: layer_ok_def)
  with True assms(2) show ?thesis by (simp add: layer_set_def int_shifted_one_def Let_def)
next
  case False
  then have "32 \<le> i mod 64" by simp
  from layer_set_eq [OF assms this] obtain l' up where l': "layer_set l i = Inr (l', up)"
    "layer_size l' = layer_size l" "lwords l' = lwords l" "length (bits l') = length (bits l)"
    "\<forall>j. j div 64 < lwords l \<longrightarrow> (layer_bit l' j \<longleftrightarrow> layer_bit l j \<or> j \<in> turned i)" by blast
  have "\<not> layer_bit l' j" if "layer_size l \<le> j" "j < 64 * lwords l" for j
    using that l'(5) assms turned_range [of j i] by (auto simp: layer_ok_def)
  with l' assms(1) have "layer_ok l'" by (simp add: layer_ok_def)
  with l' False show ?thesis by auto
qed

lemma set_chain:
  "chain_ok ls \<Longrightarrow> \<forall>x \<in> set ls. layer_size x \<le> 2 ^ 31 \<Longrightarrow> k < layer_size (last ls) \<Longrightarrow>
    (set_upward ls (int k) = Inl BadShift \<and> (\<exists>i < length ls. k div 64 ^ i mod 64 < 32))
    \<or> (\<exists>ls' go i. set_upward ls (int k) = Inr (ls', go, i) \<and> chain_ok ls'
      \<and> (go \<longrightarrow> i = int (k div 64 ^ length ls))
      \<and> map layer_size ls' = map layer_size ls \<and> map lwords ls' = map lwords ls
      \<and> (\<forall>j. j div 64 < lwords (last ls) \<longrightarrow>
            (layer_bit (last ls') j \<longleftrightarrow> layer_bit (last ls) j \<or> j \<in> turned k)))"
proof (induction ls rule: chain_ok.induct)
  case (2 l)
  moreover have "k < 2 ^ 32" using 2 by simp
  ultimately show ?case using layer_set_ok [of l k] by (auto split: if_splits simp: zdiv_int)
next
  case (3 u l ls)
  let ?n = "length (l # ls)"
  let ?i = "k div 64 ^ ?n"
  have ok: "layer_ok u" "layer_size u = lwords l" "chain_ok (l # ls)" using "3.prems"(1) by simp_all
  have i: "?i < layer_size u" using chain_above [OF ok(3)] "3.prems"(3) ok(2) by simp
  then have u32: "to_uint (int ?i) = ?i" using "3.prems"(2) by simp
  have len: "length (u # l # ls) = Suc ?n" by simp
  have up: "int ?i div 64 = int (k div 64 ^ length (u # l # ls))"
    unfolding len div_up by (simp add: zdiv_int)
  from "3.IH" [OF ok(3)] "3.prems"(2,3) consider
      (bad) "set_upward (l # ls) (int k) = Inl BadShift" "\<exists>i < ?n. k div 64 ^ i mod 64 < 32"
    | (set) ms go i where "set_upward (l # ls) (int k) = Inr (ms, go, i)" "chain_ok ms" "go \<longrightarrow> i = int ?i"
      "map layer_size ms = map layer_size (l # ls)" "map lwords ms = map lwords (l # ls)"
      "\<forall>j. j div 64 < lwords (last (l # ls)) \<longrightarrow>
          (layer_bit (last ms) j \<longleftrightarrow> layer_bit (last (l # ls)) j \<or> j \<in> turned k)" by fastforce
  then show ?case
  proof cases
    case bad
    have "set_upward (u # l # ls) (int k) = Inl BadShift" using bad(1) by simp
    with bad(2) len show ?thesis using less_Suc_eq by metis
  next
    case set
    obtain l' ls' where l': "ms = l' # ls'" using set(2) by (cases ms) auto
    have step: "set_upward (u # l # ls) (int k) = (if go
        then bind_res (layer_set u (to_uint i)) (\<lambda>(u', up). Inr (u' # ms, up, i div 64))
        else Inr (u # ms, False, i))"
      by (subst set_upward.simps(2)) (simp only: set(1) bind_res.simps prod.case)
    show ?thesis
    proof (cases go)
      case False
      with step have "set_upward (u # l # ls) (int k) = Inr (u # ms, False, i)" by (simp only: if_False)
      with set l' ok show ?thesis
        by (intro disjI2 exI [of _ "u # ms"] exI [of _ False] exI [of _ i]) (simp del: set_upward.simps)
    next
      case True
      show ?thesis
      proof (cases "?i mod 64 < 32")
        case low: True
        with layer_set_ok [OF ok(1) i] have "layer_set u ?i = Inl BadShift" by simp
        with True step set(3) u32 have "set_upward (u # l # ls) (int k) = Inl BadShift"
          by (simp only: if_True simp_thms bind_res.simps)
        with low len show ?thesis by (metis lessI)
      next
        case False
        with layer_set_ok [OF ok(1) i] obtain u' y where
          "layer_set u ?i = Inr (u', y)" "layer_ok u'" "layer_size u' = layer_size u"
          "lwords u' = lwords u" by auto
        note u' = this
        with True step set(3) u32
        have "set_upward (u # l # ls) (int k) = Inr (u' # ms, y, int ?i div 64)"
          by (simp only: if_True simp_thms bind_res.simps prod.case)
        with u'(2-4) set l' ok up show ?thesis
          by (intro disjI2 exI [of _ "u' # ms"] exI [of _ y] exI [of _ "int ?i div 64"])
            (simp del: set_upward.simps)
      qed
    qed
  qed
qed simp

definition bmt_weak :: "bitmap_tree \<Rightarrow> bool" where
  "bmt_weak t \<longleftrightarrow> chain_ok (layers t) \<and> deep t = length (layers t)
     \<and> lwords (hd (layers t)) = 1 \<and> (\<forall>l \<in> set (layers t). layer_size l \<le> 2 ^ 31)"

lemma bmt_ok_weak: "bmt_ok t \<Longrightarrow> bmt_weak t"
  by (auto simp: bmt_ok_def bmt_weak_def tree_chain)

lemma weak_same_sizes:
  assumes "bmt_weak t" and "chain_ok ls" and "map layer_size ls = map layer_size (layers t)"
    and "map lwords ls = map lwords (layers t)"
  shows "bmt_weak (t\<lparr>layers := ls\<rparr>)" and "capacity_of (t\<lparr>layers := ls\<rparr>) = capacity_of t"
    and "length ls = length (layers t)"
proof -
  have ne: "ls \<noteq> []" "layers t \<noteq> []" using assms(1,2) by (auto simp: bmt_weak_def)
  then show "capacity_of (t\<lparr>layers := ls\<rparr>) = capacity_of t" using assms(3) by (simp add: capacity_of_def) (metis last_map)
  show len: "length ls = length (layers t)" using map_eq_imp_length_eq [OF assms(3)] .
  have "lwords (hd ls) = lwords (hd (layers t))" using assms(4) ne by (metis list.map_sel(1))
  moreover have "layer_size ` set ls = layer_size ` set (layers t)" using assms(3) by (metis list.set_map)
  then have "\<forall>x \<in> set ls. layer_size x \<le> 2 ^ 31" using assms(1) unfolding bmt_weak_def by (metis imageE imageI)
  ultimately show "bmt_weak (t\<lparr>layers := ls\<rparr>)" using assms(1,2) len by (simp add: bmt_weak_def)
qed

lemma weak_require:
  assumes "bmt_weak t"
  obtains (none) "bitRequire t = Inr (t, - 1)"
  | (takes) t' k where "bitRequire t = Inr (t', int k)" and "k \<in> free t" and "free t' = free t - {k}"
      and "bmt_weak t'" and "capacity_of t' = capacity_of t" and "length (layers t') = length (layers t)"
proof -
  obtain l ls where ls: "layers t = l # ls" using assms chain_nonempty by (cases "layers t") (auto simp: bmt_weak_def)
  let ?n = "Suc (length ls)"
  have c: "chain_ok (l # ls)" "\<forall>x \<in> set (l # ls). layer_size x \<le> 2 ^ 31" "0 < lwords l"
    "deep t = length (layers t)" using assms by (simp_all add: bmt_weak_def ls)
  from descend_chain [OF c(1-3)] consider "descend (layers t) 0 = Inr None"
    | k where "descend (layers t) 0 = Inr (Some (trail ?n k))" "k < layer_size (last (layers t))"
      "layer_bit (last (layers t)) k" using ls by auto
  then show thesis
  proof cases
    case 1
    then show thesis using c(4) by (intro none) (simp add: bitRequire_def)
  next
    case (2 k)
    from reset_chain [of "layers t" k] c(1,2) 2(2) obtain ms z where
      ms: "reset_upward (layers t) (trail ?n k) = Inr (ms, z)" "chain_ok ms"
        "map layer_size ms = map layer_size (layers t)" "map lwords ms = map lwords (layers t)"
        "\<forall>j. j div 64 < lwords (last (layers t)) \<longrightarrow>
          (layer_bit (last ms) j \<longleftrightarrow> layer_bit (last (layers t)) j \<and> j \<noteq> k)"
      unfolding ls by (auto simp del: trail.simps)
    note same = weak_same_sizes [OF assms ms(2-4)]
    have "layer_ok (last (layers t))" using chain_last c(1) ls by metis
    then have "free (t\<lparr>layers := ms\<rparr>) = free t - {k}"
      using ms(5) layer_word_bound same(2) by (auto simp: free_def capacity_of_def)
    moreover have "bitRequire t = Inr (t\<lparr>layers := ms\<rparr>, int k)"
      using c(4) 2(1) ms(1) last_trail [of ?n k] trail_nonempty [of "length ls" k]
      by (simp add: bitRequire_def del: trail.simps)
    ultimately show thesis using same 2(2,3)
      by (intro takes [of "t\<lparr>layers := ms\<rparr>" k]) (simp_all add: free_def capacity_of_def)
  qed
qed

lemma weak_turnback:
  assumes "bmt_weak t" and "k < capacity_of t"
  obtains (bad) i where "bitTurnback t (int k) = Inl BadShift" and "i < length (layers t)"
      and "k div 64 ^ i mod 64 < 32"
  | (turns) t' where "bitTurnback t (int k) = Inr t'" and "free t' = free t \<union> turned k"
      and "bmt_weak t'" and "capacity_of t' = capacity_of t" and "length (layers t') = length (layers t)"
proof -
  have c: "chain_ok (layers t)" "\<forall>x \<in> set (layers t). layer_size x \<le> 2 ^ 31"
    "deep t = length (layers t)" using assms by (simp_all add: bmt_weak_def)
  from set_chain [OF c(1,2)] assms(2) consider
      "set_upward (layers t) (int k) = Inl BadShift" "\<exists>i < length (layers t). k div 64 ^ i mod 64 < 32"
    | ms go i where "set_upward (layers t) (int k) = Inr (ms, go, i)" "chain_ok ms"
      "map layer_size ms = map layer_size (layers t)" "map lwords ms = map lwords (layers t)"
      "\<forall>j. j div 64 < lwords (last (layers t)) \<longrightarrow>
        (layer_bit (last ms) j \<longleftrightarrow> layer_bit (last (layers t)) j \<or> j \<in> turned k)"
    unfolding capacity_of_def by blast
  then show thesis
  proof cases
    case 1
    with c(3) show thesis by (auto simp: bitTurnback_def intro: bad)
  next
    case (2 ms go i)
    note same = weak_same_sizes [OF assms(1) 2(2-4)]
    have "layer_ok (last (layers t))" by (rule chain_last [OF c(1)])
    moreover have "turned k \<subseteq> {..<capacity_of t}"
      using turned_range [of _ k] assms(2) by (auto intro: le_less_trans)
    ultimately have "free (t\<lparr>layers := ms\<rparr>) = free t \<union> turned k"
      using 2(5) layer_word_bound same(2) by (auto simp: free_def capacity_of_def)
    moreover have "bitTurnback t (int k) = Inr (t\<lparr>layers := ms\<rparr>)"
      using c(3) 2(1) by (simp add: bitTurnback_def)
    ultimately show thesis using same by (intro turns [of "t\<lparr>layers := ms\<rparr>"]) simp_all
  qed
qed

text \<open>A layer is built only where there is more than one index.\<close>

lemma make_layers_depth:
  "1 < n \<Longrightarrow> n \<le> 2 ^ 31 \<Longrightarrow> make_layers fuel n = Some ls \<Longrightarrow> 64 ^ (length ls - 1) < n"
proof (induction fuel arbitrary: n ls)
  case (Suc fuel)
  let ?k = "(n + 63) div 64"
  have n: "0 < n" using Suc.prems(1) by simp
  from Suc.prems(1,3) obtain ms where ms: "make_layers fuel ?k = Some ms" "ls = ms @ [new_layer n]"
    using new_layer_ok(3) [OF n Suc.prems(2)] by auto
  show ?case
  proof (cases "1 < ?k")
    case True
    then obtain m where m: "length ms = Suc m" using ms(1) by (cases fuel) (auto split: if_splits)
    have "?k \<le> 2 ^ 31" using Suc.prems(2) by simp
    from Suc.IH [OF True this ms(1)] m have "64 ^ m < ?k" by simp
    then have "64 ^ m * 64 < n" by linarith
    then show ?thesis using m ms(2) by (simp add: mult.commute)
  next
    case False
    then have "ms = []" using ms(1) by (cases fuel) (auto split: if_splits)
    with ms(2) Suc.prems(1) show ?thesis by simp
  qed
qed simp

lemma new_tree_depth:
  assumes "1 < n" and "n \<le> 2 ^ 31" and "new_BitmapTree n = Some t" and "i < length (layers t)"
  shows "64 ^ i < n"
proof -
  from assms(3) obtain ls where ls: "make_layers 64 n = Some ls" "length (layers t) \<le> length ls"
    by (auto simp: new_BitmapTree_def)
  have "i \<le> length ls - 1" using assms(4) ls(2) by simp
  then have "(64::nat) ^ i \<le> 64 ^ (length ls - 1)" by (intro power_increasing) simp_all
  from this make_layers_depth [OF assms(1,2) ls(1)] show ?thesis by (rule le_less_trans)
qed

section \<open>The contract of an allocator of indexes\<close>

fun require_n :: "('t \<Rightarrow> ('t \<times> int) res) \<Rightarrow> nat \<Rightarrow> 't \<Rightarrow> ('t \<times> int list) res" where
  "require_n req 0 t = Inr (t, [])"
| "require_n req (Suc m) t = bind_res (req t)
     (\<lambda>(t', i). bind_res (require_n req m t') (\<lambda>(t'', is). Inr (t'', i # is)))"

text \<open>
  What the users of a tree rely on: the state stands for a set of free indexes below a capacity;
  requiring takes the least of them, or answers -1 and changes nothing.
\<close>

locale index_allocator =
  fixes require :: "'t \<Rightarrow> ('t \<times> int) res"
    and ok :: "'t \<Rightarrow> bool"
    and free_of :: "'t \<Rightarrow> nat set"
    and cap :: "'t \<Rightarrow> nat"
  assumes require_full: "ok t \<Longrightarrow> free_of t = {} \<Longrightarrow> require t = Inr (t, - 1)"
    and require_some: "ok t \<Longrightarrow> free_of t \<noteq> {} \<Longrightarrow>
      \<exists>t' k. require t = Inr (t', int k) \<and> ok t' \<and> cap t' = cap t
        \<and> k \<in> free_of t \<and> (\<forall>j \<in> free_of t. k \<le> j) \<and> free_of t' = free_of t - {k}"
    and free_below_cap: "ok t \<Longrightarrow> i \<in> free_of t \<Longrightarrow> i < cap t"
begin

lemma require_cases:
  assumes "ok t"
  obtains (full) "free_of t = {}" and "require t = Inr (t, - 1)"
  | (takes) t' k where "require t = Inr (t', int k)" and "ok t'" and "cap t' = cap t" and "k < cap t"
      and "k \<in> free_of t" and "\<forall>j \<in> free_of t. k \<le> j" and "free_of t' = free_of t - {k}"
  using require_full [OF assms] require_some [OF assms] free_below_cap [OF assms] by metis

lemma require_least_is:
  assumes "ok t" and "a \<in> free_of t" and "\<forall>j \<in> free_of t. a \<le> j"
  obtains t' where "require t = Inr (t', int a)" and "ok t'" and "cap t' = cap t"
    and "free_of t' = free_of t - {a}"
  using assms(1)
proof (cases rule: require_cases)
  case (takes t' k)
  then have "k = a" using assms(2,3) by (meson le_antisym)
  with takes that show thesis by blast
qed (use assms(2) in simp)

lemma require_n_full:
  "ok t \<Longrightarrow> free_of t = {} \<Longrightarrow> require_n require m t = Inr (t, replicate m (- 1))"
  by (induction m) (simp_all add: require_full)

text \<open>An interval of free indexes is handed out from its lower end, and then -1.\<close>

lemma require_interval:
  "ok t \<Longrightarrow> free_of t = {a..<a + n} \<Longrightarrow>
    \<exists>t'. require_n require (n + m) t = Inr (t', map int [a..<a + n] @ replicate m (- 1))"
proof (induction n arbitrary: a t)
  case 0
  then show ?case using require_n_full by simp
next
  case (Suc n)
  have "a \<in> free_of t" "\<forall>j \<in> free_of t. a \<le> j" using Suc.prems(2) by simp_all
  then obtain t' where r: "require t = Inr (t', int a)" "ok t'" "free_of t' = free_of t - {a}"
    by (rule require_least_is [OF Suc.prems(1)])
  have "free_of t' = {Suc a..<Suc a + n}" unfolding r(3) Suc.prems(2) by auto
  from Suc.IH [OF r(2) this] obtain t'' where
    "require_n require (n + m) t' = Inr (t'', map int [Suc a..<Suc a + n] @ replicate m (- 1))" by blast
  moreover have "[a..<a + Suc n] = a # [Suc a..<Suc a + n]" by (simp add: upt_rec)
  ultimately show ?case using r(1) by (intro exI [of _ t'']) (simp del: upt_Suc)
qed

end

interpretation tree: index_allocator bitRequire bmt_ok free capacity_of
  by unfold_locales (simp_all add: bitRequire_none bitRequire_some, simp add: free_def)

section \<open>Properties\<close>

text \<open>C21: On a well-formed tree \<open>bitRequire\<close> returns -1 and changes nothing when no index is
  free; otherwise it returns the least free index, takes exactly that index out of the free
  ones, and leaves the tree well formed.\<close>

theorem bitRequire_least:
  assumes "bmt_ok t"
  shows "\<exists>t' r. bitRequire t = Inr (t', r) \<and> bmt_ok t' \<and> capacity_of t' = capacity_of t
    \<and> (if free t = {} then r = - 1 \<and> t' = t
       else \<exists>k. r = int k \<and> k \<in> free t \<and> (\<forall>j \<in> free t. k \<le> j) \<and> free t' = free t - {k})"
  using assms by (cases rule: tree.require_cases) (auto intro: assms)

theorem bitRequire_least_witness:
  "\<exists>t t'. new_BitmapTree 100 = Some t \<and> bitRequire t = Inr (t', 0)
    \<and> free t' = {..<100} - {0}"
proof -
  from new_tree_ok [of 100] obtain t where t: "new_BitmapTree 100 = Some t" "bmt_ok t"
    "free t = {..<100}" by auto
  have z: "0 \<in> free t" using t(3) by simp
  with bitRequire_least [OF t(2)] obtain t' k where
    k: "bitRequire t = Inr (t', int k)" "\<forall>j \<in> free t. k \<le> j" "free t' = free t - {k}"
    by (metis empty_iff)
  from k(2) z have "k = 0" by auto
  with k(1,3) t(1,3) show ?thesis by auto
qed

text \<open>A new tree of \<open>n\<close> indexes (2 to \<open>2 ^ 31\<close>) hands out each index once, in the order
  0, 1, ..., n - 1, and answers -1 ever after.\<close>

theorem new_tree_hands_out_all:
  assumes "1 < n" and "n \<le> 2 ^ 31"
  shows "\<exists>t t'. new_BitmapTree n = Some t
    \<and> require_n bitRequire (n + m) t = Inr (t', map int [0..<n] @ replicate m (- 1))"
proof -
  from new_tree_ok [OF assms] obtain t where t: "new_BitmapTree n = Some t" "bmt_ok t"
    "free t = {0..<0 + n}" by (auto simp: lessThan_atLeast0)
  from tree.require_interval [OF t(2,3), of m] t(1) show ?thesis by auto
qed

theorem new_tree_hands_out_all_witness:
  "\<exists>t t'. new_BitmapTree 3 = Some t \<and> require_n bitRequire 5 t = Inr (t', [0, 1, 2, - 1, - 1])"
proof -
  have e: "map int [0..<3] @ replicate 2 (- 1) = [0, 1, 2, - 1, - 1]" by (simp add: numeral_eq_Suc)
  have "(1::nat) < 3" and "(3::nat) \<le> 2 ^ 31" and "(3::nat) + 2 = 5" by simp_all
  with new_tree_hands_out_all [of 3 2] e show ?thesis by metis
qed

text \<open>Giving back an index whose position in its 64-bit word is below 32 is undefined
  behaviour: \<open>1 << (63 - position)\<close> shifts an \<open>int\<close> by 32 or more.\<close>

theorem bitTurnback_low_half_undefined:
  assumes "bmt_ok t" and "i < capacity_of t" and "i mod 64 < 32"
  shows "bitTurnback t (int i) = Inl BadShift"
proof -
  have "last (layers t) \<in> set (layers t)" using assms(1) bmt_nonempty by fastforce
  then have "i < 2 ^ 32" using assms(1,2) by (fastforce simp: bmt_ok_def capacity_of_def)
  with set_upward_bad [of "layers t" i] assms show ?thesis
    by (simp add: bitTurnback_def bmt_ok_def capacity_of_def)
qed

theorem bitTurnback_low_half_undefined_witness:
  "\<exists>t. new_BitmapTree 100 = Some t \<and> bitTurnback t (int 70) = Inl BadShift"
proof -
  from new_tree_ok [of 100] obtain t where t: "new_BitmapTree 100 = Some t" "bmt_ok t"
    "capacity_of t = 100" by auto
  from bitTurnback_low_half_undefined [OF t(2), of 70] t show ?thesis by auto
qed

text \<open>In a tree of one layer, giving back an index in the upper half of the word frees it;
  but the index at position 32 frees every index from 0 to 32 with it, used ones included.\<close>

theorem bitTurnback_frees:
  assumes "bmt_ok t" and "layers t = [l]" and "i < capacity_of t" and "32 \<le> i mod 64"
  shows "\<exists>t'. bitTurnback t (int i) = Inr t' \<and> capacity_of t' = capacity_of t
    \<and> free t' = free t \<union> (if i mod 64 = 32 then {64 * (i div 64)..i} else {i})"
proof -
  have l: "layer_ok l" "i < layer_size l" "layer_size l \<le> 2 ^ 31" "deep t = length (layers t)"
    using assms(1-3) by (simp_all add: bmt_ok_def capacity_of_def)
  from layer_set_eq [OF l(1,2) assms(4)] obtain l' up where s: "layer_set l i = Inr (l', up)"
    "layer_size l' = layer_size l"
    "\<forall>j. j div 64 < lwords l \<longrightarrow> (layer_bit l' j \<longleftrightarrow> layer_bit l j \<or> j \<in> turned i)" by blast
  let ?t = "t\<lparr>layers := [l']\<rparr>"
  have "bitTurnback t (int i) = Inr ?t"
    using l s(1) by (simp add: bitTurnback_def assms(2))
  moreover have "turned i \<subseteq> {..i}" by (auto simp: turned_def split: if_splits)
  then have "free ?t = free t \<union> turned i"
    using s(2,3) layer_word_bound [OF l(1)] l(2) by (auto simp: free_def capacity_of_def assms(2))
  ultimately show ?thesis
    using s(2) by (intro exI [of _ ?t]) (simp add: capacity_of_def assms(2) turned_def)
qed

theorem bitTurnback_frees_witness:
  "\<exists>t'. bitTurnback \<lparr>layers = [\<lparr>bits = [0], lwords = 1, tailBits = 0, layer_size = 64\<rparr>], deep = 1\<rparr> 32
      = Inr t' \<and> free t' = {0..32}"
proof -
  let ?l = "\<lparr>bits = [0], lwords = 1, tailBits = 0, layer_size = 64\<rparr>"
  let ?t = "\<lparr>layers = [?l], deep = 1\<rparr>"
  have ok: "bmt_ok ?t" by (simp add: bmt_ok_def layer_ok_def layer_bit_def)
  have "free ?t = {}" by (auto simp: free_def capacity_of_def layer_bit_def)
  with bitTurnback_frees [OF ok, of ?l 32] show ?thesis by (auto simp: capacity_of_def)
qed

end
