(* ===== verification/FixedBuffer.thy ===== *)
theory FixedBuffer
  imports BitmapTree
begin

text \<open>
  \<^verbatim>\<open>include/FixedBuffer.hpp\<close>: a pool of \<open>C\<close> cells of \<open>N\<close> bytes each whose free cells are kept
  by a bitmap tree, the buffer that owns one cell, and the creator of objects in cells. An
  address is an offset into the memory of the pool; \<open>None\<close> is the null pointer.
\<close>

section \<open>The pool\<close>

record fixed_pool =
  cells :: nat
  cell_size :: nat
  bmt :: bitmap_tree

definition new_FixedBufferPool :: "nat \<Rightarrow> nat \<Rightarrow> fixed_pool option" where
  "new_FixedBufferPool c n = map_option (\<lambda>t. \<lparr>cells = c, cell_size = n, bmt = t\<rparr>) (new_BitmapTree c)"

definition alloc :: "fixed_pool \<Rightarrow> (fixed_pool \<times> nat option) res" where
  "alloc p = bind_res (bitRequire (bmt p)) (\<lambda>(t, offset).
     Inr (p\<lparr>bmt := t\<rparr>, if offset \<ge> 0 then Some (nat offset * cell_size p) else None))"

definition release :: "nat option \<Rightarrow> fixed_pool \<Rightarrow> fixed_pool res" where
  "release buf p = (case buf of
       None \<Rightarrow> Inr p
     | Some a \<Rightarrow> if cell_size p = 0 then Inl DivByZero
         else bind_res (bitTurnback (bmt p) (int (a div cell_size p))) (\<lambda>t. Inr (p\<lparr>bmt := t\<rparr>)))"

section \<open>Buffers and objects\<close>

record fixed_buffer =
  fb_len :: nat
  fb_bufptr :: "nat option"

definition new_FixedBuffer :: "fixed_pool \<Rightarrow> (fixed_pool \<times> fixed_buffer) res" where
  "new_FixedBuffer p = bind_res (alloc p) (\<lambda>(p', a). Inr (p', \<lparr>fb_len = 0, fb_bufptr = a\<rparr>))"

definition delete_FixedBuffer :: "fixed_buffer \<Rightarrow> fixed_pool \<Rightarrow> fixed_pool res" where
  "delete_FixedBuffer b p = release (fb_bufptr b) p"

definition setLength :: "nat \<Rightarrow> fixed_buffer \<Rightarrow> fixed_buffer" where
  "setLength n b = b\<lparr>fb_len := n\<rparr>"

text \<open>
  \<open>FixedObjCreator<T, N>\<close> allocates from \<open>FixedBufferPool<sizeof(T), N>\<close>; an object of \<open>T\<close> covers
  the \<open>sizeof(T)\<close> bytes from its address.
\<close>

definition creator_pool :: "nat \<Rightarrow> nat \<Rightarrow> fixed_pool option" where
  "creator_pool sizeof_T n = new_FixedBufferPool sizeof_T n"

definition create :: "fixed_pool \<Rightarrow> (fixed_pool \<times> nat option) res" where
  "create p = alloc p"

section \<open>The invariant\<close>

definition fixed_pool_ok :: "fixed_pool \<Rightarrow> bool" where
  "fixed_pool_ok p \<longleftrightarrow> bmt_ok (bmt p) \<and> capacity_of (bmt p) = cells p"

text \<open>The bytes of a cell.\<close>

definition cell :: "fixed_pool \<Rightarrow> nat \<Rightarrow> nat set" where
  "cell p k = {k * cell_size p..<k * cell_size p + cell_size p}"

lemma cell_inside: "k < cells p \<Longrightarrow> cell p k \<subseteq> {..<cells p * cell_size p}"
  using mult_le_mono1 [of "Suc k" "cells p" "cell_size p"] by (auto simp: cell_def)

lemma cells_disjoint:
  assumes "k \<noteq> j"
  shows "cell p k \<inter> cell p j = {}"
proof -
  have "cell p a \<inter> cell p b = {}" if "a < b" for a b
    using mult_le_mono1 [of "Suc a" b "cell_size p"] that by (auto simp: cell_def)
  with assms show ?thesis by (metis inf_commute nat_neq_iff)
qed

lemma new_pool_ok:
  assumes "1 < c" and "c \<le> 2 ^ 31"
  obtains p where "new_FixedBufferPool c n = Some p" and "fixed_pool_ok p" and "cells p = c"
    and "cell_size p = n" and "free (bmt p) = {..<c}"
proof -
  from new_tree_ok [OF assms] obtain t where "new_BitmapTree c = Some t" "bmt_ok t"
    "free t = {..<c}" "capacity_of t = c" by auto
  then show thesis
    by (intro that [of "\<lparr>cells = c, cell_size = n, bmt = t\<rparr>"])
      (simp_all add: new_FixedBufferPool_def fixed_pool_ok_def)
qed

lemma alloc_cases:
  assumes "fixed_pool_ok p"
  obtains (full) "free (bmt p) = {}" and "alloc p = Inr (p, None)"
  | (cell) k t where "k \<in> free (bmt p)" and "\<forall>j \<in> free (bmt p). k \<le> j" and "k < cells p"
      and "alloc p = Inr (p\<lparr>bmt := t\<rparr>, Some (k * cell_size p))" and "free t = free (bmt p) - {k}"
      and "fixed_pool_ok (p\<lparr>bmt := t\<rparr>)"
proof -
  from assms have ok: "bmt_ok (bmt p)" and c: "capacity_of (bmt p) = cells p"
    by (simp_all add: fixed_pool_ok_def)
  from ok show thesis
  proof (cases rule: tree.require_cases)
    case full
    then show thesis by (intro that(1)) (simp_all add: alloc_def)
  next
    case (takes t k)
    with c show thesis by (intro that(2) [of k t]) (simp_all add: alloc_def fixed_pool_ok_def)
  qed
qed

text \<open>The pool is itself such an allocator, of the numbers of its cells.\<close>

definition alloc_index :: "fixed_pool \<Rightarrow> (fixed_pool \<times> int) res" where
  "alloc_index p = bind_res (alloc p) (\<lambda>(p', a).
     Inr (p', case a of None \<Rightarrow> - 1 | Some x \<Rightarrow> int (x div cell_size p)))"

interpretation pool: index_allocator alloc_index "\<lambda>p. fixed_pool_ok p \<and> cell_size p > 0"
  "\<lambda>p. free (bmt p)" cells
proof unfold_locales
  fix p
  assume "fixed_pool_ok p \<and> cell_size p > 0" and "free (bmt p) = {}"
  then show "alloc_index p = Inr (p, - 1)"
    by (auto simp: alloc_index_def elim: alloc_cases)
next
  fix p
  assume ok: "fixed_pool_ok p \<and> cell_size p > 0" and ne: "free (bmt p) \<noteq> {}"
  from ok have "fixed_pool_ok p" ..
  then show "\<exists>p' k. alloc_index p = Inr (p', int k) \<and> (fixed_pool_ok p' \<and> cell_size p' > 0)
      \<and> cells p' = cells p \<and> k \<in> free (bmt p) \<and> (\<forall>j \<in> free (bmt p). k \<le> j)
      \<and> free (bmt p') = free (bmt p) - {k}"
  proof (cases rule: alloc_cases)
    case (cell k t)
    with ok show ?thesis
      by (intro exI [of _ "p\<lparr>bmt := t\<rparr>"] exI [of _ k]) (simp add: alloc_index_def)
  qed (use ne in simp)
next
  fix p i
  assume "fixed_pool_ok p \<and> cell_size p > 0" and "i \<in> free (bmt p)"
  then show "i < cells p" using tree.free_below_cap [of "bmt p" i] by (simp add: fixed_pool_ok_def)
qed

lemma alloc_least:
  assumes "fixed_pool_ok p" and "a \<in> free (bmt p)" and "\<forall>j \<in> free (bmt p). a \<le> j"
  obtains t where "alloc p = Inr (p\<lparr>bmt := t\<rparr>, Some (a * cell_size p))"
    and "free t = free (bmt p) - {a}" and "fixed_pool_ok (p\<lparr>bmt := t\<rparr>)"
  using assms(1)
proof (cases rule: alloc_cases)
  case full
  with assms(2) show thesis by simp
next
  case (cell k t)
  then have "k = a" using assms(2,3) by (meson le_antisym)
  with cell that show thesis by blast
qed

text \<open>A new pool hands out its \<open>c\<close> cells, one after the other, and then null.\<close>

lemma new_pool_hands_out_all:
  assumes "1 < c" and "c \<le> 2 ^ 31" and "n > 0"
  shows "\<exists>p p'. new_FixedBufferPool c n = Some p
    \<and> require_n alloc_index (c + m) p = Inr (p', map int [0..<c] @ replicate m (- 1))"
proof -
  obtain p where p: "new_FixedBufferPool c n = Some p" "fixed_pool_ok p" "cell_size p = n"
    "free (bmt p) = {..<c}" by (rule new_pool_ok [OF assms(1,2)])
  have "free (bmt p) = {0..<0 + c}" by (simp add: p(4) lessThan_atLeast0)
  moreover have "fixed_pool_ok p \<and> cell_size p > 0" using p(2,3) assms(3) by simp
  ultimately obtain p' where
    "require_n alloc_index (c + m) p = Inr (p', map int [0..<0 + c] @ replicate m (- 1))"
    using pool.require_interval by blast
  with p(1) show ?thesis by auto
qed

section \<open>Runs of a pool\<close>

text \<open>
  What the users of a pool do: \<open>Take\<close> calls \<open>alloc\<close>, \<open>Give a\<close> calls \<open>release\<close> on a cell its caller
  holds. The list beside the pool is the cells handed out and not given back.
\<close>

datatype pool_op = Take | Give nat

fun run_pool :: "pool_op list \<Rightarrow> fixed_pool \<times> nat list \<Rightarrow> (fixed_pool \<times> nat list) res" where
  "run_pool [] (p, held) = Inr (p, held)"
| "run_pool (Take # ops) (p, held) = bind_res (alloc p)
     (\<lambda>(p', r). run_pool ops (p', case r of None \<Rightarrow> held | Some a \<Rightarrow> a # held))"
| "run_pool (Give a # ops) (p, held) =
     (if a \<in> set held
      then bind_res (release (Some a) p) (\<lambda>p'. run_pool ops (p', remove1 a held))
      else run_pool ops (p, held))"

text \<open>Every cell held is one of the pool's, and not free in the tree.\<close>

definition held_ok :: "nat \<Rightarrow> nat \<Rightarrow> nat \<Rightarrow> fixed_pool \<Rightarrow> nat list \<Rightarrow> bool" where
  "held_ok d c n p held \<longleftrightarrow> bmt_weak (bmt p) \<and> length (layers (bmt p)) = d
     \<and> capacity_of (bmt p) = c \<and> cell_size p = n \<and> distinct held
     \<and> (\<forall>a \<in> set held. \<exists>k < c. a = k * n \<and> k \<notin> free (bmt p))"

lemma take_held:
  assumes "held_ok d c n p held" and "0 < n"
  obtains p' r where "alloc p = Inr (p', r)"
    and "held_ok d c n p' (case r of None \<Rightarrow> held | Some a \<Rightarrow> a # held)"
proof -
  note ok = assms(1) [unfolded held_ok_def]
  from ok have "bmt_weak (bmt p)" by simp
  then show thesis
  proof (cases rule: weak_require)
    case none
    then show thesis using assms(1) by (intro that [of p None]) (simp_all add: alloc_def)
  next
    case (takes t k)
    have "k < c" using takes(2) ok by (simp add: free_def)
    then have "held_ok d c n (p\<lparr>bmt := t\<rparr>) (k * n # held)"
      using takes ok assms(2) by (auto simp: held_ok_def)
    with takes(1) ok show thesis by (intro that [of "p\<lparr>bmt := t\<rparr>" "Some (k * n)"]) (simp_all add: alloc_def)
  qed
qed

lemma give_held:
  assumes "held_ok d c n p held" and "0 < n" and "a \<in> set held" and "a div n mod 64 \<noteq> 32"
  obtains (bad) i where "release (Some a) p = Inl BadShift" and "i < d" and "a div n div 64 ^ i mod 64 < 32"
  | (gives) p' where "release (Some a) p = Inr p'" and "held_ok d c n p' (remove1 a held)"
proof -
  note ok = assms(1) [unfolded held_ok_def]
  from ok assms(3) obtain k where k: "k < c" "a = k * n" "k \<notin> free (bmt p)" by blast
  have a: "a div n = k" using k(2) assms(2) by simp
  have r: "release (Some a) p = bind_res (bitTurnback (bmt p) (int k)) (\<lambda>t. Inr (p\<lparr>bmt := t\<rparr>))"
    using ok assms(2) a by (simp add: release_def)
  from ok k(1) have "bmt_weak (bmt p)" "k < capacity_of (bmt p)" by simp_all
  then show thesis
  proof (cases rule: weak_turnback)
    case (bad i)
    then show thesis using ok by (intro that(1) [of i]) (simp_all add: r a)
  next
    case (turns t)
    have "turned k = {k}" using assms(4) a by (simp add: turned_def)
    then have "held_ok d c n (p\<lparr>bmt := t\<rparr>) (remove1 a held)"
      using turns ok k(2) by (fastforce simp: held_ok_def)
    with turns(1) show thesis by (intro that(2) [of "p\<lparr>bmt := t\<rparr>"]) (simp_all add: r)
  qed
qed

lemma run_pool_held:
  "held_ok d c n p held \<Longrightarrow> 0 < n \<Longrightarrow> \<forall>a. Give a \<in> set ops \<longrightarrow> a div n mod 64 \<noteq> 32 \<Longrightarrow>
    case run_pool ops (p, held) of
      Inl e \<Rightarrow> e = BadShift \<and> (\<exists>a i. Give a \<in> set ops \<and> i < d \<and> a div n div 64 ^ i mod 64 < 32)
    | Inr (p', held') \<Rightarrow> held_ok d c n p' held'"
proof (induction ops arbitrary: p held)
  case (Cons oper ops)
  have later: "case run_pool ops (q, h) of
      Inl e \<Rightarrow> e = BadShift \<and> (\<exists>a i. Give a \<in> set (oper # ops) \<and> i < d \<and> a div n div 64 ^ i mod 64 < 32)
    | Inr (p', held') \<Rightarrow> held_ok d c n p' held'" if "held_ok d c n q h" for q h
    using Cons.IH [OF that Cons.prems(2)] Cons.prems(3) by (cases "run_pool ops (q, h)") auto
  show ?case
  proof (cases oper)
    case Take
    obtain p' r where "alloc p = Inr (p', r)"
      "held_ok d c n p' (case r of None \<Rightarrow> held | Some a \<Rightarrow> a # held)"
      by (rule take_held [OF Cons.prems(1,2)])
    with later show ?thesis unfolding Take by simp
  next
    case (Give a)
    show ?thesis
    proof (cases "a \<in> set held")
      case True
      from Cons.prems(3) Give have "a div n mod 64 \<noteq> 32" by simp
      with Cons.prems(1,2) True show ?thesis
      proof (cases rule: give_held)
        case (bad i)
        with True Give show ?thesis by auto
      next
        case (gives p')
        with True later [OF gives(2)] show ?thesis unfolding Give by simp
      qed
    next
      case False
      with later [OF Cons.prems(1)] show ?thesis unfolding Give by simp
    qed
  qed
qed simp

text \<open>With nothing given back, the cells held are exactly those that are not free.\<close>

lemma run_takes:
  "fixed_pool_ok p \<Longrightarrow> card (free (bmt p)) + length held = cells p \<Longrightarrow> \<forall>a. Give a \<notin> set ops \<Longrightarrow>
    \<exists>p' held'. run_pool ops (p, held) = Inr (p', held') \<and> fixed_pool_ok p' \<and> cells p' = cells p
      \<and> card (free (bmt p')) + length held' = cells p"
proof (induction ops arbitrary: p held)
  case (Cons oper ops)
  have t: "oper = Take" "\<forall>a. Give a \<notin> set ops" using Cons.prems(3) by (cases oper; auto)+
  from Cons.prems(1) show ?case
  proof (cases rule: alloc_cases)
    case full
    with Cons.IH [OF Cons.prems(1,2)] t show ?thesis by simp
  next
    case (cell k q)
    have "finite (free (bmt p))" by (simp add: free_def)
    then have "card (free q) + length (k * cell_size p # held) = cells p"
      using card_Suc_Diff1 [OF _ cell(1)] cell(5) Cons.prems(2) by simp
    with Cons.IH [OF cell(6), of "k * cell_size p # held"] t cell(4) show ?thesis by simp
  qed
qed simp

lemma run_pool_append: "run_pool (xs @ ys) (p, held) = bind_res (run_pool xs (p, held)) (run_pool ys)"
proof (induction xs arbitrary: p held)
  case (Cons oper xs)
  show ?case
  proof (cases oper)
    case Take
    with Cons show ?thesis by (cases "alloc p") (auto split: option.splits)
  next
    case (Give a)
    with Cons show ?thesis by (cases "release (Some a) p") auto
  qed
qed simp

text \<open>From a new pool \<open>m\<close> allocations take the cells 0 to \<open>m - 1\<close>.\<close>

lemma atLeastLessThan_minus_first: "{j..<c} - {j} = {Suc j..<c}" for j :: nat
  by (rule set_eqI) (simp; linarith)

lemma run_first_takes:
  "fixed_pool_ok p \<Longrightarrow> free (bmt p) = {j..<c} \<Longrightarrow> j + m \<le> c \<Longrightarrow>
    \<exists>p'. run_pool (replicate m Take) (p, held)
        = Inr (p', rev (map (\<lambda>k. k * cell_size p) [j..<j + m]) @ held)
      \<and> fixed_pool_ok p' \<and> free (bmt p') = {j + m..<c} \<and> cell_size p' = cell_size p \<and> cells p' = cells p"
proof (induction m arbitrary: j p held)
  case (Suc m)
  have "j \<in> free (bmt p)" "\<forall>i \<in> free (bmt p). j \<le> i" using Suc.prems(2,3) by simp_all
  then obtain t where t: "alloc p = Inr (p\<lparr>bmt := t\<rparr>, Some (j * cell_size p))"
    "free t = free (bmt p) - {j}" "fixed_pool_ok (p\<lparr>bmt := t\<rparr>)" by (rule alloc_least [OF Suc.prems(1)])
  have free: "free (bmt (p\<lparr>bmt := t\<rparr>)) = {Suc j..<c}"
    using t(2) unfolding Suc.prems(2) atLeastLessThan_minus_first by simp
  have le: "Suc j + m \<le> c" using Suc.prems(3) by simp
  have same: "cell_size (p\<lparr>bmt := t\<rparr>) = cell_size p" "cells (p\<lparr>bmt := t\<rparr>) = cells p" by simp_all
  from Suc.IH [OF t(3) free le, of "j * cell_size p # held", unfolded same] obtain p' where
    p': "run_pool (replicate m Take) (p\<lparr>bmt := t\<rparr>, j * cell_size p # held)
      = Inr (p', rev (map (\<lambda>k. k * cell_size p) [Suc j..<Suc j + m]) @ j * cell_size p # held)"
    "fixed_pool_ok p'" "free (bmt p') = {Suc j + m..<c}" "cell_size p' = cell_size p" "cells p' = cells p"
    by blast
  have "[j..<j + Suc m] = j # [Suc j..<Suc j + m]"
    unfolding add_Suc_right add_Suc by (rule upt_conv_Cons) simp
  then have held: "rev (map (\<lambda>k. k * cell_size p) [j..<j + Suc m]) @ held
      = rev (map (\<lambda>k. k * cell_size p) [Suc j..<Suc j + m]) @ j * cell_size p # held"
    by (simp only: list.map rev.simps append_assoc append_Cons append_Nil)
  have "run_pool (replicate (Suc m) Take) (p, held)
      = run_pool (replicate m Take) (p\<lparr>bmt := t\<rparr>, j * cell_size p # held)"
    by (simp add: t(1))
  with p' held show ?case by (intro exI [of _ p'] conjI) (simp_all only: add_Suc add_Suc_right)
qed simp

lemma alloc_null_iff: "fixed_pool_ok p \<Longrightarrow> \<exists>q r. alloc p = Inr (q, r) \<and> (r = None \<longleftrightarrow> free (bmt p) = {})"
  by (erule alloc_cases) auto

lemma new_held:
  assumes "1 < c" and "c \<le> 2 ^ 31" and "new_FixedBufferPool c n = Some p"
  obtains d where "held_ok d c n p []" and "\<forall>i < d. 64 ^ i < c" and "fixed_pool_ok p" and "cells p = c"
    and "free (bmt p) = {..<c}"
proof -
  obtain q where q: "new_FixedBufferPool c n = Some q" "fixed_pool_ok q" "cells q = c"
    "cell_size q = n" "free (bmt q) = {..<c}" by (rule new_pool_ok [OF assms(1,2)])
  from assms(3) have "new_BitmapTree c = Some (bmt p)" by (auto simp: new_FixedBufferPool_def)
  from new_tree_depth [OF assms(1,2) this] q assms(3) show thesis
    by (intro that [of "length (layers (bmt p))"])
      (auto simp: held_ok_def fixed_pool_ok_def bmt_ok_weak)
qed

lemma give_take_length:
  assumes "run_pool [Give a, Take] (p, held) = Inr (p', held')" and "Suc m \<le> length held"
  shows "m \<le> length held'"
proof -
  obtain h q where h: "run_pool [Take] (q, h) = Inr (p', held')" "m \<le> length h"
    using assms by (cases "release (Some a) p") (auto simp: length_remove1 split: if_splits)
  obtain q' r where "alloc q = Inr (q', r)" using h(1) by (cases "alloc q") auto
  with h show ?thesis by (cases r) auto
qed

lemma weak_one_layer: "bmt_weak t \<Longrightarrow> length (layers t) = 1 \<Longrightarrow> bmt_ok t"
  by (cases "layers t") (auto simp: bmt_weak_def bmt_ok_def)

section \<open>Properties\<close>



text \<open>Giving back the cell at position 32 frees the 32 before it too: the next \<open>alloc\<close> hands out
  cell 0, which is still held.\<close>

theorem position_32_hands_out_twice:
  assumes "32 < c" and "c \<le> 64" and "0 < n" and "new_FixedBufferPool c n = Some p"
  shows "\<exists>p'. run_pool (replicate 33 Take @ [Give (32 * n), Take]) (p, [])
    = Inr (p', 0 # rev (map (\<lambda>k. k * n) [0..<32]))"
proof -
  have c: "1 < c" "c \<le> 2 ^ 31" using assms(1,2) by simp_all
  obtain d where d: "held_ok d c n p []" "\<forall>i < d. 64 ^ i < c" "fixed_pool_ok p" "cells p = c"
    "free (bmt p) = {..<c}" by (rule new_held [OF c assms(4)])
  have n: "cell_size p = n" using d(1) by (simp add: held_ok_def)
  have f: "free (bmt p) = {0..<c}" using d(5) by (simp only: lessThan_atLeast0)
  obtain q where q: "run_pool (replicate 33 Take) (p, []) = Inr (q, rev (map (\<lambda>k. k * n) [0..<33]))"
    "fixed_pool_ok q" "free (bmt q) = {33..<c}" "cell_size q = n" "cells q = c"
    using run_first_takes [OF d(3) f, of 33 "[]", unfolded n d(4) append_Nil2 add_0] assms(1)
    by (auto simp del: upt_rec_numeral)
  have ok: "held_ok d c n q (rev (map (\<lambda>k. k * n) [0..<33]))"
    using run_pool_held [OF d(1) assms(3), of "replicate 33 Take"] q(1) by (simp del: upt_rec_numeral)
  have "\<not> 1 < d" using d(2) assms(2) by auto
  moreover have "d \<noteq> 0" using ok by (auto simp: held_ok_def bmt_weak_def)
  ultimately have one: "length (layers (bmt q)) = 1" using ok by (simp add: held_ok_def)
  have held: "rev (map (\<lambda>k. k * n) [0..<33]) = 32 * n # rev (map (\<lambda>k. k * n) [0..<32])"
    using upt_Suc_append [of 0 32] by (simp del: upt_rec_numeral)
  have k: "32 < capacity_of (bmt q)" using q(2,5) assms(1) by (simp add: fixed_pool_ok_def)
  have weak: "bmt_weak (bmt q)" using q(2) by (simp add: fixed_pool_ok_def bmt_ok_weak)
  obtain t where t: "bitTurnback (bmt q) (int 32) = Inr t" "free t = free (bmt q) \<union> turned 32"
    "bmt_weak t" "capacity_of t = c" "length (layers t) = 1"
  proof (rule weak_turnback [OF weak k], goal_cases bad turns)
    case (bad i)
    then show thesis using one by simp
  next
    case (turns t)
    then show thesis using one q(2,5) by (intro turns(1)) (simp_all add: fixed_pool_ok_def)
  qed
  let ?q = "q\<lparr>bmt := t\<rparr>"
  have ok: "fixed_pool_ok ?q" using t(3-5) q(5) by (simp add: fixed_pool_ok_def weak_one_layer)
  have z: "0 \<in> free (bmt ?q)" "\<forall>j \<in> free (bmt ?q). 0 \<le> j" using t(2) by (simp_all add: turned_def)
  obtain q' where "alloc ?q = Inr (q', Some 0)" by (rule alloc_least [OF ok z]) (use that in simp)
  moreover have "release (Some (32 * n)) q = Inr ?q"
    using t(1) q(4) assms(3) by (simp add: release_def)
  ultimately have "run_pool [Give (32 * n), Take] (q, rev (map (\<lambda>k. k * n) [0..<33]))
      = Inr (q', 0 # rev (map (\<lambda>k. k * n) [0..<32]))"
    by (simp add: held del: upt_rec_numeral)
  with q(1) show ?thesis by (simp only: run_pool_append bind_res.simps) blast
qed

text \<open>A pool of one cell has a tree without layers, which takes nothing: it hands out its only cell
  for ever.\<close>

theorem one_cell_pool:
  "\<exists>p. new_FixedBufferPool 1 n = Some p \<and> alloc p = Inr (p, Some 0)"
proof -
  let ?t = "\<lparr>layers = [], deep = 0\<rparr>"
  let ?p = "\<lparr>cells = 1, cell_size = n, bmt = ?t\<rparr>"
  have "make_layers 64 1 = Some []" by (simp add: numeral_eq_Suc)
  then have "new_FixedBufferPool 1 n = Some ?p"
    by (simp add: new_FixedBufferPool_def new_BitmapTree_def)
  moreover have "alloc ?p = Inr (?p, Some 0)" by (simp add: alloc_def bitRequire_def)
  ultimately show ?thesis by blast
qed

text \<open>\<open>FixedObjCreator<T, N>\<close> swaps the arguments of the pool (it asks for \<open>sizeof(T)\<close> cells of
  \<open>N\<close> bytes): with \<open>T\<close> larger than \<open>N\<close> bytes the first two objects it creates overlap.\<close>

theorem created_objects_overlap:
  assumes "1 < sz" and "sz \<le> 2 ^ 31" and "n < sz"
  shows "\<exists>p p1 p2 b. creator_pool sz n = Some p \<and> create p = Inr (p1, Some 0)
    \<and> create p1 = Inr (p2, Some b) \<and> {0..<sz} \<inter> {b..<b + sz} \<noteq> {}"
proof -
  obtain p where p: "new_FixedBufferPool sz n = Some p" "fixed_pool_ok p" "cell_size p = n"
    "free (bmt p) = {..<sz}" by (rule new_pool_ok [OF assms(1,2)])
  have z: "0 \<in> free (bmt p)" "\<forall>j \<in> free (bmt p). 0 \<le> j" using p(4) assms(1) by simp_all
  obtain p1 where p1: "alloc p = Inr (p1, Some 0)" "free (bmt p1) = {..<sz} - {0}"
    "fixed_pool_ok p1" "cell_size p1 = n"
    by (rule alloc_least [OF p(2) z]) (use p(3,4) that in simp)
  have o: "1 \<in> free (bmt p1)" "\<forall>j \<in> free (bmt p1). 1 \<le> j" using p1(2) assms(1) by auto
  obtain p2 where p2: "alloc p1 = Inr (p2, Some n)"
    by (rule alloc_least [OF p1(3) o]) (use p1(4) that in simp)
  have "n \<in> {0..<sz} \<inter> {n..<n + sz}" using assms by simp
  then have "{0..<sz} \<inter> {n..<n + sz} \<noteq> {}" by blast
  with p(1) p1(1) p2 show ?thesis unfolding create_def creator_pool_def by blast
qed

theorem created_objects_overlap_witness:
  "\<exists>p p1 p2 b. creator_pool 100 10 = Some p \<and> create p = Inr (p1, Some 0)
    \<and> create p1 = Inr (p2, Some b) \<and> {0..<100} \<inter> {b..<b + 100} \<noteq> {}"
  by (rule created_objects_overlap) simp_all

end
