(* ===== verification/SingleCache.thy ===== *)
theory SingleCache
  imports Prelude
begin

text \<open>
  \<^verbatim>\<open>include/SingleCache.hpp\<close>: a cache of \<open>N\<close> bytes in front of an output stream. The
  stream is the template parameter \<open>OPS\<close>: its \<open>flush\<close> is an argument of the operations, and the
  locale \<open>output_stream\<close> is what the cache relies on. \<open>append\<close> reserves its room under the
  lock and copies after releasing it; both halves are definitions of their own, so that
  interleavings of threads can be stated.
\<close>

section \<open>State and operations\<close>

record 'o single_cache =
  cache_len :: nat
  cache_data :: "byte list"
  ops :: 'o

definition new_SingleCache :: "nat \<Rightarrow> 'o \<Rightarrow> 'o single_cache" where
  "new_SingleCache N out = \<lparr>cache_len = 0, cache_data = replicate N 0, ops = out\<rparr>"

definition flushNoLock :: "('o \<Rightarrow> byte list \<Rightarrow> 'o) \<Rightarrow> 'o single_cache \<Rightarrow> 'o single_cache" where
  "flushNoLock fl c =
     (if cache_len c > 0
      then c\<lparr>ops := fl (ops c) (take (cache_len c) (cache_data c)), cache_len := 0\<rparr>
      else c)"

definition flushSafely :: "('o \<Rightarrow> byte list \<Rightarrow> 'o) \<Rightarrow> 'o single_cache \<Rightarrow> 'o single_cache" where
  "flushSafely fl c = flushNoLock fl c"

text \<open>\<open>vector::resize\<close>.\<close>

definition resize_cache :: "nat \<Rightarrow> byte list \<Rightarrow> byte list" where
  "resize_cache n v = take n v @ replicate (n - length v) 0"

text \<open>The reserved place, as an index into the cache.\<close>

definition markUsed ::
  "nat \<Rightarrow> ('o \<Rightarrow> byte list \<Rightarrow> 'o) \<Rightarrow> nat \<Rightarrow> 'o single_cache \<Rightarrow> 'o single_cache \<times> nat" where
  "markUsed N fl expect c =
     (if expect \<le> N
      then (let c1 = (if expect + cache_len c > N then flushNoLock fl c else c) in
            (c1\<lparr>cache_len := cache_len c1 + expect\<rparr>, cache_len c1))
      else (let c1 = flushNoLock fl c in
            (c1\<lparr>cache_data := resize_cache expect (cache_data c1), cache_len := expect\<rparr>, 0)))"

definition copy_to :: "nat \<Rightarrow> byte list \<Rightarrow> 'o single_cache \<Rightarrow> 'o single_cache res" where
  "copy_to pos bs c =
     (if pos + length bs \<le> length (cache_data c)
      then Inr (c\<lparr>cache_data := take pos (cache_data c) @ bs @ drop (pos + length bs) (cache_data c)\<rparr>)
      else Inl OutOfBounds)"

definition append_cache ::
  "nat \<Rightarrow> ('o \<Rightarrow> byte list \<Rightarrow> 'o) \<Rightarrow> byte list \<Rightarrow> 'o single_cache \<Rightarrow> 'o single_cache res" where
  "append_cache N fl bs c = (let (c1, pos) = markUsed N fl (length bs) c in copy_to pos bs c1)"

text \<open>The destructor.\<close>

definition delete_SingleCache :: "('o \<Rightarrow> byte list \<Rightarrow> 'o) \<Rightarrow> 'o single_cache \<Rightarrow> 'o" where
  "delete_SingleCache fl c = ops (flushSafely fl c)"

datatype cache_op = Append "byte list" | Flush

fun run_cache :: "nat \<Rightarrow> ('o \<Rightarrow> byte list \<Rightarrow> 'o) \<Rightarrow> cache_op list \<Rightarrow> 'o single_cache \<Rightarrow> 'o single_cache res" where
  "run_cache N fl [] c = Inr c"
| "run_cache N fl (Append bs # es) c = bind_res (append_cache N fl bs c) (run_cache N fl es)"
| "run_cache N fl (Flush # es) c = run_cache N fl es (flushSafely fl c)"

fun appended :: "cache_op list \<Rightarrow> byte list" where
  "appended [] = []"
| "appended (Append bs # es) = bs @ appended es"
| "appended (Flush # es) = appended es"

section \<open>The contract of the stream\<close>

definition cached :: "'o single_cache \<Rightarrow> byte list" where
  "cached c = take (cache_len c) (cache_data c)"

definition cache_ok :: "nat \<Rightarrow> 'o single_cache \<Rightarrow> bool" where
  "cache_ok N c \<longleftrightarrow> N \<le> length (cache_data c) \<and> cache_len c \<le> length (cache_data c)"

locale output_stream =
  fixes fl :: "'o \<Rightarrow> byte list \<Rightarrow> 'o"
    and accepted :: "'o \<Rightarrow> byte list"
    and open_stream :: "'o \<Rightarrow> bool"
  assumes flush_law: "open_stream s \<Longrightarrow> accepted (fl s bs) = accepted s @ bs"
    and flush_open: "open_stream s \<Longrightarrow> open_stream (fl s bs)"
begin

lemma flushNoLock_law:
  assumes "cache_ok N c" and "open_stream (ops c)"
  shows "cache_ok N (flushNoLock fl c)" and "open_stream (ops (flushNoLock fl c))"
    and "accepted (ops (flushNoLock fl c)) = accepted (ops c) @ cached c"
    and "cache_len (flushNoLock fl c) = 0"
    and "cache_data (flushNoLock fl c) = cache_data c"
  using assms by (auto simp: flushNoLock_def cache_ok_def cached_def flush_law flush_open)

lemma append_law:
  assumes "cache_ok N c" and "open_stream (ops c)"
  shows "\<exists>c'. append_cache N fl bs c = Inr c' \<and> cache_ok N c' \<and> open_stream (ops c')
    \<and> accepted (ops c') @ cached c' = accepted (ops c) @ cached c @ bs"
proof -
  note F = flushNoLock_law [OF assms]
  let ?n = "length bs"
  have step: "\<exists>c'. copy_to (cache_len d) bs (d\<lparr>cache_len := cache_len d + ?n\<rparr>) = Inr c'
      \<and> cache_ok N c' \<and> ops c' = ops d \<and> cached c' = cached d @ bs"
    if "cache_ok N d" "cache_len d + ?n \<le> length (cache_data d)" for d :: "'o single_cache"
    using that by (cases bs) (auto simp: copy_to_def cache_ok_def cached_def min_def)
  consider "?n \<le> N" "?n + cache_len c \<le> N" | "?n \<le> N" "?n + cache_len c > N" | "?n > N" by linarith
  then show ?thesis
  proof cases
    case 1
    then have "cache_len c + ?n \<le> length (cache_data c)" using assms(1) by (simp add: cache_ok_def)
    from step [OF assms(1) this] 1 assms(2) show ?thesis
      by (auto simp: append_cache_def markUsed_def)
  next
    case 2
    let ?d = "flushNoLock fl c"
    have "cache_len ?d + ?n \<le> length (cache_data ?d)" using 2 F by (simp add: cache_ok_def)
    from step [OF F(1) this] 2 F show ?thesis
      by (auto simp: append_cache_def markUsed_def Let_def cached_def)
  next
    case 3
    let ?d = "(flushNoLock fl c)\<lparr>cache_data := resize_cache ?n (cache_data c)\<rparr>"
    have d: "cache_ok N ?d" "cache_len ?d + ?n \<le> length (cache_data ?d)"
      using 3 F(4) by (simp_all add: cache_ok_def resize_cache_def)
    from step [OF d] 3 F show ?thesis
      by (auto simp: append_cache_def markUsed_def Let_def cached_def resize_cache_def)
  qed
qed

lemma run_law:
  "cache_ok N c \<Longrightarrow> open_stream (ops c) \<Longrightarrow>
    \<exists>c'. run_cache N fl es c = Inr c' \<and> cache_ok N c' \<and> open_stream (ops c')
      \<and> accepted (ops c') @ cached c' = accepted (ops c) @ cached c @ appended es"
proof (induction es arbitrary: c)
  case Nil
  then show ?case by simp
next
  case (Cons e es)
  show ?case
  proof (cases e)
    case (Append bs)
    from append_law [OF Cons.prems, of bs] obtain c1 where c1: "append_cache N fl bs c = Inr c1"
      "cache_ok N c1" "open_stream (ops c1)"
      "accepted (ops c1) @ cached c1 = accepted (ops c) @ cached c @ bs" by blast
    from Cons.IH [OF c1(2,3)] c1(1,4) Append show ?thesis by (metis append_assoc appended.simps(2)
        bind_res.simps(2) run_cache.simps(2))
  next
    case Flush
    note F = flushNoLock_law [OF Cons.prems]
    from Cons.IH [OF F(1,2)] F(3,4) Flush show ?thesis
      by (simp add: flushSafely_def cached_def)
  qed
qed

text \<open>Nothing is lost, repeated or reordered on the way to the stream.\<close>

lemma all_accepted:
  assumes "open_stream s"
  shows "\<exists>c. run_cache N fl es (new_SingleCache N s) = Inr c
    \<and> accepted (delete_SingleCache fl c) = accepted s @ appended es"
proof -
  have ok: "cache_ok N (new_SingleCache N s)" "open_stream (ops (new_SingleCache N s))"
    "cached (new_SingleCache N s) = []" "ops (new_SingleCache N s) = s"
    using assms by (simp_all add: cache_ok_def new_SingleCache_def cached_def)
  from run_law [OF ok(1,2), of es] ok(3,4) obtain c where c: "cache_ok N c" "open_stream (ops c)"
    "run_cache N fl es (new_SingleCache N s) = Inr c"
    "accepted (ops c) @ cached c = accepted s @ appended es" by auto
  from flushNoLock_law(3) [OF c(1,2)] c(3,4) show ?thesis
    by (simp add: delete_SingleCache_def flushSafely_def)
qed

end

end
