(* ===== verification/TimeUtil.thy ===== *)
theory TimeUtil
  imports Prelude
begin

text \<open>
  \<^verbatim>\<open>include/TimeUtil.hpp\<close> and \<^verbatim>\<open>TimeUtil.cpp\<close>: the text of a time and time stamps. What the
  clocks say is given: \<open>time\<close> as a number of seconds, \<open>gettimeofday\<close> as seconds and
  microseconds, \<open>localtime\<close> as the broken-down time.
\<close>

section \<open>Broken-down time\<close>

record tm =
  tm_year :: nat      \<comment> \<open>years since 1900\<close>
  tm_mon :: nat       \<comment> \<open>0 to 11\<close>
  tm_mday :: nat      \<comment> \<open>1 to 31\<close>
  tm_hour :: nat
  tm_min :: nat
  tm_sec :: nat       \<comment> \<open>to 60, for a leap second\<close>

definition tm_ok :: "tm \<Rightarrow> bool" where
  "tm_ok t \<longleftrightarrow> tm_mon t < 12 \<and> 1 \<le> tm_mday t \<and> tm_mday t \<le> 31 \<and> tm_hour t < 24 \<and> tm_min t < 60
     \<and> tm_sec t \<le> 60"

section \<open>Formatting\<close>

text \<open>
  \<open>strftime\<close>, for the conversions the library uses; any other one is \<open>other\<close>. It stores the text
  only when it fits \<open>max\<close> bytes with its terminating zero, and else returns 0.
\<close>

definition digits2 :: "nat \<Rightarrow> string" where
  "digits2 n = [char_of (48 + n div 10 mod 10), char_of (48 + n mod 10)]"

definition conversion :: "(char \<Rightarrow> tm \<Rightarrow> string) \<Rightarrow> char \<Rightarrow> tm \<Rightarrow> string" where
  "conversion other c t =
     (if c = CHR ''y'' then digits2 (tm_year t mod 100)
      else if c = CHR ''m'' then digits2 (tm_mon t + 1)
      else if c = CHR ''d'' then digits2 (tm_mday t)
      else if c = CHR ''H'' then digits2 (tm_hour t)
      else if c = CHR ''M'' then digits2 (tm_min t)
      else if c = CHR ''S'' then digits2 (tm_sec t)
      else other c t)"

fun strftime_text :: "(char \<Rightarrow> tm \<Rightarrow> string) \<Rightarrow> string \<Rightarrow> tm \<Rightarrow> string" where
  "strftime_text other [] t = []"
| "strftime_text other [c] t = [c]"
| "strftime_text other (c # d # r) t =
     (if c = CHR ''%'' then conversion other d t @ strftime_text other r t
      else c # strftime_text other (d # r) t)"

text \<open>The result and what the buffer holds, \<open>None\<close> where its contents are unspecified.\<close>

definition strftime :: "(char \<Rightarrow> tm \<Rightarrow> string) \<Rightarrow> nat \<Rightarrow> string \<Rightarrow> tm \<Rightarrow> nat \<times> string option" where
  "strftime other mx fmt t = (let s = strftime_text other fmt t in
     if length s < mx then (length s, Some s) else (0, None))"

abbreviation MAX_TIME_STR :: nat where "MAX_TIME_STR \<equiv> 64"

text \<open>\<open>format\<close>: the zero put behind the text makes a failed conversion an empty string.\<close>

definition format_time :: "(char \<Rightarrow> tm \<Rightarrow> string) \<Rightarrow> string \<Rightarrow> tm \<Rightarrow> string" where
  "format_time other fmt t = (case strftime other (MAX_TIME_STR - 1) fmt t of
     (len, str) \<Rightarrow> (case str of None \<Rightarrow> [] | Some s \<Rightarrow> take len s))"

definition fmt_yymmdd :: "(char \<Rightarrow> tm \<Rightarrow> string) \<Rightarrow> tm \<Rightarrow> string" where
  "fmt_yymmdd other t = format_time other ''%y-%m-%d'' t"

definition fmt_yymmddhhmm :: "(char \<Rightarrow> tm \<Rightarrow> string) \<Rightarrow> tm \<Rightarrow> string" where
  "fmt_yymmddhhmm other t = format_time other ''%y-%m-%d_%H:%M'' t"

definition fmt_yymmddhhmmss :: "(char \<Rightarrow> tm \<Rightarrow> string) \<Rightarrow> tm \<Rightarrow> string" where
  "fmt_yymmddhhmmss other t = format_time other ''%y-%m-%d_%H:%M:%S'' t"

section \<open>Time stamps\<close>

definition timestampSec :: "int \<Rightarrow> u32" where
  "timestampSec ts = word_of_int ts"

definition timestampMS :: "int \<Rightarrow> int \<Rightarrow> u64" where
  "timestampMS tv_sec tv_usec = word_of_int (tv_sec * 1000 + tv_usec div 1000)"

section \<open>What the texts say\<close>

lemma char_digit_inj:
  assumes "char_of (48 + a) = (char_of (48 + b) :: char)" and "a < 10" and "b < 10"
  shows "a = (b :: nat)"
proof -
  have "of_char (char_of (48 + a) :: char) = (of_char (char_of (48 + b) :: char) :: nat)"
    using assms(1) by simp
  then show ?thesis using assms(2,3) by (simp del: char_of_nat)
qed

lemma digits2_inj:
  assumes "a < 100" and "b < 100"
  shows "digits2 a = digits2 b \<longleftrightarrow> a = b"
proof
  assume "digits2 a = digits2 b"
  then have d: "char_of (48 + a div 10) = (char_of (48 + b div 10) :: char)"
    and m: "char_of (48 + a mod 10) = (char_of (48 + b mod 10) :: char)"
    using assms by (simp_all add: digits2_def)
  have "a div 10 = b div 10" by (rule char_digit_inj [OF d]) (use assms in auto)
  moreover have "a mod 10 = b mod 10" by (rule char_digit_inj [OF m]) auto
  ultimately show "a = b" by (metis div_mult_mod_eq)
qed simp

lemma length_digits2 [simp]: "length (digits2 n) = 2"
  by (simp add: digits2_def)

text \<open>The texts, whatever the unused conversions are.\<close>

lemma time_texts:
  "fmt_yymmdd other t = digits2 (tm_year t mod 100) @ ''-'' @ digits2 (tm_mon t + 1) @ ''-''
     @ digits2 (tm_mday t)"
  "fmt_yymmddhhmm other t = fmt_yymmdd other t @ ''_'' @ digits2 (tm_hour t) @ '':'' @ digits2 (tm_min t)"
  "fmt_yymmddhhmmss other t = fmt_yymmddhhmm other t @ '':'' @ digits2 (tm_sec t)"
  by (simp_all add: fmt_yymmdd_def fmt_yymmddhhmm_def fmt_yymmddhhmmss_def format_time_def strftime_def
      conversion_def Let_def)

lemma fmt_yymmdd_length [simp]: "length (fmt_yymmdd other t) = 8"
  by (simp add: time_texts)

text \<open>The date tells the days of a century apart.\<close>

lemma fmt_yymmdd_inj:
  assumes "tm_ok t" and "tm_ok u"
  shows "fmt_yymmdd other t = fmt_yymmdd other u \<longleftrightarrow>
    tm_year t mod 100 = tm_year u mod 100 \<and> tm_mon t = tm_mon u \<and> tm_mday t = tm_mday u"
proof -
  have "fmt_yymmdd other t = fmt_yymmdd other u \<longleftrightarrow>
      digits2 (tm_year t mod 100) = digits2 (tm_year u mod 100)
      \<and> digits2 (tm_mon t + 1) = digits2 (tm_mon u + 1) \<and> digits2 (tm_mday t) = digits2 (tm_mday u)"
    by (simp add: time_texts digits2_def)
  then show ?thesis using assms by (simp add: tm_ok_def digits2_inj)
qed

text \<open>Milliseconds never run backwards while the clock does not, and advance with it.\<close>

lemma timestampMS_eq:
  assumes "0 \<le> tv_sec" and "tv_sec < 2 ^ 53" and "0 \<le> tv_usec" and "tv_usec < 1000000"
  shows "uint (timestampMS tv_sec tv_usec) = (tv_sec * 1000000 + tv_usec) div 1000"
proof -
  have "(tv_sec * 1000000 + tv_usec) div 1000 = tv_sec * 1000 + tv_usec div 1000" by simp
  moreover have "tv_sec * 1000 + tv_usec div 1000 < 2 ^ 64" using assms by simp
  moreover have "0 \<le> tv_sec * 1000 + tv_usec div 1000" using assms by simp
  ultimately show ?thesis by (simp only: timestampMS_def uint_word_of_int) simp
qed

text \<open>Seconds are 32 bits wide and unsigned: they last until the year 2106.\<close>

lemma timestampSec_wraps: "timestampSec (ts + 2 ^ 32) = timestampSec ts"
  by (simp add: timestampSec_def)

end
