(* ===== verification/LogFile.thy ===== *)
theory LogFile
  imports SingleCache TimeUtil
begin

text \<open>
  \<^verbatim>\<open>include/LogFile.hpp\<close> and \<^verbatim>\<open>LogFile.cpp\<close>: the file behind the log. Callers
  queue pieces of the log; a thread writes them to the file; the destructor stops the thread
  and writes what is left. The callers and the thread are an inductive step relation, one step
  per critical section. The result of \<open>fopen\<close> is given to the constructor; \<open>fwrite\<close> is taken
  to write what it is given.
\<close>

section \<open>State and operations\<close>

record logfile =
  ready :: bool
  logging :: bool
  file_open :: bool               \<comment> \<open>\<open>_file\<close> is not null\<close>
  written :: "byte list"          \<comment> \<open>what has been written to the file\<close>
  cacheQueue :: "byte list option list"   \<comment> \<open>\<open>None\<close> is a null \<open>SpCache\<close>\<close>

text \<open>The path of the log directory, as the constructor completes it.\<close>

definition fix_basePath :: "string \<Rightarrow> string" where
  "fix_basePath p = (if p = '''' then ''./'' else if last p \<noteq> CHR ''/'' then p @ ''/'' else p)"

text \<open>\<open>getFileName\<close>: \<open>snprintf\<close> into a static buffer of 256 bytes, for the day \<open>t\<close>.\<close>

definition getFileName :: "(char \<Rightarrow> tm \<Rightarrow> string) \<Rightarrow> string \<Rightarrow> string \<Rightarrow> tm \<Rightarrow> string" where
  "getFileName other basePath prefix t =
     take 255 (basePath @ prefix @ ''_'' @ fmt_yymmdd other t @ ''.log'')"

text \<open>\<open>createNewFile\<close>, with whether \<open>fopen\<close> succeeded.\<close>

definition createNewFile :: "bool \<Rightarrow> logfile \<Rightarrow> logfile" where
  "createNewFile opened l = l\<lparr>file_open := opened, ready := opened\<rparr>"

definition new_DailyLogFile :: "bool \<Rightarrow> logfile" where
  "new_DailyLogFile opened = createNewFile opened
     \<lparr>ready = False, logging = True, file_open = False, written = [], cacheQueue = []\<rparr>"

definition closeFile :: "logfile \<Rightarrow> logfile" where
  "closeFile l = (if file_open l then l\<lparr>file_open := False, ready := False\<rparr> else l)"

definition recreateNewFile :: "bool \<Rightarrow> logfile \<Rightarrow> logfile" where
  "recreateNewFile opened l = createNewFile opened (closeFile l)"

definition log_flush :: "byte list option \<Rightarrow> logfile \<Rightarrow> logfile" where
  "log_flush p l = (if logging l then l\<lparr>cacheQueue := cacheQueue l @ [p]\<rparr> else l)"

definition processNoLock :: "logfile \<Rightarrow> logfile res" where
  "processNoLock l = (case cacheQueue l of
       [] \<Rightarrow> Inl NullDeref
     | None # q \<Rightarrow> Inr l
     | Some p # q \<Rightarrow>
         if p \<noteq> []
         then (if file_open l then Inr (l\<lparr>written := written l @ p, cacheQueue := q\<rparr>)
               else Inl NullDeref)
         else Inr (l\<lparr>cacheQueue := q\<rparr>))"

text \<open>
  The last loop of the destructor, after the thread has ended. A null piece is never popped,
  so the loop does not end; \<open>None\<close> is that outcome.
\<close>

partial_function (option) drain :: "logfile \<Rightarrow> logfile res option" where
  "drain l = (if cacheQueue l = [] then Some (Inr l)
     else (case processNoLock l of Inl e \<Rightarrow> Some (Inl e) | Inr l' \<Rightarrow> drain l'))"

definition finish :: "logfile \<Rightarrow> logfile res option" where
  "finish l = map_option (\<lambda>r. bind_res r (\<lambda>l'. Inr (closeFile l'))) (drain l)"

section \<open>Threads\<close>

text \<open>
  One turn of the loop of \<open>looper\<close> is one critical section: waiting leaves the state as it is,
  stopping ends the thread. \<open>flushed\<close> is the history of the pieces taken from callers.
\<close>

record log_sys =
  lf :: logfile
  thread_running :: bool
  flushed :: "byte list list"

inductive log_step :: "log_sys \<Rightarrow> log_sys \<Rightarrow> bool" where
  flush_accepted: "logging (lf s) \<Longrightarrow>
    log_step s (s\<lparr>lf := log_flush (Some p) (lf s), flushed := flushed s @ [p]\<rparr>)"
| flush_refused: "\<not> logging (lf s) \<Longrightarrow> log_step s (s\<lparr>lf := log_flush (Some p) (lf s)\<rparr>)"
| looper_works: "thread_running s \<Longrightarrow> logging (lf s) \<Longrightarrow> cacheQueue (lf s) \<noteq> [] \<Longrightarrow> ready (lf s) \<Longrightarrow>
    processNoLock (lf s) = Inr l \<Longrightarrow> log_step s (s\<lparr>lf := l\<rparr>)"
| looper_stops: "thread_running s \<Longrightarrow> \<not> logging (lf s) \<Longrightarrow> log_step s (s\<lparr>thread_running := False\<rparr>)"
| stop_logging: "log_step s (s\<lparr>lf := (lf s)\<lparr>logging := False\<rparr>\<rparr>)"

inductive log_reaches :: "log_sys \<Rightarrow> log_sys \<Rightarrow> bool" where
  log_here: "log_reaches s s"
| log_more: "log_reaches s t \<Longrightarrow> log_step t u \<Longrightarrow> log_reaches s u"

inductive_cases log_stepE: "log_step s t"

definition start_log :: "bool \<Rightarrow> log_sys" where
  "start_log opened = \<lparr>lf = new_DailyLogFile opened, thread_running = True, flushed = []\<rparr>"

section \<open>Nothing is lost\<close>

text \<open>What a piece contributes to the file.\<close>

definition pending :: "byte list option list \<Rightarrow> byte list" where
  "pending q = concat (map (\<lambda>p. case p of None \<Rightarrow> [] | Some bs \<Rightarrow> bs) q)"

definition log_inv :: "log_sys \<Rightarrow> bool" where
  "log_inv s \<longleftrightarrow> written (lf s) @ pending (cacheQueue (lf s)) = concat (flushed s)
     \<and> None \<notin> set (cacheQueue (lf s)) \<and> (ready (lf s) \<longleftrightarrow> file_open (lf s))"

lemma log_step_open: "log_step s t \<Longrightarrow> file_open (lf t) = file_open (lf s)"
  by (erule log_stepE) (auto simp: log_flush_def processNoLock_def
      split: list.splits option.splits if_splits)

lemma log_reaches_open: "log_reaches s t \<Longrightarrow> file_open (lf t) = file_open (lf s)"
  by (induction rule: log_reaches.induct) (auto dest: log_step_open)

lemma processNoLock_pending:
  assumes "processNoLock l = Inr l'" and "None \<notin> set (cacheQueue l)" and "cacheQueue l \<noteq> []"
  shows "written l' @ pending (cacheQueue l') = written l @ pending (cacheQueue l)
    \<and> cacheQueue l' = tl (cacheQueue l) \<and> ready l' = ready l \<and> file_open l' = file_open l
    \<and> logging l' = logging l"
  using assms by (auto simp: processNoLock_def pending_def split: list.splits option.splits if_splits)

lemma notin_tl: "x \<notin> set q \<Longrightarrow> x \<notin> set (tl q)"
  by (cases q) auto

lemma log_step_inv: "log_step s t \<Longrightarrow> log_inv s \<Longrightarrow> log_inv t"
proof (erule log_stepE, goal_cases)
  case (3 l)
  from processNoLock_pending [OF 3(7) _ 3(5)] 3(1) have "cacheQueue l = tl (cacheQueue (lf s))"
    "written l @ pending (cacheQueue l) = concat (flushed s)" "ready l = ready (lf s)"
    "file_open l = file_open (lf s)" by (auto simp: log_inv_def)
  with 3(1,2) show ?case by (auto simp: log_inv_def notin_tl)
qed (auto simp: log_inv_def log_flush_def pending_def)

lemma log_reaches_inv: "log_reaches s t \<Longrightarrow> log_inv s \<Longrightarrow> log_inv t"
  by (induction rule: log_reaches.induct) (auto intro: log_step_inv)

lemma start_inv: "log_inv (start_log opened)"
  by (simp add: log_inv_def start_log_def new_DailyLogFile_def createNewFile_def pending_def)

lemma drain_ok:
  "None \<notin> set q \<Longrightarrow> file_open l \<Longrightarrow> cacheQueue l = q \<Longrightarrow>
    drain l = Some (Inr (l\<lparr>written := written l @ pending q, cacheQueue := []\<rparr>))"
proof (induction q arbitrary: l)
  case Nil
  then show ?case by (subst drain.simps) (simp add: pending_def)
next
  case (Cons p q)
  then obtain bs where p: "p = Some bs" by (cases p) auto
  let ?l = "l\<lparr>written := written l @ bs, cacheQueue := q\<rparr>"
  have "processNoLock l = Inr ?l" using Cons.prems p by (cases l) (simp add: processNoLock_def)
  then have "drain l = drain ?l" using Cons.prems(3) by (subst drain.simps) simp
  with Cons.IH [of ?l] Cons.prems p show ?case by (simp add: pending_def)
qed

lemma drain_needs_file:
  assumes "\<not> file_open l" and "cacheQueue l = Some p # q" and "p \<noteq> []"
  shows "drain l = Some (Inl NullDeref)"
  using assms by (subst drain.simps) (simp add: processNoLock_def)

lemma drain_null:
  assumes "drain l = Some r"
  shows "cacheQueue l \<noteq> None # q"
  by (rule drain.raw_induct [OF _ assms]) (auto simp: processNoLock_def split: if_splits)

section \<open>The file as the stream of a cache\<close>

definition accepted_log :: "logfile \<Rightarrow> byte list" where
  "accepted_log l = written l @ pending (cacheQueue l)"

definition log_accepts :: "logfile \<Rightarrow> bool" where
  "log_accepts l \<longleftrightarrow> logging l \<and> file_open l \<and> None \<notin> set (cacheQueue l)"

abbreviation log_stream :: "logfile \<Rightarrow> byte list \<Rightarrow> logfile" where
  "log_stream l bs \<equiv> log_flush (Some bs) l"

interpretation daily: output_stream log_stream accepted_log log_accepts
  by unfold_locales (auto simp: log_accepts_def log_flush_def accepted_log_def pending_def)

text \<open>Destroying the cache and then the file: what was cached and queued is in the file.\<close>

lemma finish_accepted:
  assumes "log_accepts l"
  shows "\<exists>l'. finish l = Some (Inr l') \<and> written l' = accepted_log l"
proof -
  have "drain l = Some (Inr (l\<lparr>written := accepted_log l, cacheQueue := []\<rparr>))"
    using drain_ok [OF _ _ refl, of l] assms by (simp add: log_accepts_def accepted_log_def)
  then have "finish l = Some (Inr (closeFile (l\<lparr>written := accepted_log l, cacheQueue := []\<rparr>)))"
    by (simp add: finish_def)
  then show ?thesis by (auto simp: closeFile_def split: if_splits)
qed

lemma finish_cached:
  assumes "cache_ok N c" and "log_accepts (ops c)"
  shows "\<exists>l. finish (delete_SingleCache log_stream c) = Some (Inr l)
    \<and> written l = accepted_log (ops c) @ cached c"
proof -
  note F = daily.flushNoLock_law [OF assms]
  let ?o = "delete_SingleCache log_stream c"
  have o: "log_accepts ?o" "accepted_log ?o = accepted_log (ops c) @ cached c"
    using F(2,3) by (simp_all add: delete_SingleCache_def flushSafely_def)
  from finish_accepted [OF o(1)] o(2) show ?thesis by simp
qed

section \<open>The name of the file\<close>

lemma take_middle: "length p + length d \<le> n \<Longrightarrow> take n (p @ d @ s) = p @ d @ take (n - length p - length d) s"
  by simp

lemma log_name_dated:
  assumes "length basePath + length prefix \<le> 246" and "tm_ok t" and "tm_ok u"
  shows "getFileName other basePath prefix t = getFileName other basePath prefix u \<longleftrightarrow>
    fmt_yymmdd other t = fmt_yymmdd other u"
proof -
  let ?p = "basePath @ prefix @ ''_''"
  have "getFileName other basePath prefix x
      = ?p @ fmt_yymmdd other x @ take (246 - length basePath - length prefix) ''.log''" for x
    using take_middle [of ?p "fmt_yymmdd other x" 255 "''.log''"] assms(1)
    by (simp add: getFileName_def)
  then show ?thesis by simp
qed

lemma log_name_undated:
  assumes "254 \<le> length basePath + length prefix"
  shows "getFileName other basePath prefix t = take 255 (basePath @ prefix @ ''_'')"
  using assms by (simp add: getFileName_def take_Cons')

section \<open>Properties\<close>

text \<open>C27: Every piece of the log that \<open>flush\<close> took, from any thread and under any interleaving
  with the writing thread, is in the file exactly once and in order when the destructor is
  done: the destructor ends, and the file holds the concatenation of the pieces.\<close>

theorem log_file_complete:
  assumes "log_reaches (start_log True) s"
  shows "\<exists>l. finish (lf s) = Some (Inr l) \<and> written l = concat (flushed s) \<and> \<not> file_open l"
proof -
  from log_reaches_inv [OF assms start_inv] have i: "log_inv s" .
  have o: "file_open (lf s)" using log_reaches_open [OF assms]
    by (simp add: start_log_def new_DailyLogFile_def createNewFile_def)
  from drain_ok [OF _ o refl] i show ?thesis
    by (simp add: finish_def closeFile_def log_inv_def o)
qed

theorem log_file_complete_witness:
  "\<exists>s l. log_reaches (start_log True) s \<and> flushed s = [[1, 2]]
    \<and> finish (lf s) = Some (Inr l) \<and> written l = [1, 2]"
proof -
  let ?init = "start_log True"
  let ?s = "?init\<lparr>lf := log_flush (Some [1, 2]) (lf ?init), flushed := flushed ?init @ [[1, 2]]\<rparr>"
  have "logging (lf ?init)" by (simp add: start_log_def new_DailyLogFile_def createNewFile_def)
  from log_more [OF log_here flush_accepted [OF this]] have r: "log_reaches ?init ?s" .
  moreover have "flushed ?s = [[1, 2]]" by (simp add: start_log_def)
  ultimately show ?thesis using log_file_complete [OF r] by (metis append_Nil2 concat.simps)
qed

text \<open>The cache in front of the file: whatever is appended, in pieces smaller or larger than
  the cache, with flushes in between, is in the file after both destructors, byte for byte and
  in order.\<close>

theorem cached_log_complete:
  shows "\<exists>c l. run_cache N log_stream es (new_SingleCache N (new_DailyLogFile True)) = Inr c
    \<and> finish (delete_SingleCache log_stream c) = Some (Inr l) \<and> written l = appended es"
proof -
  let ?l = "new_DailyLogFile True"
  have a: "log_accepts ?l" "accepted_log ?l = []"
    by (simp_all add: log_accepts_def accepted_log_def new_DailyLogFile_def createNewFile_def
        pending_def)
  let ?c0 = "new_SingleCache N ?l"
  have ok: "cache_ok N ?c0" "log_accepts (ops ?c0)" "cached ?c0 = []" "ops ?c0 = ?l"
    using a(1) by (simp_all add: cache_ok_def new_SingleCache_def cached_def)
  from daily.run_law [OF ok(1,2), of es] ok(3,4) a(2) obtain c where c:
    "run_cache N log_stream es ?c0 = Inr c" "cache_ok N c" "log_accepts (ops c)"
    "accepted_log (ops c) @ cached c = appended es" by auto
  with finish_cached [OF c(2,3)] show ?thesis by auto
qed

text \<open>When the log file could not be opened, the first piece flushed makes the destructor
  write to a null \<open>FILE\<close> pointer.\<close>

theorem unopened_log_crashes:
  assumes "p \<noteq> []"
  shows "finish (log_flush (Some p) (new_DailyLogFile False)) = Some (Inl NullDeref)"
  using assms by (simp add: finish_def drain_needs_file log_flush_def new_DailyLogFile_def
      createNewFile_def)

theorem unopened_log_crashes_witness:
  "finish (log_flush (Some [65]) (new_DailyLogFile False)) = Some (Inl NullDeref)"
  by (rule unopened_log_crashes) simp

text \<open>Two threads appending at once: both reserve room before either copies. When the two do
  not fit the cache together, the second reservation flushes the room of the first thread
  before its bytes are there: they never reach the stream, stale bytes of the cache do instead.\<close>

theorem concurrent_append_loses:
  assumes "length xs \<le> length ys" and "length ys \<le> N" and "N < length xs + length ys"
    and "markUsed N log_stream (length xs) (new_SingleCache N (new_DailyLogFile True)) = (c1, i)"
    and "markUsed N log_stream (length ys) c1 = (c2, j)"
    and "copy_to i xs c2 = Inr c3" and "copy_to j ys c3 = Inr c4"
  shows "accepted_log (delete_SingleCache log_stream c4) = replicate (length xs) 0 @ ys"
proof -
  have x: "length xs > 0" using assms(2,3) by linarith
  let ?l = "new_DailyLogFile True"
  have l: "log_accepts ?l" "accepted_log ?l = []"
    by (simp_all add: log_accepts_def accepted_log_def new_DailyLogFile_def createNewFile_def
        pending_def)
  have c1: "c1 = \<lparr>cache_len = length xs, cache_data = replicate N 0, ops = ?l\<rparr>" "i = 0"
    using assms(1-4) by (auto simp: markUsed_def new_SingleCache_def Let_def)
  have c2: "c2 = \<lparr>cache_len = length ys, cache_data = replicate N 0,
      ops = log_stream ?l (replicate (length xs) 0)\<rparr>" "j = 0"
    using assms(1-3,5) x by (auto simp: markUsed_def c1 flushNoLock_def min_def Let_def)
  have c4: "c4 = \<lparr>cache_len = length ys, cache_data = ys @ drop (length ys) (cache_data c3),
      ops = log_stream ?l (replicate (length xs) 0)\<rparr>"
    using assms(6,7) by (auto simp: copy_to_def c2 c1 split: if_splits)
  have "length ys > 0" using x assms(1) by linarith
  then have "delete_SingleCache log_stream c4 = log_stream (log_stream ?l (replicate (length xs) 0)) ys"
    by (simp add: delete_SingleCache_def flushSafely_def flushNoLock_def c4)
  with daily.flush_law [OF l(1)] daily.flush_law [OF daily.flush_open [OF l(1)]] l(2)
  show ?thesis by simp
qed

theorem concurrent_append_loses_witness:
  "\<exists>c1 c2 c3 c4. markUsed 4 log_stream 2 (new_SingleCache 4 (new_DailyLogFile True)) = (c1, 0)
    \<and> markUsed 4 log_stream 3 c1 = (c2, 0) \<and> copy_to 0 [7, 7] c2 = Inr c3
    \<and> copy_to 0 [8, 8, 8] c3 = Inr c4
    \<and> accepted_log (delete_SingleCache log_stream c4) = [0, 0, 8, 8, 8]"
proof -
  obtain c1 where c1: "markUsed 4 log_stream 2 (new_SingleCache 4 (new_DailyLogFile True)) = (c1, 0)"
    "cache_len c1 = 2" "length (cache_data c1) = 4"
    by (simp add: markUsed_def new_SingleCache_def)
  obtain c2 where c2: "markUsed 4 log_stream 3 c1 = (c2, 0)" "length (cache_data c2) = 4"
    using c1(2,3) by (simp add: markUsed_def flushNoLock_def Let_def)
  obtain c3 where c3: "copy_to 0 [7, 7] c2 = Inr c3" "length (cache_data c3) = 4"
    using c2(2) by (simp add: copy_to_def)
  obtain c4 where c4: "copy_to 0 [8, 8, 8] c3 = Inr c4" using c3(2) by (simp add: copy_to_def)
  from concurrent_append_loses [of "[7, 7]" "[8, 8, 8]" 4 c1 0 c2 0 c3 c4] c1(1) c2(1) c3(1) c4
  have "accepted_log (delete_SingleCache log_stream c4) = [0, 0, 8, 8, 8]" by (simp add: numeral_eq_Suc)
  with c1(1) c2(1) c3(1) c4 show ?thesis by blast
qed

text \<open>A null piece in the queue is never popped: the destructor does not return.\<close>

theorem null_piece_hangs:
  "finish (log_flush None (new_DailyLogFile opened)) = None"
proof -
  have "cacheQueue (log_flush None (new_DailyLogFile opened)) = [None]"
    by (simp add: log_flush_def new_DailyLogFile_def createNewFile_def)
  then show ?thesis using drain_null
    by (cases "drain (log_flush None (new_DailyLogFile opened))") (auto simp: finish_def)
qed

text \<open>The name of a log file tells the day (of a century) it was opened on, exactly as long as
  directory and prefix have at most 246 characters; from 254 on it is the same every day.\<close>

theorem log_file_name_tells_day:
  assumes "tm_ok t" and "tm_ok u"
  shows "(length basePath + length prefix \<le> 246 \<longrightarrow>
      (getFileName other basePath prefix t = getFileName other basePath prefix u \<longleftrightarrow>
        tm_year t mod 100 = tm_year u mod 100 \<and> tm_mon t = tm_mon u \<and> tm_mday t = tm_mday u))
    \<and> (254 \<le> length basePath + length prefix \<longrightarrow>
      getFileName other basePath prefix t = getFileName other basePath prefix u)"
  using log_name_dated [OF _ assms] log_name_undated fmt_yymmdd_inj [OF assms] by simp

theorem log_file_name_tells_day_witness:
  "getFileName (\<lambda>_ _. []) ''./'' ''def''
      \<lparr>tm_year = 115, tm_mon = 3, tm_mday = 6, tm_hour = 0, tm_min = 0, tm_sec = 0\<rparr>
    \<noteq> getFileName (\<lambda>_ _. []) ''./'' ''def''
      \<lparr>tm_year = 115, tm_mon = 3, tm_mday = 7, tm_hour = 0, tm_min = 0, tm_sec = 0\<rparr>"
  using log_file_name_tells_day [of "\<lparr>tm_year = 115, tm_mon = 3, tm_mday = 6, tm_hour = 0, tm_min = 0, tm_sec = 0\<rparr>"
      "\<lparr>tm_year = 115, tm_mon = 3, tm_mday = 7, tm_hour = 0, tm_min = 0, tm_sec = 0\<rparr>" "''./''" "''def''"]
  by (simp add: tm_ok_def)

end
