(* ===== verification/Logger.thy ===== *)
theory Logger
  imports LogFile
begin

text \<open>
  \<^verbatim>\<open>include/Logger.hpp\<close> and \<^verbatim>\<open>Logger.cpp\<close>: formatting one line of the log
  into a buffer of 2048 bytes, the level mask, and the conversion of numbers to text. The line
  goes to the cache of \<^verbatim>\<open>SingleCache.thy\<close> in front of the file of
  \<^verbatim>\<open>LogFile.thy\<close>. What \<open>vsnprintf\<close> formats (the whole text, or nothing on an encoding error) and the
  broken-down time are given.
\<close>

section \<open>Numbers\<close>

text \<open>Division and remainder of C++ truncate towards zero.\<close>

definition c_div :: "int \<Rightarrow> int \<Rightarrow> int" where
  "c_div a b = sgn a * sgn b * (\<bar>a\<bar> div \<bar>b\<bar>)"

definition c_mod :: "int \<Rightarrow> int \<Rightarrow> int" where
  "c_mod a b = a - b * c_div a b"

definition digits :: string where
  "digits = ''9876543210123456789''"

text \<open>The digits of \<open>stringFromNumeric\<close>, least significant first.\<close>

function decimal_rev :: "int \<Rightarrow> string" where
  "decimal_rev i = digits ! nat (9 + c_mod i 10)
     # (if c_div i 10 \<noteq> 0 then decimal_rev (c_div i 10) else [])"
  by pat_completeness auto
termination
  by (relation "measure (\<lambda>i. nat \<bar>i\<bar>)") (auto simp: c_div_def abs_mult sgn_if)

declare decimal_rev.simps [simp del]

definition stringFromNumeric :: "int \<Rightarrow> string" where
  "stringFromNumeric v = rev (decimal_rev v @ (if v < 0 then ''-'' else []))"

definition digitsHex :: string where
  "digitsHex = ''0123456789ABCDEF''"

fun hex_rev :: "nat \<Rightarrow> string" where
  "hex_rev i = digitsHex ! (i mod 16) # (if i div 16 \<noteq> 0 then hex_rev (i div 16) else [])"

declare hex_rev.simps [simp del]

definition hexStringFromNumeric :: "u64 \<Rightarrow> string" where
  "hexStringFromNumeric v = rev (hex_rev (unat v))"

text \<open>Reading the texts back.\<close>

definition digit_value :: "string \<Rightarrow> char \<Rightarrow> nat" where
  "digit_value ds c = length (takeWhile (\<lambda>d. d \<noteq> c) ds)"

fun value_rev :: "string \<Rightarrow> string \<Rightarrow> nat" where
  "value_rev ds [] = 0"
| "value_rev ds (c # cs) = digit_value ds c + length ds * value_rev ds cs"

definition read_decimal :: "string \<Rightarrow> int" where
  "read_decimal s = (case s of
       [] \<Rightarrow> 0
     | c # cs \<Rightarrow> if c = CHR ''-'' then - int (value_rev ''0123456789'' (rev cs))
                else int (value_rev ''0123456789'' (rev s)))"

lemma abs_c_div: "\<bar>c_div i 10\<bar> = \<bar>i\<bar> div 10"
  by (cases "i = 0") (auto simp: c_div_def abs_mult sgn_if)

lemma decimal_digit:
  "digits ! nat (9 + c_mod i 10) \<in> set ''0123456789''
    \<and> digit_value ''0123456789'' (digits ! nat (9 + c_mod i 10)) = nat (\<bar>i\<bar> mod 10)"
proof -
  have m: "\<bar>c_mod i 10\<bar> = \<bar>i\<bar> mod 10" "- 10 < c_mod i 10" "c_mod i 10 < 10"
  proof -
    have "c_mod i 10 = sgn i * (\<bar>i\<bar> mod 10)"
      by (simp add: c_mod_def c_div_def sgn_if minus_div_mult_eq_mod [symmetric] algebra_simps)
    then show "\<bar>c_mod i 10\<bar> = \<bar>i\<bar> mod 10" "- 10 < c_mod i 10" "c_mod i 10 < 10"
      using pos_mod_bound [of 10 "\<bar>i\<bar>"] pos_mod_sign [of 10 "\<bar>i\<bar>"]
      by (auto simp: sgn_if abs_mult)
  qed
  let ?k = "c_mod i 10"
  have all: "\<forall>k \<in> set [0..<19]. digits ! k \<in> set ''0123456789''
      \<and> digit_value ''0123456789'' (digits ! k) = nat \<bar>int k - 9\<bar>"
    by code_simp
  have k: "nat (9 + ?k) \<in> set [0..<19]" using m(2,3) by auto
  have "nat \<bar>int (nat (9 + ?k)) - 9\<bar> = nat (\<bar>i\<bar> mod 10)" using m by simp
  with bspec [OF all k] show ?thesis by simp
qed

lemma decimal_rev_value:
  "value_rev ''0123456789'' (decimal_rev i) = nat \<bar>i\<bar> \<and> set (decimal_rev i) \<subseteq> set ''0123456789''"
proof (induction i rule: decimal_rev.induct)
  case (1 i)
  note D = decimal_digit [of i]
  have s: "nat (\<bar>i\<bar> mod 10) + 10 * nat (\<bar>i\<bar> div 10) = nat \<bar>i\<bar>"
    by (simp add: nat_mod_distrib nat_div_distrib)
  show ?case
  proof (cases "c_div i 10 = 0")
    case True
    then have "\<bar>i\<bar> div 10 = 0" using abs_c_div [of i] by simp
    with True D s show ?thesis by (subst (1 2) decimal_rev.simps) simp
  next
    case False
    from "1.IH" [OF False] D s show ?thesis
      by (subst (1 2) decimal_rev.simps) (simp add: False abs_c_div)
  qed
qed

lemma decimal_rev_length: "\<bar>i\<bar> < 10 ^ Suc n \<Longrightarrow> length (decimal_rev i) \<le> Suc n"
proof (induction n arbitrary: i)
  case 0
  then have "c_div i 10 = 0" using abs_c_div [of i] by simp
  then show ?case by (subst decimal_rev.simps) simp
next
  case (Suc n)
  then have "\<bar>c_div i 10\<bar> < 10 ^ Suc n" by (simp add: abs_c_div)
  from Suc.IH [OF this] show ?case by (subst decimal_rev.simps) simp
qed

lemma hex_digit: "k < 16 \<Longrightarrow> digit_value digitsHex (digitsHex ! k) = k"
proof -
  have "\<forall>k \<in> set [0..<16]. digit_value digitsHex (digitsHex ! k) = k" by code_simp
  then show "k < 16 \<Longrightarrow> ?thesis" by simp
qed

lemma hex_rev_value: "value_rev digitsHex (hex_rev i) = i"
proof (induction i rule: hex_rev.induct)
  case (1 i)
  have l: "length digitsHex = 16" by (simp add: digitsHex_def)
  have d: "digit_value digitsHex (digitsHex ! (i mod 16)) = i mod 16" by (rule hex_digit) simp
  from 1 d l show ?case by (subst hex_rev.simps) auto
qed

lemma hex_rev_length: "i < 16 ^ Suc n \<Longrightarrow> length (hex_rev i) \<le> Suc n"
proof (induction n arbitrary: i)
  case 0
  then show ?case by (subst hex_rev.simps) simp
next
  case (Suc n)
  then have "i div 16 < 16 ^ Suc n" by (simp add: div_less_iff_less_mult mult.commute)
  from Suc.IH [OF this] show ?case by (subst hex_rev.simps) simp
qed

text \<open>Every integer is converted to text that reads back as the same integer, negative ones
  and the least one of each width included, and the text of a 64-bit integer fits the buffer of
  32 characters with its terminator.\<close>

theorem stringFromNumeric_roundtrip:
  "read_decimal (stringFromNumeric v) = v
    \<and> (\<bar>v\<bar> < 2 ^ 64 \<longrightarrow> length (stringFromNumeric v) < 32)"
proof
  note V = decimal_rev_value [of v]
  have ne: "decimal_rev v \<noteq> []" by (subst decimal_rev.simps) simp
  show "read_decimal (stringFromNumeric v) = v"
  proof (cases "v < 0")
    case True
    with V show ?thesis by (simp add: stringFromNumeric_def read_decimal_def)
  next
    case False
    then have s: "stringFromNumeric v = rev (decimal_rev v)" by (simp add: stringFromNumeric_def)
    obtain c cs where r: "rev (decimal_rev v) = c # cs" using ne by (cases "rev (decimal_rev v)") auto
    then have "c \<in> set (decimal_rev v)" by (metis list.set_intros(1) set_rev)
    with V have "c \<noteq> CHR ''-''" by auto
    then have "read_decimal (c # cs) = int (value_rev ''0123456789'' (rev (c # cs)))"
      by (simp add: read_decimal_def)
    with V False show ?thesis unfolding s r [symmetric] by simp
  qed
  show "\<bar>v\<bar> < 2 ^ 64 \<longrightarrow> length (stringFromNumeric v) < 32"
  proof
    assume "\<bar>v\<bar> < 2 ^ 64"
    then have "\<bar>v\<bar> < 10 ^ Suc 19" by simp
    from decimal_rev_length [OF this] show "length (stringFromNumeric v) < 32"
      by (simp add: stringFromNumeric_def)
  qed
qed

theorem stringFromNumeric_roundtrip_witness:
  "length (stringFromNumeric (- 9223372036854775808)) < 32"
  using stringFromNumeric_roundtrip [of "- 9223372036854775808"] by simp

text \<open>The hexadecimal text of a pointer-sized number reads back as the number and has at most
  16 digits.\<close>

theorem hexStringFromNumeric_roundtrip:
  "value_rev digitsHex (rev (hexStringFromNumeric v)) = unat v
    \<and> length (hexStringFromNumeric v) \<le> 16"
proof -
  have "unat v < 16 ^ Suc 15" using unsigned_less [of v, where 'a = nat] by simp
  from hex_rev_length [OF this] show ?thesis
    by (simp add: hexStringFromNumeric_def hex_rev_value)
qed

section \<open>Lines\<close>

abbreviation LEVEL_MAX :: int where "LEVEL_MAX \<equiv> 6"
abbreviation LOG_BUF_SIZE :: nat where "LOG_BUF_SIZE \<equiv> 2048"
abbreviation CACHE_SIZE :: nat where "CACHE_SIZE \<equiv> 51200"

record logger =
  log_cache :: "logfile single_cache"
  levelMask :: u32
  console :: "byte list"

definition setLogLevel :: "int \<Rightarrow> logger \<Rightarrow> logger res" where
  "setLogLevel level lg = assert_then (level < LEVEL_MAX)
     (if level + 1 < 0 then Inl BadShift
      else Inr (lg\<lparr>levelMask := push_bit (nat (level + 1)) 1 - 1\<rparr>))"

definition new_Logger :: "bool \<Rightarrow> logger res" where
  "new_Logger opened = setLogLevel 5
     \<lparr>log_cache = new_SingleCache CACHE_SIZE (new_DailyLogFile opened), levelMask = 0, console = []\<rparr>"

text \<open>\<open>appendLogTime\<close>: month (counted from 0), day, hours, minutes, seconds.\<close>

definition two_digits :: "nat \<Rightarrow> byte list" where
  "two_digits n = [of_nat (48 + n div 10), of_nat (48 + n mod 10)]"

definition appendLogTime :: "tm \<Rightarrow> byte list" where
  "appendLogTime t = two_digits (tm_mon t) @ [47] @ two_digits (tm_mday t) @ [32]
     @ two_digits (tm_hour t) @ [58] @ two_digits (tm_min t) @ [58] @ two_digits (tm_sec t) @ [32]"

definition level_desc :: "int \<Rightarrow> byte list" where
  "level_desc level = [[70, 69, 87, 73, 68, 86] ! nat level, 47]"

definition poke :: "nat \<Rightarrow> byte list \<Rightarrow> byte list \<Rightarrow> byte list res" where
  "poke pos bs v = (if pos + length bs \<le> length v
     then Inr (take pos v @ bs @ drop (pos + length bs) v) else Inl OutOfBounds)"

text \<open>\<open>vsnprintf\<close> into the rest of the buffer: what fits, and the terminating zero.\<close>

definition vsnprintf_at :: "nat \<Rightarrow> byte list \<Rightarrow> byte list \<Rightarrow> byte list res" where
  "vsnprintf_at pos msg v =
     (if pos < length v then poke pos (take (length v - pos - 1) msg @ [0]) v
      else if pos = length v then Inr v else Inl OutOfBounds)"

text \<open>\<open>std::cout << str\<close>: up to the first zero, which has to be there.\<close>

definition c_string :: "byte list \<Rightarrow> byte list res" where
  "c_string v = (if 0 \<in> set v then Inr (takeWhile (\<lambda>b. b \<noteq> 0) v) else Inl OutOfBounds)"

definition append_line :: "bool \<Rightarrow> byte list \<Rightarrow> nat \<Rightarrow> logger \<Rightarrow> logger res" where
  "append_line con buf len lg =
     bind_res (if con then c_string buf else Inr []) (\<lambda>out.
     bind_res (append_cache CACHE_SIZE log_stream (take len buf) (log_cache lg)) (\<lambda>c.
     Inr (lg\<lparr>log_cache := c, console := console lg @ out\<rparr>)))"

definition printLogLn ::
  "bool \<Rightarrow> int \<Rightarrow> byte list option \<Rightarrow> tm \<Rightarrow> byte list option \<Rightarrow> logger \<Rightarrow> logger res" where
  "printLogLn con logLevel tag t text lg =
     (if logLevel < LEVEL_MAX
      then (if logLevel < 0 then Inl BadShift
        else if levelMask lg AND push_bit (nat logLevel) 1 = 0 then Inr lg
        else let prefix = appendLogTime t @ level_desc logLevel
                   @ (case tag of None \<Rightarrow> [] | Some s \<Rightarrow> s @ [58, 9]);
                 idx = length prefix in
          bind_res (poke 0 prefix (replicate LOG_BUF_SIZE 0)) (\<lambda>buf.
          bind_res (case text of None \<Rightarrow> Inr buf | Some m \<Rightarrow> vsnprintf_at idx m buf) (\<lambda>buf.
          let ret = (case text of None \<Rightarrow> - 1 | Some m \<Rightarrow> int (length m)) in
          if ret > 0
          then let bufIdx = min (idx + nat ret) (LOG_BUF_SIZE - 1) in
            append_line con (buf[bufIdx := 10]) (bufIdx + 1) lg
          else Inr lg)))
      else Inr lg)"

section \<open>What a line holds\<close>

definition prefix_of :: "tm \<Rightarrow> int \<Rightarrow> byte list option \<Rightarrow> byte list" where
  "prefix_of t logLevel tag = appendLogTime t @ level_desc logLevel
     @ (case tag of None \<Rightarrow> [] | Some s \<Rightarrow> s @ [58, 9])"

text \<open>The line: prefix and text, cut to 2047 bytes, and a newline.\<close>

definition line_of :: "tm \<Rightarrow> int \<Rightarrow> byte list option \<Rightarrow> byte list \<Rightarrow> byte list" where
  "line_of t logLevel tag m = take (LOG_BUF_SIZE - 1) (prefix_of t logLevel tag @ m) @ [10]"

text \<open>The buffer before the newline is put into it.\<close>

definition filled :: "byte list \<Rightarrow> byte list \<Rightarrow> byte list" where
  "filled p m = (let w = p @ take (LOG_BUF_SIZE - length p - 1) m in
     w @ replicate (LOG_BUF_SIZE - length w) 0)"

lemma poke_prefix:
  "length p \<le> n \<Longrightarrow> poke 0 p (replicate n 0) = Inr (p @ replicate (n - length p) 0)"
  by (simp add: poke_def)

lemma vsnprintf_filled:
  assumes "length p < LOG_BUF_SIZE"
  shows "vsnprintf_at (length p) m (p @ replicate (LOG_BUF_SIZE - length p) 0) = Inr (filled p m)"
proof -
  define n where "n = LOG_BUF_SIZE - length p"
  define w where "w = take (n - Suc 0) m"
  have n: "0 < n" using assms by (simp add: n_def)
  have w: "Suc (length w) \<le> n" using n by (simp add: w_def)
  have d: "LOG_BUF_SIZE - (length p + length w) = n - length w" by (simp add: n_def)
  have "0 # replicate (n - Suc (length w)) (0::byte) = replicate (n - length w) 0"
    using w by (metis Suc_diff_le diff_Suc_Suc replicate_Suc)
  then show ?thesis
    using n w d by (simp add: vsnprintf_at_def poke_def filled_def n_def [symmetric]
        w_def [symmetric] Let_def)
qed

lemma filled_line:
  assumes "length p < LOG_BUF_SIZE"
  shows "take (min (length p + length m) (LOG_BUF_SIZE - 1) + 1)
      ((filled p m)[min (length p + length m) (LOG_BUF_SIZE - 1) := 10])
    = take (LOG_BUF_SIZE - 1) (p @ m) @ [10]"
proof -
  define k where "k = min (length p + length m) (LOG_BUF_SIZE - 1)"
  define w where "w = p @ take (LOG_BUF_SIZE - length p - 1) m"
  have t: "take (LOG_BUF_SIZE - 1) (p @ m) = w"
    using assms by (simp add: w_def)
  have l: "length w = k"
    using assms by (auto simp: k_def w_def)
  have "k < LOG_BUF_SIZE" by (simp add: k_def)
  then obtain r where r: "LOG_BUF_SIZE - k = Suc r" by (metis Suc_diff_Suc)
  have f: "filled p m = w @ replicate (LOG_BUF_SIZE - k) 0"
    unfolding filled_def Let_def w_def [symmetric] l ..
  have "(filled p m)[k := 10] = w @ 10 # replicate r 0"
    unfolding f r by (simp add: list_update_append l [symmetric])
  then show ?thesis
    unfolding k_def [symmetric] t by (simp add: l [symmetric])
qed

lemma printLogLn_eq:
  assumes "0 \<le> level" and "level < LEVEL_MAX" and "levelMask lg AND push_bit (nat level) 1 \<noteq> 0"
    and "m \<noteq> []" and "length (prefix_of t level tag) < LOG_BUF_SIZE"
  shows "printLogLn con level tag t (Some m) lg =
    bind_res (if con then c_string ((filled (prefix_of t level tag) m)
        [min (length (prefix_of t level tag) + length m) (LOG_BUF_SIZE - 1) := 10]) else Inr [])
      (\<lambda>out. bind_res (append_cache CACHE_SIZE log_stream (line_of t level tag m) (log_cache lg))
        (\<lambda>c. Inr (lg\<lparr>log_cache := c, console := console lg @ out\<rparr>)))"
proof -
  let ?p = "prefix_of t level tag"
  have p: "poke 0 ?p (replicate LOG_BUF_SIZE 0) = Inr (?p @ replicate (LOG_BUF_SIZE - length ?p) 0)"
    by (rule poke_prefix) (use assms(5) in simp)
  have "printLogLn con level tag t (Some m) lg
      = append_line con ((filled ?p m)[min (length ?p + length m) (LOG_BUF_SIZE - 1) := 10])
          (min (length ?p + length m) (LOG_BUF_SIZE - 1) + 1) lg"
    using assms(1-4) unfolding printLogLn_def prefix_of_def [symmetric] Let_def p
    by (simp add: vsnprintf_filled [OF assms(5)])
  then show ?thesis
    unfolding append_line_def filled_line [OF assms(5)] line_of_def .
qed

lemma mask_bit:
  assumes "- 1 \<le> n" and "n < 6" and "0 \<le> level" and "level < 6"
  shows "(push_bit (nat (n + 1)) 1 - 1 :: u32) AND push_bit (nat level) 1 \<noteq> 0 \<longleftrightarrow> level \<le> n"
proof -
  have "n \<in> {- 1, 0, 1, 2, 3, 4, 5}" "level \<in> {0, 1, 2, 3, 4, 5}" using assms by auto
  then show ?thesis by (elim insertE emptyE; simp; code_simp?)
qed

text \<open>What has been logged: in the file, in its queue, or still in the cache.\<close>

definition logged :: "logger \<Rightarrow> byte list" where
  "logged lg = accepted_log (ops (log_cache lg)) @ cached (log_cache lg)"

definition logger_ok :: "logger \<Rightarrow> bool" where
  "logger_ok lg \<longleftrightarrow> cache_ok CACHE_SIZE (log_cache lg) \<and> log_accepts (ops (log_cache lg))"

section \<open>Properties\<close>

text \<open>With the level set to \<open>n\<close>, a message of level at most \<open>n\<close> is logged, as one line: time,
  level, tag and text, cut to 2047 bytes, and a newline, appended to what was logged before; a
  message of a higher level changes nothing.\<close>

lemma log_line_exact:
  assumes "logger_ok lg0" and "setLogLevel n lg0 = Inr lg" and "0 \<le> level" and "level < LEVEL_MAX"
    and "m \<noteq> []" and "length (prefix_of t level tag) < LOG_BUF_SIZE"
  shows "\<exists>lg'. printLogLn False level tag t (Some m) lg = Inr lg' \<and> logger_ok lg'
    \<and> logged lg' = logged lg0 @ (if level \<le> n then line_of t level tag m else [])"
proof -
  from assms(2) have n: "- 1 \<le> n" "n < 6"
    and lg: "lg = lg0\<lparr>levelMask := push_bit (nat (n + 1)) 1 - 1\<rparr>"
    by (auto simp: setLogLevel_def split: if_splits)
  have same: "log_cache lg = log_cache lg0" and lm: "levelMask lg = push_bit (nat (n + 1)) 1 - 1"
    by (simp_all add: lg)
  show ?thesis
  proof (cases "level \<le> n")
    case True
    with mask_bit [OF n assms(3,4)] have mb: "levelMask lg AND push_bit (nat level) 1 \<noteq> 0"
      by (simp only: lm)
    have ok: "cache_ok CACHE_SIZE (log_cache lg)" "log_accepts (ops (log_cache lg))"
      using assms(1) by (simp_all add: logger_ok_def same)
    from daily.append_law [OF ok, of "line_of t level tag m"] obtain c where
      c: "append_cache CACHE_SIZE log_stream (line_of t level tag m) (log_cache lg) = Inr c"
        "cache_ok CACHE_SIZE c" "log_accepts (ops c)" "accepted_log (ops c) @ cached c
          = accepted_log (ops (log_cache lg)) @ cached (log_cache lg) @ line_of t level tag m" by blast
    from printLogLn_eq [OF assms(3,4) mb assms(5,6), of False] c True show ?thesis
      by (simp add: logger_ok_def logged_def same)
  next
    case False
    with mask_bit [OF n assms(3,4)] have "levelMask lg AND push_bit (nat level) 1 = 0"
      by (simp only: lm) simp
    with assms(1,3,4) False same show ?thesis
      by (simp add: printLogLn_def logger_ok_def logged_def)
  qed
qed

lemma new_cache_ok: "cache_ok N (new_SingleCache N s)" "ops (new_SingleCache N s) = s"
  by (simp_all add: cache_ok_def new_SingleCache_def)

definition demo_logger :: logger where
  "demo_logger = \<lparr>log_cache = new_SingleCache CACHE_SIZE (new_DailyLogFile True), levelMask = 63,
     console = []\<rparr>"

lemma demo_logger_ok: "logger_ok demo_logger" "levelMask demo_logger = 63"
  by (simp_all add: logger_ok_def demo_logger_def new_cache_ok log_accepts_def new_DailyLogFile_def
      createNewFile_def)

definition demo_tm :: tm where
  "demo_tm = \<lparr>tm_year = 115, tm_mon = 3, tm_mday = 6, tm_hour = 14, tm_min = 31, tm_sec = 17\<rparr>"

lemma demo_prefix:
  "prefix_of demo_tm 3 (Some [116, 99]) = [48, 51, 47, 48, 54, 32, 49, 52, 58, 51, 49, 58, 49, 55, 32,
     73, 47, 116, 99, 58, 9]"
  by (simp add: prefix_of_def appendLogTime_def two_digits_def level_desc_def demo_tm_def)

text \<open>A message: level, tag, time and formatted text.\<close>

type_synonym log_message = "int \<times> byte list option \<times> tm \<times> byte list"

fun run_logger :: "log_message list \<Rightarrow> logger \<Rightarrow> logger res" where
  "run_logger [] lg = Inr lg"
| "run_logger ((level, tag, t, m) # ms) lg =
     bind_res (printLogLn False level tag t (Some m) lg) (run_logger ms)"

definition loggable :: "log_message \<Rightarrow> bool" where
  "loggable = (\<lambda>(level, tag, t, m). 0 \<le> level \<and> level < LEVEL_MAX \<and> m \<noteq> []
     \<and> length (prefix_of t level tag) < LOG_BUF_SIZE)"

definition lines_of :: "int \<Rightarrow> log_message list \<Rightarrow> byte list" where
  "lines_of n ms = concat (map (\<lambda>(level, tag, t, m). if level \<le> n then line_of t level tag m else []) ms)"

lemma setLogLevel_again:
  assumes "setLogLevel n lg0 = Inr lg" and "levelMask lg' = levelMask lg"
  shows "setLogLevel n lg' = Inr lg'"
  using assms by (auto simp: setLogLevel_def split: if_splits)

lemma printLogLn_mask:
  "printLogLn con level tag t m lg = Inr lg' \<Longrightarrow> levelMask lg' = levelMask lg"
  by (auto simp: printLogLn_def append_line_def Let_def split: if_splits)

lemma run_logger_exact:
  assumes "logger_ok lg" and "setLogLevel n lg = Inr lg" and "\<forall>x \<in> set ms. loggable x"
  shows "\<exists>lg'. run_logger ms lg = Inr lg' \<and> logger_ok lg' \<and> logged lg' = logged lg @ lines_of n ms"
  using assms
proof (induction ms arbitrary: lg)
  case Nil
  then show ?case by (simp add: lines_of_def)
next
  case (Cons x ms)
  obtain level tag t m where x: "x = (level, tag, t, m)" by (cases x) auto
  with Cons.prems(3) have "loggable (level, tag, t, m)" by simp
  then have l: "0 \<le> level" "level < LEVEL_MAX" "m \<noteq> []" "length (prefix_of t level tag) < LOG_BUF_SIZE"
    by (simp_all add: loggable_def)
  from log_line_exact [OF Cons.prems(1,2) l] obtain lg1 where
    lg1: "printLogLn False level tag t (Some m) lg = Inr lg1" "logger_ok lg1"
      "logged lg1 = logged lg @ (if level \<le> n then line_of t level tag m else [])" by blast
  have "setLogLevel n lg1 = Inr lg1"
    using setLogLevel_again [OF Cons.prems(2)] printLogLn_mask [OF lg1(1)] by simp
  from Cons.IH [OF lg1(2) this] Cons.prems(3) lg1 show ?case
    unfolding x by (auto simp: lines_of_def)
qed

text \<open>C29: From the log call to the file. A new logger whose level is set to \<open>n\<close> is given any
  messages (with text, a level of the enumeration and a tag that fits the line buffer); when it is
  destroyed, the file holds exactly the lines of the messages of level at most \<open>n\<close>, in order and
  complete: time, level, tag and text, cut to 2047 bytes, and a newline. The cache, its flushes
  and the queue of the writer do not show.\<close>

theorem logger_writes_file:
  assumes "new_Logger True = Inr lg0" and "setLogLevel n lg0 = Inr lg"
    and "\<forall>x \<in> set ms. loggable x"
  shows "\<exists>lg' l. run_logger ms lg = Inr lg'
    \<and> finish (delete_SingleCache log_stream (log_cache lg')) = Some (Inr l)
    \<and> written l = lines_of n ms"
proof -
  have c: "log_cache lg = new_SingleCache CACHE_SIZE (new_DailyLogFile True)"
    using assms(1,2) by (auto simp: new_Logger_def setLogLevel_def split: if_splits)
  have ok: "logger_ok lg" and e: "logged lg = []"
    by (simp_all add: c logger_ok_def logged_def cache_ok_def new_SingleCache_def cached_def
        log_accepts_def accepted_log_def new_DailyLogFile_def createNewFile_def pending_def)
  have "setLogLevel n lg = Inr lg" using setLogLevel_again [OF assms(2)] by simp
  from run_logger_exact [OF ok this assms(3)] e obtain lg' where
    lg': "run_logger ms lg = Inr lg'" "logger_ok lg'" "logged lg' = lines_of n ms" by auto
  with finish_cached [of CACHE_SIZE "log_cache lg'"] show ?thesis
    by (auto simp: logger_ok_def logged_def)
qed

theorem logger_writes_file_witness:
  "\<exists>lg0 lg lg' l. new_Logger True = Inr lg0 \<and> setLogLevel 3 lg0 = Inr lg
    \<and> run_logger [(3, Some [116, 99], demo_tm, [104, 105]), (4, None, demo_tm, [33])] lg = Inr lg'
    \<and> finish (delete_SingleCache log_stream (log_cache lg')) = Some (Inr l)
    \<and> written l = [48, 51, 47, 48, 54, 32, 49, 52, 58, 51, 49, 58, 49, 55, 32,
        73, 47, 116, 99, 58, 9, 104, 105, 10]"
proof -
  let ?ms = "[(3, Some [116, 99], demo_tm, [104, 105]), (4, None, demo_tm, [33])]"
  obtain lg0 where lg0: "new_Logger True = Inr lg0" by (simp add: new_Logger_def setLogLevel_def)
  obtain lg where lg: "setLogLevel 3 lg0 = Inr lg" by (simp add: setLogLevel_def)
  have "\<forall>x \<in> set ?ms. loggable x"
    by (simp add: loggable_def demo_prefix) (simp add: prefix_of_def appendLogTime_def
        two_digits_def level_desc_def)
  from logger_writes_file [OF lg0 lg this] obtain lg' l where
    "run_logger ?ms lg = Inr lg'" "finish (delete_SingleCache log_stream (log_cache lg')) = Some (Inr l)"
    "written l = lines_of 3 ?ms" by blast
  moreover have "lines_of 3 ?ms = [48, 51, 47, 48, 54, 32, 49, 52, 58, 51, 49, 58, 49, 55, 32,
        73, 47, 116, 99, 58, 9, 104, 105, 10]" by (simp add: lines_of_def line_of_def demo_prefix)
  ultimately show ?thesis using lg0 lg by metis
qed

text \<open>The library's own logger also prints to the console: a line whose prefix and text reach
  2047 bytes fills the buffer to its last byte, the terminating zero is overwritten by the
  newline, and printing the buffer reads past its end.\<close>

theorem long_console_line_overruns:
  assumes "0 \<le> level" and "level < LEVEL_MAX" and "levelMask lg AND push_bit (nat level) 1 \<noteq> 0"
    and "length (prefix_of t level tag) < LOG_BUF_SIZE"
    and "length (prefix_of t level tag) + length m \<ge> LOG_BUF_SIZE - 1" and "m \<noteq> []"
    and "0 \<notin> set (prefix_of t level tag @ m)"
  shows "printLogLn True level tag t (Some m) lg = Inl OutOfBounds"
proof -
  let ?p = "prefix_of t level tag"
  let ?k = "min (length ?p + length m) (LOG_BUF_SIZE - 1)"
  have k: "?k = LOG_BUF_SIZE - 1" using assms(5) by simp
  have l: "length ((filled ?p m)[?k := 10]) = LOG_BUF_SIZE"
    using assms(4) by (simp add: filled_def Let_def)
  have "(filled ?p m)[?k := 10] = take (?k + 1) ((filled ?p m)[?k := 10])"
    using l k by simp
  also have "\<dots> = take (LOG_BUF_SIZE - 1) (?p @ m) @ [10]"
    by (rule filled_line [OF assms(4)])
  finally have b: "(filled ?p m)[?k := 10] = take (LOG_BUF_SIZE - 1) (?p @ m) @ [10]" .
  have "0 \<notin> set (take (LOG_BUF_SIZE - 1) (?p @ m) @ [10])"
    using assms(7) by (auto dest: in_set_takeD)
  then have "c_string ((filled ?p m)[?k := 10]) = Inl OutOfBounds"
    unfolding b c_string_def by simp
  then show ?thesis using printLogLn_eq [OF assms(1-3,6,4), of True] by simp
qed

theorem long_console_line_overruns_witness:
  "printLogLn True 3 (Some [116, 99]) demo_tm (Some (replicate 3000 97)) demo_logger
    = Inl OutOfBounds"
proof -
  define n :: nat where "n = 3000"
  have "printLogLn True 3 (Some [116, 99]) demo_tm (Some (replicate n 97)) demo_logger = Inl OutOfBounds"
    by (rule long_console_line_overruns)
      (simp_all add: demo_prefix demo_logger_ok n_def [symmetric], simp_all add: n_def)
  then show ?thesis by (simp only: n_def)
qed

text \<open>A tag too long for the buffer is copied past its end.\<close>

theorem long_tag_overruns:
  assumes "0 \<le> level" and "level < LEVEL_MAX" and "levelMask lg AND push_bit (nat level) 1 \<noteq> 0"
    and "length tag > LOG_BUF_SIZE - 19"
  shows "printLogLn con level (Some tag) t text lg = Inl OutOfBounds"
  using assms by (simp add: printLogLn_def poke_def appendLogTime_def two_digits_def
      level_desc_def Let_def)

theorem long_tag_overruns_witness:
  "printLogLn False 3 (Some (replicate 2030 97)) demo_tm (Some [104]) demo_logger = Inl OutOfBounds"
proof -
  define n :: nat where "n = 2030"
  have "printLogLn False 3 (Some (replicate n 97)) demo_tm (Some [104]) demo_logger = Inl OutOfBounds"
    by (rule long_tag_overruns) (simp_all add: demo_logger_ok n_def [symmetric], simp add: n_def)
  then show ?thesis by (simp only: n_def)
qed

end
