(* ===== verification/LogStamp.thy ===== *)
theory LogStamp
  imports Logger
begin

text \<open>
  The time stamps of log lines from the clock: \<open>appendLogTime\<close> (\<^verbatim>\<open>include/Logger.hpp\<close>) with
  \<open>gmtime_r\<close> on the proleptic Gregorian calendar, for times since 1970.
\<close>

section \<open>The calendar\<close>

definition leap :: "nat \<Rightarrow> bool" where
  "leap y \<longleftrightarrow> y mod 4 = 0 \<and> (y mod 100 \<noteq> 0 \<or> y mod 400 = 0)"

definition month_days :: "nat \<Rightarrow> nat \<Rightarrow> nat" where
  "month_days y m = [31, if leap y then 29 else 28, 31, 30, 31, 30, 31, 31, 30, 31, 30, 31] ! m"

definition year_days :: "nat \<Rightarrow> nat" where
  "year_days y = (if leap y then 366 else 365)"

text \<open>The year and the day in it of the \<open>d\<close>th day from the start of year \<open>y\<close>, and the month and
  the day in it of the \<open>d\<close>th day from the start of month \<open>m\<close>.\<close>

function year_day :: "nat \<Rightarrow> nat \<Rightarrow> nat \<times> nat" where
  "year_day y d = (if d < year_days y then (y, d) else year_day (Suc y) (d - year_days y))"
  by pat_completeness auto
termination
  by (relation "measure snd") (auto simp: year_days_def)

function month_day :: "nat \<Rightarrow> nat \<Rightarrow> nat \<Rightarrow> nat \<times> nat" where
  "month_day y m d =
     (if m < 11 \<and> month_days y m \<le> d then month_day y (Suc m) (d - month_days y m) else (m, Suc d))"
  by pat_completeness auto
termination
  by (relation "measure (\<lambda>(y, m, d). 11 - m)") auto

declare year_day.simps [simp del] month_day.simps [simp del]

definition gmtime :: "nat \<Rightarrow> tm" where
  "gmtime ts = (case year_day 1970 (ts div 86400) of (y, d) \<Rightarrow>
     (case month_day y 0 d of (m, md) \<Rightarrow>
       \<lparr>tm_year = y - 1900, tm_mon = m, tm_mday = md, tm_hour = ts mod 86400 div 3600,
        tm_min = ts mod 3600 div 60, tm_sec = ts mod 60\<rparr>))"

text \<open>\<open>LOG_TZ_SEC_WEST\<close>, and the stamp of a line written at \<open>ts\<close>.\<close>

definition LOG_TZ_SEC_WEST :: nat where
  "LOG_TZ_SEC_WEST = 8 * 60 * 60"

definition log_time :: "nat \<Rightarrow> tm" where
  "log_time ts = gmtime (ts + LOG_TZ_SEC_WEST)"

definition log_stamp :: "nat \<Rightarrow> byte list" where
  "log_stamp ts = appendLogTime (log_time ts)"

section \<open>Days in order\<close>

lemma year_day_from: "y \<le> fst (year_day y d)"
  by (induction y d rule: year_day.induct) (subst year_day.simps, force)

lemma year_day_bound: "year_day y d = (z, e) \<Longrightarrow> e < year_days z"
  by (induction y d rule: year_day.induct) (subst (asm) (2) year_day.simps, simp split: if_splits)

lemma year_day_mono:
  "c < d \<Longrightarrow> fst (year_day y c) = fst (year_day y d) \<Longrightarrow> snd (year_day y c) < snd (year_day y d)"
proof (induction y d arbitrary: c rule: year_day.induct)
  case (1 y d)
  have later: "y < fst (year_day (Suc y) x)" for x using year_day_from [of "Suc y" x] by simp
  note c = year_day.simps [of y c] and d = year_day.simps [of y d]
  show ?case
    using "1.prems" "1.IH" [of "c - year_days y"] later [of "c - year_days y"] later [of "d - year_days y"]
    unfolding c d by (auto split: if_splits)
qed

lemma month_day_from: "m \<le> fst (month_day y m d)"
  by (induction y m d rule: month_day.induct) (subst month_day.simps, force)

lemma month_day_mono:
  "c < d \<Longrightarrow> fst (month_day y m c) < fst (month_day y m d)
    \<or> fst (month_day y m c) = fst (month_day y m d) \<and> snd (month_day y m c) < snd (month_day y m d)"
proof (induction y m d arbitrary: c rule: month_day.induct)
  case (1 y m d)
  have later: "m < fst (month_day y (Suc m) x)" for x using month_day_from [of "Suc m" y x] by simp
  note c = month_day.simps [of y m c] and d = month_day.simps [of y m d]
  show ?case
    using "1.prems" "1.IH" [of "c - month_days y m"] later [of "d - month_days y m"]
    unfolding c d by (auto split: if_splits)
qed

lemma month_days_sum: "sum_list (map (month_days y) [0..<12]) = year_days y"
  by (simp add: month_days_def year_days_def upt_rec)

lemma month_days_range: "m < 12 \<Longrightarrow> month_days y m \<in> {28..31}"
  by (auto simp: month_days_def less_Suc_eq numeral_eq_Suc)

lemma month_day_bound:
  "m < 12 \<Longrightarrow> d < sum_list (map (month_days y) [m..<12]) \<Longrightarrow>
    fst (month_day y m d) < 12 \<and> 0 < snd (month_day y m d) \<and> snd (month_day y m d) \<le> month_days y (fst (month_day y m d))"
proof (induction y m d rule: month_day.induct)
  case (1 y m d)
  have s: "sum_list (map (month_days y) [m..<12]) = month_days y m + sum_list (map (month_days y) [Suc m..<12])"
    using "1.prems"(1) by (simp add: upt_conv_Cons)
  show ?case
  proof (cases "m < 11 \<and> month_days y m \<le> d")
    case True
    then have "d - month_days y m < sum_list (map (month_days y) [Suc m..<12])" using "1.prems"(2) s by linarith
    with True "1.IH" show ?thesis by (subst (1 2 3 4) month_day.simps) simp
  next
    case False
    have "m = 11 \<Longrightarrow> [Suc m..<12] = []" by simp
    with False "1.prems" s have "d < month_days y m" by (cases "m = 11") auto
    with False "1.prems"(1) show ?thesis by (subst (1 2 3 4) month_day.simps) simp
  qed
qed

lemma gmtime_ok: "tm_ok (gmtime ts)"
proof -
  obtain y d where y: "year_day 1970 (ts div 86400) = (y, d)" by fastforce
  obtain m md where m: "month_day y 0 d = (m, md)" by fastforce
  have "d < sum_list (map (month_days y) [0..<12])" unfolding month_days_sum by (rule year_day_bound [OF y])
  from month_day_bound [OF _ this] m have "m < 12" "0 < md" "md \<le> month_days y m" by simp_all
  moreover have "month_days y m \<le> 31" using month_days_range [OF \<open>m < 12\<close>, of y] by simp
  moreover have "ts mod 86400 div 3600 < 24" by (simp add: div_less_iff_less_mult)
  moreover have "ts mod 3600 div 60 < 60" by (simp add: div_less_iff_less_mult)
  moreover have "ts mod 60 \<le> 60" by (simp add: less_imp_le)
  ultimately show ?thesis by (simp add: gmtime_def tm_ok_def y m)
qed

section \<open>Times and stamps in order\<close>

text \<open>Times of the same year, compared from the month down to the second.\<close>

fun lex_less :: "nat list \<Rightarrow> nat list \<Rightarrow> bool" where
  "lex_less (a # as) (b # bs) \<longleftrightarrow> a < b \<or> a = b \<and> lex_less as bs"
| "lex_less _ _ \<longleftrightarrow> False"

definition fields :: "tm \<Rightarrow> nat list" where
  "fields t = [tm_mon t, tm_mday t, tm_hour t, tm_min t, tm_sec t]"

lemma seconds_mono:
  assumes "s < t" and "s div 86400 = t div (86400 :: nat)"
  shows "lex_less [s mod 86400 div 3600, s mod 3600 div 60, s mod 60] [t mod 86400 div 3600, t mod 3600 div 60, t mod 60]"
proof -
  have e: "x mod 3600 = x mod 86400 mod 3600" "x mod 60 = x mod 86400 mod 3600 mod 60" for x :: nat
    by (simp_all add: mod_mod_cancel)
  have "s mod 86400 < t mod 86400"
    using assms div_mult_mod_eq [of s 86400] div_mult_mod_eq [of t 86400] by linarith
  moreover have "x < y \<Longrightarrow> x div k < y div k \<or> x div k = y div k \<and> x mod k < y mod k" for x y k :: nat
    by (metis div_le_mono div_mult_mod_eq le_neq_implies_less less_imp_le nat_add_left_cancel_less)
  ultimately show ?thesis unfolding e [of s] e [of t] by (smt (verit, best) lex_less.simps(1))
qed

lemma gmtime_mono:
  assumes "s < t" and "tm_year (gmtime s) = tm_year (gmtime t)"
  shows "lex_less (fields (gmtime s)) (fields (gmtime t))"
proof -
  let ?y = "fst (year_day 1970 (s div 86400))"
  have g: "gmtime x = \<lparr>tm_year = fst (year_day 1970 (x div 86400)) - 1900,
      tm_mon = fst (month_day (fst (year_day 1970 (x div 86400))) 0 (snd (year_day 1970 (x div 86400)))),
      tm_mday = snd (month_day (fst (year_day 1970 (x div 86400))) 0 (snd (year_day 1970 (x div 86400)))),
      tm_hour = x mod 86400 div 3600, tm_min = x mod 3600 div 60, tm_sec = x mod 60\<rparr>" for x
    by (simp add: gmtime_def split: prod.split)
  have y: "fst (year_day 1970 (t div 86400)) = ?y"
    using assms(2) year_day_from [of 1970 "s div 86400"] year_day_from [of 1970 "t div 86400"] by (simp add: g)
  show ?thesis
  proof (cases "s div 86400 = t div 86400")
    case True
    from seconds_mono [OF assms(1) this] True show ?thesis by (simp add: g fields_def)
  next
    case False
    then have "s div 86400 < t div 86400" using div_le_mono [OF less_imp_le [OF assms(1)], of 86400] by simp
    from month_day_mono [OF year_day_mono [OF this y [symmetric]], of ?y 0] y show ?thesis by (auto simp: g fields_def)
  qed
qed

abbreviation sorts_before :: "byte list \<Rightarrow> byte list \<Rightarrow> bool" where
  "sorts_before u v \<equiv> (u, v) \<in> lexord {(a, b). a < b}"

lemma digit_less: "i < 10 \<Longrightarrow> j < 10 \<Longrightarrow> (of_nat (48 + i) :: byte) < of_nat (48 + j) \<longleftrightarrow> i < j"
  by (simp add: word_less_nat_alt unsigned_of_nat take_bit_nat_eq_self del: of_nat_add)

lemma two_digits_before:
  assumes "a < 100" and "b < 100"
  shows "sorts_before (two_digits a @ u) (two_digits b @ v) \<longleftrightarrow> a < b \<or> a = b \<and> sorts_before u v"
proof -
  have d: "a div 10 < 10" "b div 10 < 10" "a mod 10 < 10" "b mod 10 < 10" using assms by (simp_all add: div_less_iff_less_mult)
  have eq: "(of_nat (48 + i) :: byte) = of_nat (48 + j) \<longleftrightarrow> i = j" if "i < 10" "j < 10" for i j
    using digit_less [OF that] digit_less [OF that(2,1)] by (metis less_irrefl linorder_neqE)
  have "a < b \<longleftrightarrow> a div 10 < b div 10 \<or> a div 10 = b div 10 \<and> a mod 10 < b mod 10"
    by (metis div_le_mono div_mult_mod_eq le_neq_implies_less less_imp_le nat_add_left_cancel_less not_less)
  moreover have "a = b \<longleftrightarrow> a div 10 = b div 10 \<and> a mod 10 = b mod 10" by (metis div_mult_mod_eq)
  ultimately show ?thesis
    by (auto simp: two_digits_def digit_less eq d simp del: of_nat_add)
qed

lemma stamp_before:
  assumes "tm_ok t" and "tm_ok u"
  shows "sorts_before (appendLogTime t) (appendLogTime u) \<longleftrightarrow> lex_less (fields t) (fields u)"
  using assms two_digits_before [where u = "[]" and v = "[]"]
  by (auto simp: appendLogTime_def fields_def tm_ok_def two_digits_before)

text \<open>C30: Within a year of the logger's time zone the stamps of log lines sort as the times do: of two
  lines the one written in an earlier second has the lexicographically smaller stamp, byte by byte, and
  only lines of the same second have the same stamp.\<close>

theorem log_stamps_in_order:
  assumes "tm_year (log_time s) = tm_year (log_time t)"
  shows "(sorts_before (log_stamp s) (log_stamp t) \<longleftrightarrow> s < t) \<and> (log_stamp s = log_stamp t \<longleftrightarrow> s = t)"
proof -
  have lt: "sorts_before (log_stamp x) (log_stamp y)" if "x < y" "tm_year (log_time x) = tm_year (log_time y)" for x y
    using gmtime_mono [of "x + LOG_TZ_SEC_WEST" "y + LOG_TZ_SEC_WEST"] that stamp_before [OF gmtime_ok gmtime_ok]
    by (simp add: log_stamp_def log_time_def)
  have "\<not> sorts_before u u" for u :: "byte list" by (rule lexord_irreflexive) simp
  moreover have "sorts_before u v \<Longrightarrow> \<not> sorts_before v u" for u v :: "byte list"
    using asymD [OF lexord_asym [OF asymI], of "{(a, b). a < (b :: byte)}" u v] by auto
  ultimately show ?thesis using lt [of s t] lt [of t s] assms by (metis linorder_neqE_nat)
qed

text \<open>The last second of the 28th and the first of the 29th of February 2024, in the logger's time zone.\<close>

theorem log_stamps_in_order_witness:
  "tm_year (log_time 1709135999) = tm_year (log_time 1709136000)
    \<and> sorts_before (log_stamp 1709135999) (log_stamp 1709136000)"
proof -
  have "tm_year (log_time 1709135999) = tm_year (log_time 1709136000)" by code_simp
  with log_stamps_in_order [OF this] show ?thesis by simp
qed

end
