(* ===== verification/CacheThreads.thy ===== *)
theory CacheThreads
  imports LogFile
begin

text \<open>
  \<open>SingleCache\<close> (\<^verbatim>\<open>include/SingleCache.hpp\<close>) used by several threads. \<open>markUsed\<close> and
  \<open>flushSafely\<close> hold the mutex; the \<open>memcpy\<close> of \<open>append\<close> comes after \<open>markUsed\<close> has released it, so
  other threads run between the two. The step relation has one step per critical section, one
  for the copy, and one for what the stream does by itself, as the writer thread of \<open>DailyLogFile\<close>
  (\<^verbatim>\<open>LogFile.cpp\<close>) does. It is for pieces that fit the cache, as the lines of the logger do: a
  longer one resizes the vector under the copies that are under way.
\<close>

section \<open>Threads\<close>

text \<open>\<open>copying\<close> holds, for each thread between its two halves of \<open>append\<close>, the place it has reserved
  and the bytes it is about to copy; \<open>reserved\<close> is the history of reservations.\<close>

record 'o cache_sys =
  sc :: "'o single_cache"
  copying :: "(nat \<times> byte list) list"
  reserved :: "byte list list"

text \<open>A step is marked with whether it passes bytes to the stream.\<close>

inductive cache_step :: "nat \<Rightarrow> ('o \<Rightarrow> byte list \<Rightarrow> 'o) \<Rightarrow> ('o \<Rightarrow> 'o \<Rightarrow> bool)
    \<Rightarrow> 'o cache_sys \<Rightarrow> bool \<Rightarrow> 'o cache_sys \<Rightarrow> bool"
  for N :: nat and fl :: "'o \<Rightarrow> byte list \<Rightarrow> 'o" and moves :: "'o \<Rightarrow> 'o \<Rightarrow> bool" where
  append_reserves: "length bs \<le> N \<Longrightarrow> markUsed N fl (length bs) (sc s) = (c, pos) \<Longrightarrow>
    cache_step N fl moves s (length bs + cache_len (sc s) > N)
      (s\<lparr>sc := c, copying := (pos, bs) # copying s, reserved := reserved s @ [bs]\<rparr>)"
| append_copies: "copying s = xs @ (pos, bs) # ys \<Longrightarrow> copy_to pos bs (sc s) = Inr c \<Longrightarrow>
    cache_step N fl moves s False (s\<lparr>sc := c, copying := xs @ ys\<rparr>)"
| flushes: "cache_step N fl moves s (cache_len (sc s) > 0) (s\<lparr>sc := flushSafely fl (sc s)\<rparr>)"
| stream_moves: "moves (ops (sc s)) out \<Longrightarrow>
    cache_step N fl moves s False (s\<lparr>sc := (sc s)\<lparr>ops := out\<rparr>\<rparr>)"

inductive_cases cache_stepE: "cache_step N fl moves s f t"

inductive cache_reaches :: "nat \<Rightarrow> ('o \<Rightarrow> byte list \<Rightarrow> 'o) \<Rightarrow> ('o \<Rightarrow> 'o \<Rightarrow> bool)
    \<Rightarrow> 'o cache_sys \<Rightarrow> 'o cache_sys \<Rightarrow> bool"
  for N :: nat and fl :: "'o \<Rightarrow> byte list \<Rightarrow> 'o" and moves :: "'o \<Rightarrow> 'o \<Rightarrow> bool" where
  cache_here: "cache_reaches N fl moves s s"
| cache_more: "cache_reaches N fl moves s t \<Longrightarrow> cache_step N fl moves t f u \<Longrightarrow> cache_reaches N fl moves s u"

text \<open>The interleavings in which bytes are passed to the stream between appends only, not inside one.\<close>

inductive orderly_reaches :: "nat \<Rightarrow> ('o \<Rightarrow> byte list \<Rightarrow> 'o) \<Rightarrow> ('o \<Rightarrow> 'o \<Rightarrow> bool)
    \<Rightarrow> 'o cache_sys \<Rightarrow> 'o cache_sys \<Rightarrow> bool"
  for N :: nat and fl :: "'o \<Rightarrow> byte list \<Rightarrow> 'o" and moves :: "'o \<Rightarrow> 'o \<Rightarrow> bool" where
  orderly_here: "orderly_reaches N fl moves s s"
| orderly_more: "orderly_reaches N fl moves s t \<Longrightarrow> cache_step N fl moves t f u \<Longrightarrow> f \<longrightarrow> copying t = [] \<Longrightarrow>
    orderly_reaches N fl moves s u"

definition start_cache :: "nat \<Rightarrow> 'o \<Rightarrow> 'o cache_sys" where
  "start_cache N out = \<lparr>sc = new_SingleCache N out, copying = [], reserved = []\<rparr>"

section \<open>Every copy stays inside the cache\<close>

definition in_bounds :: "nat \<Rightarrow> 'o cache_sys \<Rightarrow> bool" where
  "in_bounds N s \<longleftrightarrow> length (cache_data (sc s)) = N \<and> cache_len (sc s) \<le> N
     \<and> (\<forall>(pos, bs) \<in> set (copying s). pos + length bs \<le> N)"

lemma flushNoLock_fields [simp]:
  "cache_data (flushNoLock fl c) = cache_data c" "cache_len (flushNoLock fl c) = 0"
  by (simp_all add: flushNoLock_def)

lemma markUsed_fits:
  assumes "n \<le> N" and "markUsed N fl n c = (c', pos)"
  shows "c' = (if n + cache_len c > N then (flushNoLock fl c)\<lparr>cache_len := n\<rparr>
      else c\<lparr>cache_len := cache_len c + n\<rparr>)"
    and "pos = (if n + cache_len c > N then 0 else cache_len c)"
  using assms by (auto simp: markUsed_def Let_def split: if_splits)

lemma cache_step_bounds:
  assumes "cache_step N fl moves s f t" and "in_bounds N s"
  shows "in_bounds N t"
  using assms(1)
proof (rule cache_stepE)
  fix bs c pos
  assume b: "length bs \<le> N" and m: "markUsed N fl (length bs) (sc s) = (c, pos)"
    and t: "t = s\<lparr>sc := c, copying := (pos, bs) # copying s, reserved := reserved s @ [bs]\<rparr>"
  show ?thesis using assms(2) b by (auto simp: t markUsed_fits [OF b m] in_bounds_def)
next
  fix xs pos bs ys c
  assume c: "copying s = xs @ (pos, bs) # ys" and m: "copy_to pos bs (sc s) = Inr c"
    and t: "t = s\<lparr>sc := c, copying := xs @ ys\<rparr>"
  show ?thesis using assms(2) c m by (auto simp: t in_bounds_def copy_to_def split: if_splits)
qed (use assms(2) in \<open>auto simp: in_bounds_def flushSafely_def\<close>)

lemma cache_reaches_bounds: "cache_reaches N fl moves s t \<Longrightarrow> in_bounds N s \<Longrightarrow> in_bounds N t"
  by (induction rule: cache_reaches.induct) (auto intro: cache_step_bounds)

lemma start_in_bounds: "in_bounds N (start_cache N out)"
  by (simp add: in_bounds_def start_cache_def new_SingleCache_def)

lemma copy_possible:
  assumes "in_bounds N s" and "(pos, bs) \<in> set (copying s)"
  shows "\<exists>c. copy_to pos bs (sc s) = Inr c"
  using assms by (auto simp: in_bounds_def copy_to_def)

section \<open>The stream under orderly interleavings\<close>

text \<open>The bytes of the history from \<open>b\<close> on are those of the cache, except where a copy is under way,
  and such a copy will put them there.\<close>

definition window_ok :: "nat \<Rightarrow> 'o cache_sys \<Rightarrow> bool" where
  "window_ok b s \<longleftrightarrow> (let h = drop b (concat (reserved s)) in
     length h = cache_len (sc s)
     \<and> (\<forall>(pos, bs) \<in> set (copying s). pos + length bs \<le> length h \<and> take (length bs) (drop pos h) = bs)
     \<and> (\<forall>i < length h. cache_data (sc s) ! i = h ! i
          \<or> (\<exists>(pos, bs) \<in> set (copying s). pos \<le> i \<and> i < pos + length bs)))"

text \<open>The three changes a step makes, on the window alone.\<close>

lemma window_reserve:
  assumes w: "window_ok b s" and b: "b \<le> length (concat (reserved s))"
    and "cache_len c = cache_len (sc s) + length bs" and "cache_data c = cache_data (sc s)"
  shows "window_ok b (s\<lparr>sc := c, copying := (cache_len (sc s), bs) # copying s, reserved := reserved s @ [bs]\<rparr>)"
    (is "window_ok b ?t")
proof -
  define h where "h = drop b (concat (reserved s))"
  have h: "drop b (concat (reserved s @ [bs])) = h @ bs" using b by (simp add: h_def)
  have len: "cache_len (sc s) = length h"
    and old: "\<And>pos cs. (pos, cs) \<in> set (copying s) \<Longrightarrow> pos + length cs \<le> length h \<and> take (length cs) (drop pos h) = cs"
    and same: "\<And>i. i < length h \<Longrightarrow> cache_data (sc s) ! i = h ! i
          \<or> (\<exists>(pos, cs) \<in> set (copying s). pos \<le> i \<and> i < pos + length cs)"
    using w unfolding window_ok_def Let_def h_def [symmetric] by auto
  have "cache_data (sc s) ! i = (h @ bs) ! i
      \<or> (\<exists>(pos, cs) \<in> set ((length h, bs) # copying s). pos \<le> i \<and> i < pos + length cs)"
    if "i < length (h @ bs)" for i
    using that same [of i] by (cases "i < length h") (auto simp: nth_append)
  moreover have "\<forall>(pos, cs) \<in> set ((length h, bs) # copying s).
      pos + length cs \<le> length (h @ bs) \<and> take (length cs) (drop pos (h @ bs)) = cs"
    using old by fastforce
  moreover have "length (h @ bs) = length h + length bs" by simp
  moreover have "sc ?t = c" "copying ?t = (cache_len (sc s), bs) # copying s" "reserved ?t = reserved s @ [bs]"
    by simp_all
  ultimately show ?thesis unfolding window_ok_def Let_def by (simp only: h assms(3,4) len) blast
qed

lemma window_copy:
  assumes w: "window_ok b s" and c: "copying s = xs @ (pos, bs) # ys" and m: "copy_to pos bs (sc s) = Inr c"
  shows "window_ok b (s\<lparr>sc := c, copying := xs @ ys\<rparr>)" (is "window_ok b ?t")
proof -
  define h where "h = drop b (concat (reserved s))"
  from m have data: "cache_data c = take pos (cache_data (sc s)) @ bs @ drop (pos + length bs) (cache_data (sc s))"
    and room: "pos + length bs \<le> length (cache_data (sc s))" and len: "cache_len c = cache_len (sc s)"
    by (auto simp: copy_to_def split: if_splits)
  have "length h = cache_len (sc s)"
    and old: "\<And>q cs. (q, cs) \<in> set (copying s) \<Longrightarrow> q + length cs \<le> length h \<and> take (length cs) (drop q h) = cs"
    and same: "\<And>i. i < length h \<Longrightarrow> cache_data (sc s) ! i = h ! i
          \<or> (\<exists>(q, cs) \<in> set (copying s). q \<le> i \<and> i < q + length cs)"
    using w unfolding window_ok_def Let_def h_def [symmetric] by auto
  have p: "pos + length bs \<le> length h" "take (length bs) (drop pos h) = bs"
    using old [of pos bs] c by simp_all
  have inside: "cache_data c ! i = h ! i" if i: "pos \<le> i" "i < pos + length bs" for i
  proof -
    from i have "i - pos < length bs" by linarith
    then have "cache_data c ! i = bs ! (i - pos)" using i room by (simp add: data nth_append)
    also have "\<dots> = take (length bs) (drop pos h) ! (i - pos)" by (simp only: p(2))
    also have "\<dots> = h ! i" using i p(1) by simp
    finally show ?thesis .
  qed
  have outside: "cache_data c ! i = cache_data (sc s) ! i" if "\<not> (pos \<le> i \<and> i < pos + length bs)" for i
    using that room by (auto simp: data nth_append)
  have "cache_data c ! i = h ! i \<or> (\<exists>(q, cs) \<in> set (xs @ ys). q \<le> i \<and> i < q + length cs)"
    if i: "i < length h" for i
  proof (cases "pos \<le> i \<and> i < pos + length bs")
    case True
    with inside show ?thesis by simp
  next
    case False
    with same [OF i] outside c show ?thesis by auto
  qed
  moreover have "\<forall>(q, cs) \<in> set (xs @ ys). q + length cs \<le> length h \<and> take (length cs) (drop q h) = cs"
    using old c by auto
  moreover have "sc ?t = c" "copying ?t = xs @ ys" "reserved ?t = reserved s" by simp_all
  ultimately show ?thesis
    unfolding window_ok_def Let_def using \<open>length h = cache_len (sc s)\<close>
    by (simp only: h_def [symmetric] len) blast
qed

lemma window_cong:
  assumes "window_ok b s" and "reserved t = reserved s" and "copying t = copying s"
    and "cache_len (sc t) = cache_len (sc s)" and "cache_data (sc t) = cache_data (sc s)"
  shows "window_ok b t"
  using assms(1) unfolding window_ok_def by (simp only: assms(2-5))

lemma window_quiet:
  assumes "window_ok b s" and "copying s = []" and "in_bounds N s"
  shows "cached (sc s) = drop b (concat (reserved s))"
  using assms by (intro nth_equalityI) (auto simp: window_ok_def in_bounds_def cached_def Let_def)

lemma window_empty:
  assumes "copying s = []" and "cache_len (sc s) = 0"
  shows "window_ok (length (concat (reserved s))) s"
  using assms by (simp add: window_ok_def)

text \<open>A stream that does things by itself loses nothing either.\<close>

locale moving_stream = output_stream fl accepted open_stream
  for fl :: "'o \<Rightarrow> byte list \<Rightarrow> 'o" and accepted :: "'o \<Rightarrow> byte list" and open_stream :: "'o \<Rightarrow> bool" +
  fixes moves :: "'o \<Rightarrow> 'o \<Rightarrow> bool"
  assumes moves_law: "open_stream s \<Longrightarrow> moves s s' \<Longrightarrow> accepted s' = accepted s"
    and moves_open: "open_stream s \<Longrightarrow> moves s s' \<Longrightarrow> open_stream s'"
begin

definition orderly_inv :: "nat \<Rightarrow> byte list \<Rightarrow> 'o cache_sys \<Rightarrow> bool" where
  "orderly_inv N before s \<longleftrightarrow> open_stream (ops (sc s)) \<and> in_bounds N s \<and>
     (\<exists>b \<le> length (concat (reserved s)).
        accepted (ops (sc s)) = before @ take b (concat (reserved s)) \<and> window_ok b s)"

text \<open>A flush between appends takes the whole history.\<close>

lemma quiet_flush:
  assumes "orderly_inv N before s" and "copying s = []"
  shows "open_stream (ops (flushNoLock fl (sc s)))"
    and "accepted (ops (flushNoLock fl (sc s))) = before @ concat (reserved s)"
proof -
  from assms(1) obtain b where b: "open_stream (ops (sc s))" "in_bounds N s"
    "accepted (ops (sc s)) = before @ take b (concat (reserved s))" "window_ok b s"
    by (auto simp: orderly_inv_def)
  from b(2) have "cache_ok N (sc s)" by (simp add: in_bounds_def cache_ok_def)
  note F = flushNoLock_law [OF this b(1)]
  show "open_stream (ops (flushNoLock fl (sc s)))" by (rule F(2))
  show "accepted (ops (flushNoLock fl (sc s))) = before @ concat (reserved s)"
    using F(3) b(3) window_quiet [OF b(4) assms(2) b(2)] by simp
qed

lemma reserve_orderly:
  assumes inv: "orderly_inv N before s" and n: "length bs \<le> N" and m: "markUsed N fl (length bs) (sc s) = (c, pos)"
    and t: "t = s\<lparr>sc := c, copying := (pos, bs) # copying s, reserved := reserved s @ [bs]\<rparr>"
    and orderly: "length bs + cache_len (sc s) > N \<longrightarrow> copying s = []" and bounds: "in_bounds N t"
  shows "orderly_inv N before t"
proof -
  from inv obtain b where b: "open_stream (ops (sc s))" "in_bounds N s" "b \<le> length (concat (reserved s))"
    "accepted (ops (sc s)) = before @ take b (concat (reserved s))" "window_ok b s"
    by (auto simp: orderly_inv_def)
  note M = markUsed_fits [OF n m]
  show ?thesis
  proof (cases "length bs + cache_len (sc s) > N")
    case True
    then have q: "copying s = []" using orderly by simp
    note Q = quiet_flush [OF inv q]
    let ?s = "s\<lparr>sc := flushNoLock fl (sc s)\<rparr>"
    have w: "window_ok (length (concat (reserved s))) ?s" using window_empty [of ?s] q by simp
    from window_reserve [OF w, of c bs] True M
    have "window_ok (length (concat (reserved s))) t" by (simp add: t)
    with Q bounds True M show ?thesis
      unfolding orderly_inv_def by (intro conjI exI [of _ "length (concat (reserved s))"]) (simp_all add: t)
  next
    case False
    with M window_reserve [OF b(5,3), of c bs] have "window_ok b t" by (simp add: t)
    with b bounds False M show ?thesis
      unfolding orderly_inv_def by (intro conjI exI [of _ b]) (simp_all add: t)
  qed
qed

lemma cache_step_orderly:
  assumes step: "cache_step N fl moves s f t" and orderly: "f \<longrightarrow> copying s = []" and inv: "orderly_inv N before s"
  shows "orderly_inv N before t"
proof -
  from inv have bounds: "in_bounds N t" by (intro cache_step_bounds [OF step]) (simp add: orderly_inv_def)
  from inv obtain b where b: "open_stream (ops (sc s))" "in_bounds N s" "b \<le> length (concat (reserved s))"
    "accepted (ops (sc s)) = before @ take b (concat (reserved s))" "window_ok b s"
    by (auto simp: orderly_inv_def)
  from step show ?thesis
  proof (rule cache_stepE)
    fix bs c pos
    assume n: "length bs \<le> N" and m: "markUsed N fl (length bs) (sc s) = (c, pos)"
      and f: "f = (length bs + cache_len (sc s) > N)"
      and t: "t = s\<lparr>sc := c, copying := (pos, bs) # copying s, reserved := reserved s @ [bs]\<rparr>"
    show ?thesis by (rule reserve_orderly [OF inv n m t _ bounds]) (use f orderly in simp)
  next
    fix xs pos bs ys c
    assume c: "copying s = xs @ (pos, bs) # ys" and m: "copy_to pos bs (sc s) = Inr c"
      and t: "t = s\<lparr>sc := c, copying := xs @ ys\<rparr>"
    have "ops c = ops (sc s)" using m by (auto simp: copy_to_def split: if_splits)
    with window_copy [OF b(5) c m] b bounds show ?thesis
      unfolding orderly_inv_def by (intro conjI exI [of _ b]) (simp_all add: t)
  next
    assume f: "f = (cache_len (sc s) > 0)" and t: "t = s\<lparr>sc := flushSafely fl (sc s)\<rparr>"
    show ?thesis
    proof (cases "cache_len (sc s) > 0")
      case True
      with f orderly have q: "copying s = []" by simp
      with quiet_flush [OF inv q] bounds window_empty [of t] show ?thesis
        unfolding orderly_inv_def
        by (intro conjI exI [of _ "length (concat (reserved s))"]) (simp_all add: t flushSafely_def)
    next
      case False
      then have "t = s" by (simp add: t flushSafely_def flushNoLock_def)
      with inv show ?thesis by simp
    qed
  next
    fix out
    assume m: "moves (ops (sc s)) out" and t: "t = s\<lparr>sc := (sc s)\<lparr>ops := out\<rparr>\<rparr>"
    have "window_ok b t" by (rule window_cong [OF b(5)]) (simp_all add: t)
    with moves_law [OF b(1) m] moves_open [OF b(1) m] b bounds show ?thesis
      unfolding orderly_inv_def by (intro conjI exI [of _ b]) (simp_all add: t)
  qed
qed

lemma orderly_complete:
  assumes "orderly_reaches N fl moves (start_cache N out) s" and "open_stream out" and "copying s = []"
  shows "open_stream (delete_SingleCache fl (sc s))"
    and "accepted (delete_SingleCache fl (sc s)) = accepted out @ concat (reserved s)"
proof -
  have "orderly_inv N (accepted out) (start_cache N out)"
    unfolding orderly_inv_def
    by (intro conjI exI [of _ 0])
      (use assms(2) in \<open>simp_all add: start_in_bounds\<close>, simp_all add: start_cache_def new_SingleCache_def window_ok_def)
  with assms(1) have "orderly_inv N (accepted out) s"
    by (induction "start_cache N out" s rule: orderly_reaches.induct) (auto intro: cache_step_orderly)
  from quiet_flush [OF this assms(3)]
  show "open_stream (delete_SingleCache fl (sc s))"
    and "accepted (delete_SingleCache fl (sc s)) = accepted out @ concat (reserved s)"
    by (simp_all add: delete_SingleCache_def flushSafely_def)
qed

end

section \<open>The log file and its writer thread\<close>

text \<open>One turn of \<open>looper\<close> that has something to do.\<close>

definition writer_turn :: "logfile \<Rightarrow> logfile \<Rightarrow> bool" where
  "writer_turn l l' \<longleftrightarrow> logging l \<and> ready l \<and> cacheQueue l \<noteq> [] \<and> processNoLock l = Inr l'"

lemma writer_turn_law:
  assumes "log_accepts l" and "writer_turn l l'"
  shows "accepted_log l' = accepted_log l" and "log_accepts l'"
proof -
  have n: "None \<notin> set (cacheQueue l)" and p: "processNoLock l = Inr l'" and q: "cacheQueue l \<noteq> []"
    using assms by (simp_all add: log_accepts_def writer_turn_def)
  note P = processNoLock_pending [OF p n q]
  show "accepted_log l' = accepted_log l" and "log_accepts l'"
    using P assms(1) notin_tl [OF n] by (auto simp: accepted_log_def log_accepts_def)
qed

interpretation written_out: moving_stream log_stream accepted_log log_accepts writer_turn
  by unfold_locales (auto intro: writer_turn_law)

section \<open>Properties\<close>

lemma new_file_accepts:
  "log_accepts (new_DailyLogFile True)" "accepted_log (new_DailyLogFile True) = []"
  by (simp_all add: log_accepts_def accepted_log_def new_DailyLogFile_def createNewFile_def pending_def)

text \<open>Whatever the threads do, no copy runs outside the cache.\<close>

lemma copies_in_bounds:
  assumes "cache_reaches N fl moves (start_cache N out) s" and "(pos, bs) \<in> set (copying s)"
  shows "\<exists>c. copy_to pos bs (sc s) = Inr c"
  by (rule copy_possible [OF cache_reaches_bounds [OF assms(1) start_in_bounds] assms(2)])

text \<open>C28: Any number of threads append to the cache of a log file, in any interleaving of their
  reservations and copies with each other and with the thread that writes the file. As long as no
  flush comes between the two halves of an append, then, when cache and file are destroyed after the last
  copy, the file holds exactly the pieces, complete and in the order in which their room was
  reserved; the copies themselves may be made in any order.\<close>

theorem threads_log_everything:
  assumes "orderly_reaches N log_stream writer_turn (start_cache N (new_DailyLogFile True)) s"
    and "copying s = []"
  shows "\<exists>l. finish (delete_SingleCache log_stream (sc s)) = Some (Inr l) \<and> written l = concat (reserved s)"
  using finish_accepted [OF written_out.orderly_complete(1) [OF assms(1) new_file_accepts(1) assms(2)]]
  by (simp add: written_out.orderly_complete(2) [OF assms(1) new_file_accepts(1) assms(2)] new_file_accepts)

text \<open>A run: two threads reserve, the first reserved is copied last.\<close>

lemma demo_threads:
  "orderly_reaches 2 log_stream writer_turn (start_cache 2 (new_DailyLogFile True))
    \<lparr>sc = \<lparr>cache_len = 2, cache_data = [7, 8], ops = new_DailyLogFile True\<rparr>, copying = [], reserved = [[7], [8]]\<rparr>"
proof -
  let ?out = "new_DailyLogFile True"
  let ?c = "\<lambda>n d. \<lparr>cache_len = n, cache_data = d, ops = ?out\<rparr>"
  let ?s = "\<lambda>n d cs rs. \<lparr>sc = ?c n d, copying = cs, reserved = rs\<rparr>"
  let ?step = "cache_step 2 log_stream writer_turn"
  have 0: "orderly_reaches 2 log_stream writer_turn (start_cache 2 ?out) (?s 0 [0, 0] [] [])"
    by (simp add: start_cache_def new_SingleCache_def numeral_eq_Suc orderly_here)
  have 1: "?step (?s 0 [0, 0] [] []) False (?s 1 [0, 0] [(0, [7])] [[7]])"
    using append_reserves [of "[7]" 2 log_stream "?s 0 [0, 0] [] []" "?c 1 [0, 0]" 0 writer_turn]
    by (simp add: markUsed_def)
  have 2: "?step (?s 1 [0, 0] [(0, [7])] [[7]]) False (?s 2 [0, 0] [(1, [8]), (0, [7])] [[7], [8]])"
    using append_reserves [of "[8]" 2 log_stream "?s 1 [0, 0] [(0, [7])] [[7]]" "?c 2 [0, 0]" 1 writer_turn]
    by (simp add: markUsed_def)
  have 3: "?step (?s 2 [0, 0] [(1, [8]), (0, [7])] [[7], [8]]) False (?s 2 [0, 8] [(0, [7])] [[7], [8]])"
    using append_copies [of "?s 2 [0, 0] [(1, [8]), (0, [7])] [[7], [8]]" "[]" 1 "[8]" "[(0, [7])]" "?c 2 [0, 8]"]
    by (simp add: copy_to_def)
  have 4: "?step (?s 2 [0, 8] [(0, [7])] [[7], [8]]) False (?s 2 [7, 8] [] [[7], [8]])"
    using append_copies [of "?s 2 [0, 8] [(0, [7])] [[7], [8]]" "[]" 0 "[7]" "[]" "?c 2 [7, 8]"]
    by (simp add: copy_to_def)
  show ?thesis
    by (rule orderly_more [OF orderly_more [OF orderly_more [OF orderly_more [OF 0 1] 2] 3] 4]) simp_all
qed

theorem threads_log_everything_witness:
  "\<exists>s l. orderly_reaches 2 log_stream writer_turn (start_cache 2 (new_DailyLogFile True)) s
    \<and> finish (delete_SingleCache log_stream (sc s)) = Some (Inr l) \<and> written l = [7, 8]"
  using threads_log_everything [OF demo_threads] demo_threads by fastforce

text \<open>The copy outside the mutex loses data. For every piece that fits the cache there is an
  interleaving of one append with one \<open>flushSafely()\<close> after which the log has zeros (what the
  vector held) in the place of the piece, although both calls have returned.\<close>

theorem append_race_loses_piece:
  assumes "0 < length bs" and "length bs \<le> N" and "log_accepts out"
  shows "\<exists>s. cache_reaches N log_stream writer_turn (start_cache N out) s \<and> copying s = [] \<and> reserved s = [bs]
    \<and> accepted_log (delete_SingleCache log_stream (sc s)) = accepted_log out @ replicate (length bs) 0"
proof -
  let ?n = "length bs" and ?step = "cache_step N log_stream writer_turn"
  let ?s0 = "start_cache N out"
  let ?s1 = "?s0\<lparr>sc := (sc ?s0)\<lparr>cache_len := ?n\<rparr>, copying := [(0, bs)], reserved := [bs]\<rparr>"
  let ?s2 = "?s1\<lparr>sc := flushSafely log_stream (sc ?s1)\<rparr>"
  obtain c where c: "copy_to 0 bs (sc ?s2) = Inr c"
    using assms(2) by (simp add: copy_to_def flushSafely_def start_cache_def new_SingleCache_def)
  let ?s3 = "?s2\<lparr>sc := c, copying := []\<rparr>"
  have 1: "?step ?s0 False ?s1"
    using append_reserves [of bs N log_stream ?s0 "(sc ?s0)\<lparr>cache_len := ?n\<rparr>" 0 writer_turn] assms(2)
    by (simp add: start_cache_def new_SingleCache_def markUsed_def)
  have 3: "?step ?s2 False ?s3" using append_copies [of ?s2 "[]" 0 bs "[]" c] c by simp
  have r: "cache_reaches N log_stream writer_turn ?s0 ?s3"
    by (rule cache_more [OF cache_more [OF cache_more [OF cache_here 1] flushes] 3])
  have "ops c = log_stream out (take ?n (replicate N 0))" "cache_len c = 0"
    using c assms(1) by (auto simp: copy_to_def flushSafely_def flushNoLock_def start_cache_def
        new_SingleCache_def split: if_splits)
  then have "delete_SingleCache log_stream c = log_stream out (replicate ?n 0)"
    using assms(2) by (simp add: delete_SingleCache_def flushSafely_def flushNoLock_def min_def)
  with r daily.flush_law [OF assms(3)] show ?thesis by (intro exI [of _ ?s3]) simp
qed

theorem append_race_loses_piece_witness:
  "\<exists>s. cache_reaches 4 log_stream writer_turn (start_cache 4 (new_DailyLogFile True)) s \<and> reserved s = [[7, 8]]
    \<and> accepted_log (delete_SingleCache log_stream (sc s)) = [0, 0]"
  using append_race_loses_piece [of "[7, 8]" 4 "new_DailyLogFile True"] new_file_accepts by auto

end
