(* ===== verification/MessageThreads.thy ===== *)
theory MessageThreads
  imports MessageLooper "HOL-Library.Multiset"
begin

text \<open>
  \<open>MessageLooper\<close> (\<^verbatim>\<open>MessageLooper.cpp\<close>) with its threads: any number of threads post, one runs
  \<open>startLoop\<close>. A post is one critical section; the loop holds the mutex except while it waits on
  the condition variable and between two rounds, so a post waits for the handler that is running.
\<close>

section \<open>Threads\<close>

text \<open>
  Where the loop thread is: waiting on the condition variable; awake and about to take the mutex;
  handling a message, with the mutex; out of the loop; or ended by a fault of the process.
  \<open>sent\<close> and \<open>taken\<close> are the history of posts (with their flag \<open>first\<close>) and of messages taken.
\<close>

datatype 'f ml_pc = Asleep | Awake | Handling "'f LoopMessage" | Ended | Faulted fault

record ('f, 's) ml_sys =
  queue :: "'f msg_looper"
  ml_at :: "'f ml_pc"
  user :: 's
  sent :: "(bool \<times> 'f LoopMessage) list"
  taken :: "'f LoopMessage list"

definition mutex_free :: "'f ml_pc \<Rightarrow> bool" where
  "mutex_free c \<longleftrightarrow> c = Asleep \<or> c = Awake \<or> c = Ended"

text \<open>\<open>notify_all\<close>.\<close>

definition notify :: "'f ml_pc \<Rightarrow> 'f ml_pc" where
  "notify c = (if c = Asleep then Awake else c)"

definition pop_message :: "'f msg_looper \<Rightarrow> 'f msg_looper" where
  "pop_message l = l\<lparr>mq := tl (mq l)\<rparr>"

inductive ml_step :: "('f, 's) effects \<Rightarrow> ('f, 's) ml_sys \<Rightarrow> ('f, 's) ml_sys \<Rightarrow> bool"
  for eff :: "('f, 's) effects" where
  ml_post: "mutex_free (ml_at s) \<Longrightarrow>
    ml_step eff s (s\<lparr>queue := postMessage m first (queue s), ml_at := notify (ml_at s), sent := sent s @ [(first, m)]\<rparr>)"
| ml_wait: "ml_at s = Awake \<Longrightarrow> mq (queue s) = [] \<Longrightarrow> ml_step eff s (s\<lparr>ml_at := Asleep\<rparr>)"
| ml_spurious: "ml_at s = Asleep \<Longrightarrow> ml_step eff s (s\<lparr>ml_at := Awake\<rparr>)"
| ml_take: "ml_at s = Awake \<Longrightarrow> mq (queue s) = m # ms \<Longrightarrow>
    ml_step eff s (s\<lparr>queue := pop_message (queue s), ml_at := Handling m, taken := taken s @ [m]\<rparr>)"
| ml_handled: "ml_at s = Handling m \<Longrightarrow> process eff (has_handler (queue s)) m (user s) = Inr (Some u) \<Longrightarrow>
    ml_step eff s (s\<lparr>ml_at := Awake, user := u\<rparr>)"
| ml_end: "ml_at s = Handling m \<Longrightarrow> process eff (has_handler (queue s)) m (user s) = Inr None \<Longrightarrow>
    ml_step eff s (s\<lparr>ml_at := Ended\<rparr>)"
| ml_fault: "ml_at s = Handling m \<Longrightarrow> process eff (has_handler (queue s)) m (user s) = Inl e \<Longrightarrow>
    ml_step eff s (s\<lparr>ml_at := Faulted e\<rparr>)"

inductive_cases ml_stepE: "ml_step eff s t"

inductive ml_reaches :: "('f, 's) effects \<Rightarrow> ('f, 's) ml_sys \<Rightarrow> ('f, 's) ml_sys \<Rightarrow> bool"
  for eff :: "('f, 's) effects" where
  ml_here: "ml_reaches eff s s"
| ml_more: "ml_reaches eff s t \<Longrightarrow> ml_step eff t u \<Longrightarrow> ml_reaches eff s u"

definition start_ml :: "bool \<Rightarrow> 's \<Rightarrow> ('f, 's) ml_sys" where
  "start_ml hs u = \<lparr>queue = setHandler hs new_MessageLooper, ml_at = Awake, user = u, sent = [], taken = []\<rparr>"

section \<open>Invariants\<close>

text \<open>The messages of the library's constructors: one for user code, or one that stops the loop.\<close>

definition stops :: "'f LoopMessage \<Rightarrow> bool" where
  "stops m \<longleftrightarrow> what m < 0"

definition proper :: "('f, 's) effects \<Rightarrow> bool \<Rightarrow> 'f LoopMessage \<Rightarrow> bool" where
  "proper eff hs m \<longleftrightarrow> served eff hs m \<or> (stops m \<and> getFunctor m = None)"

lemma process_proper:
  "proper eff hs m \<Longrightarrow> process eff hs m u = Inr (if stops m then None else Some (effect_of eff m u))"
  using process_served [of eff hs m u] process_term [of m eff hs u]
  by (auto simp: proper_def stops_def served_def MSG_FUNC_def)

text \<open>The messages whose handling is over.\<close>

definition handled :: "('f, 's) ml_sys \<Rightarrow> 'f LoopMessage list" where
  "handled s = (case ml_at s of Handling _ \<Rightarrow> butlast (taken s) | _ \<Rightarrow> taken s)"

text \<open>The invariant in three parts: the queue, the thread, the user's state.\<close>

definition queue_inv :: "bool \<Rightarrow> ('f, 's) ml_sys \<Rightarrow> bool" where
  "queue_inv hs s \<longleftrightarrow> has_handler (queue s) = hs
     \<and> mset (taken s @ mq (queue s)) = mset (map snd (sent s))
     \<and> ((\<forall>p \<in> set (sent s). \<not> fst p) \<longrightarrow> taken s @ mq (queue s) = map snd (sent s))"

definition thread_inv :: "('f, 's) ml_sys \<Rightarrow> bool" where
  "thread_inv s \<longleftrightarrow> (ml_at s = Asleep \<longrightarrow> mq (queue s) = [])
     \<and> (\<forall>m. ml_at s = Handling m \<longrightarrow> taken s \<noteq> [] \<and> last (taken s) = m)"

definition user_inv :: "('f, 's) effects \<Rightarrow> 's \<Rightarrow> ('f, 's) ml_sys \<Rightarrow> bool" where
  "user_inv eff u s \<longleftrightarrow> user s = fold (effect_of eff) (handled s) u
     \<and> (\<forall>e. ml_at s \<noteq> Faulted e) \<and> (\<forall>m \<in> set (butlast (taken s)). \<not> stops m)
     \<and> (taken s \<noteq> [] \<longrightarrow> stops (last (taken s)) \<longrightarrow> ml_at s = Ended \<or> (\<exists>m. ml_at s = Handling m))
     \<and> (ml_at s = Ended \<longrightarrow> taken s \<noteq> [] \<and> stops (last (taken s)))"

lemma ml_step_queue: "ml_step eff s t \<Longrightarrow> queue_inv hs s \<Longrightarrow> queue_inv hs t"
  by (erule ml_stepE) (auto simp: queue_inv_def pop_message_def)

lemma ml_step_thread: "ml_step eff s t \<Longrightarrow> thread_inv s \<Longrightarrow> thread_inv t"
  by (erule ml_stepE) (auto simp: thread_inv_def notify_def mutex_free_def split: if_splits)

text \<open>A message of the queue or in hand has been sent.\<close>

lemma sent_messages: "queue_inv hs s \<Longrightarrow> set (taken s) \<union> set (mq (queue s)) = set (map snd (sent s))"
  unfolding queue_inv_def by (metis set_append set_mset_mset)

lemma in_hand_sent:
  assumes "queue_inv hs s" and "thread_inv s" and "ml_at s = Handling m"
  shows "taken s \<noteq> []" and "last (taken s) = m" and "m \<in> set (map snd (sent s))"
    and "fold f (taken s) u = f m (fold f (butlast (taken s)) u)"
proof -
  show m: "taken s \<noteq> []" "last (taken s) = m" using assms(2,3) by (auto simp: thread_inv_def)
  with sent_messages [OF assms(1)] show "m \<in> set (map snd (sent s))" using last_in_set by blast
  from m have "taken s = butlast (taken s) @ [m]" by (metis append_butlast_last_id)
  then show "fold f (taken s) u = f m (fold f (butlast (taken s)) u)"
    by (metis comp_apply fold_append fold_simps(1) fold_simps(2))
qed

lemma ml_step_user:
  assumes step: "ml_step eff s t" and q: "queue_inv hs s" and th: "thread_inv s" and inv: "user_inv eff u s"
    and proper: "\<forall>m \<in> set (map snd (sent s)). proper eff hs m"
  shows "user_inv eff u t"
  using step
proof (rule ml_stepE)
  fix first m
  assume "mutex_free (ml_at s)" and t: "t = s\<lparr>queue := postMessage m first (queue s),
    ml_at := notify (ml_at s), sent := sent s @ [(first, m)]\<rparr>"
  then show ?thesis using inv
    by (auto simp: user_inv_def handled_def mutex_free_def notify_def split: if_splits)
next
  fix m ms
  assume a: "ml_at s = Awake" and "mq (queue s) = m # ms"
    and t: "t = s\<lparr>queue := pop_message (queue s), ml_at := Handling m, taken := taken s @ [m]\<rparr>"
  have "\<not> stops x" if "x \<in> set (taken s)" for x
    using that inv a by (cases "taken s" rule: rev_cases) (auto simp: user_inv_def)
  then show ?thesis using inv a by (auto simp: t user_inv_def handled_def)
next
  fix m u'
  assume a: "ml_at s = Handling m" and p: "process eff (has_handler (queue s)) m (user s) = Inr (Some u')"
    and t: "t = s\<lparr>ml_at := Awake, user := u'\<rparr>"
  note m = in_hand_sent [OF q th a]
  from m(3) proper q p have "\<not> stops m \<and> u' = effect_of eff m (user s)"
    by (auto simp: queue_inv_def process_proper split: if_splits)
  then show ?thesis using inv a m by (simp add: t user_inv_def handled_def m(4))
next
  fix m
  assume a: "ml_at s = Handling m" and p: "process eff (has_handler (queue s)) m (user s) = Inr None"
    and t: "t = s\<lparr>ml_at := Ended\<rparr>"
  note m = in_hand_sent [OF q th a]
  from m(3) proper have pm: "proper eff hs m" by blast
  with q p have st: "stops m" by (auto simp: queue_inv_def process_proper split: if_splits)
  with pm have "effect_of eff m v = v" for v
    by (auto simp: proper_def served_def stops_def effect_of_def MSG_FUNC_def split: option.splits)
  then show ?thesis using inv a m st by (simp add: t user_inv_def handled_def m(4))
next
  fix m e
  assume a: "ml_at s = Handling m" and p: "process eff (has_handler (queue s)) m (user s) = Inl e"
  note m = in_hand_sent [OF q th a]
  from m(3) proper q p show ?thesis by (auto simp: queue_inv_def process_proper)
qed (use inv in \<open>auto simp: user_inv_def handled_def\<close>)

lemma ml_step_sent: "ml_step eff s t \<Longrightarrow> set (sent s) \<subseteq> set (sent t)"
  by (erule ml_stepE) auto

definition ml_inv :: "('f, 's) effects \<Rightarrow> bool \<Rightarrow> 's \<Rightarrow> ('f, 's) ml_sys \<Rightarrow> bool" where
  "ml_inv eff hs u s \<longleftrightarrow> queue_inv hs s \<and> thread_inv s
     \<and> ((\<forall>p \<in> set (sent s). proper eff hs (snd p)) \<longrightarrow> user_inv eff u s)"

lemma ml_step_inv:
  assumes step: "ml_step eff s t" and inv: "ml_inv eff hs u s"
  shows "ml_inv eff hs u t"
proof -
  from inv have q: "queue_inv hs s" and th: "thread_inv s" by (simp_all add: ml_inv_def)
  have "user_inv eff u t" if p: "\<forall>p \<in> set (sent t). proper eff hs (snd p)"
  proof -
    from p ml_step_sent [OF step] have s: "\<forall>p \<in> set (sent s). proper eff hs (snd p)" by blast
    with inv have "user_inv eff u s" by (simp add: ml_inv_def)
    from ml_step_user [OF step q th this] s show ?thesis by simp
  qed
  with ml_step_queue [OF step q] ml_step_thread [OF step th] show ?thesis by (simp add: ml_inv_def)
qed

lemma ml_reaches_inv: "ml_reaches eff s t \<Longrightarrow> ml_inv eff hs u s \<Longrightarrow> ml_inv eff hs u t"
  by (induction rule: ml_reaches.induct) (auto intro: ml_step_inv)

lemma start_ml_inv: "ml_inv eff hs u (start_ml hs u)"
  by (simp add: ml_inv_def queue_inv_def thread_inv_def user_inv_def start_ml_def new_MessageLooper_def
      setHandler_def handled_def)

lemma ml_reaches_trans: "ml_reaches eff t u \<Longrightarrow> ml_reaches eff s t \<Longrightarrow> ml_reaches eff s u"
  by (induction rule: ml_reaches.induct) (auto intro: ml_more)

lemma ml_reaches_step: "ml_step eff s t \<Longrightarrow> ml_reaches eff t u \<Longrightarrow> ml_reaches eff s u"
  by (rule ml_reaches_trans [OF _ ml_more [OF ml_here]])

section \<open>The loop works off what is queued\<close>

definition settled :: "('f, 's) ml_sys \<Rightarrow> bool" where
  "settled s \<longleftrightarrow> (if \<exists>p \<in> set (sent s). stops (snd p) then ml_at s = Ended
     else ml_at s = Asleep \<and> mset (taken s) = mset (map snd (sent s)))"

lemma awake_settles:
  assumes "ml_inv eff hs u s" and "\<forall>p \<in> set (sent s). proper eff hs (snd p)" and "ml_at s = Awake"
  shows "\<exists>t. ml_reaches eff s t \<and> sent t = sent s \<and> settled t"
  using assms
proof (induction "mq (queue s)" arbitrary: s)
  case Nil
  then have q: "queue_inv hs s" and u: "user_inv eff u s" by (simp_all add: ml_inv_def)
  have "\<not> stops m" if "m \<in> set (taken s)" for m
    using that u Nil.prems(3) by (cases "taken s" rule: rev_cases) (auto simp: user_inv_def)
  moreover have "set (map snd (sent s)) = set (taken s)" using sent_messages [OF q] Nil.hyps by simp
  ultimately have "\<not> stops (snd p)" if "p \<in> set (sent s)" for p using that by (auto simp: image_iff)
  then have "settled (s\<lparr>ml_at := Asleep\<rparr>)" using q Nil.hyps by (auto simp: settled_def queue_inv_def)
  moreover have "ml_step eff s (s\<lparr>ml_at := Asleep\<rparr>)" using Nil by (intro ml_wait) simp_all
  ultimately show ?case by (intro exI [of _ "s\<lparr>ml_at := Asleep\<rparr>"]) (simp add: ml_reaches_step ml_here)
next
  case (Cons m ms)
  let ?s = "s\<lparr>queue := pop_message (queue s), ml_at := Handling m, taken := taken s @ [m]\<rparr>"
  have 1: "ml_step eff s ?s" using Cons.hyps(2) [symmetric] Cons.prems(3) by (rule ml_take [rotated])
  from ml_step_inv [OF 1 Cons.prems(1)] have inv: "ml_inv eff hs u ?s" .
  then have "m \<in> set (map snd (sent ?s))"
    by (intro in_hand_sent(3) [of hs ?s]) (simp_all add: ml_inv_def)
  with Cons.prems(2) have pm: "proper eff hs m" by auto
  have hs: "has_handler (queue ?s) = hs" using inv by (simp add: ml_inv_def queue_inv_def)
  show ?case
  proof (cases "stops m")
    case True
    with pm hs have 2: "ml_step eff ?s (?s\<lparr>ml_at := Ended\<rparr>)"
      by (intro ml_end [of _ m]) (simp_all add: process_proper)
    have "\<exists>p \<in> set (sent s). stops (snd p)" using \<open>m \<in> set (map snd (sent ?s))\<close> True by auto
    then have "settled (?s\<lparr>ml_at := Ended\<rparr>)" by (simp add: settled_def)
    with ml_reaches_step [OF 1 ml_reaches_step [OF 2 ml_here]] show ?thesis
      by (intro exI [of _ "?s\<lparr>ml_at := Ended\<rparr>"]) simp
  next
    case False
    let ?t = "?s\<lparr>ml_at := Awake, user := effect_of eff m (user s)\<rparr>"
    from False pm hs have 2: "ml_step eff ?s ?t"
      by (intro ml_handled [of _ m]) (simp_all add: process_proper)
    have "ms = mq (queue ?t)" using Cons.hyps(2) by (simp add: pop_message_def flip: Cons.hyps(2))
    from Cons.hyps(1) [OF this ml_step_inv [OF 2 inv]] Cons.prems(2) obtain t where
      t: "ml_reaches eff ?t t" "sent t = sent s" "settled t" by auto
    from ml_reaches_step [OF 1 ml_reaches_step [OF 2 t(1)]] t(2,3) show ?thesis
      by (intro exI [of _ t]) simp
  qed
qed

lemma thread_settles:
  assumes "ml_inv eff hs u s" and "\<forall>p \<in> set (sent s). proper eff hs (snd p)"
  shows "\<exists>t. ml_reaches eff s t \<and> sent t = sent s \<and> settled t"
proof -
  have q: "queue_inv hs s" and th: "thread_inv s" and u: "user_inv eff u s"
    using assms by (simp_all add: ml_inv_def)
  show ?thesis
  proof (cases "ml_at s")
    case Asleep
    have 1: "ml_step eff s (s\<lparr>ml_at := Awake\<rparr>)" by (rule ml_spurious [OF Asleep])
    from awake_settles [OF ml_step_inv [OF 1 assms(1)]] assms(2) show ?thesis
      by (auto intro: ml_reaches_step [OF 1])
  next
    case (Handling m)
    note m = in_hand_sent(3) [OF q th Handling]
    with assms(2) have pm: "proper eff hs m" by auto
    have hs: "has_handler (queue s) = hs" using q by (simp add: queue_inv_def)
    show ?thesis
    proof (cases "stops m")
      case True
      with pm hs have 1: "ml_step eff s (s\<lparr>ml_at := Ended\<rparr>)"
        by (intro ml_end [OF Handling]) (simp_all add: process_proper)
      moreover have "\<exists>p \<in> set (sent s). stops (snd p)" using m True by auto
      ultimately show ?thesis
        by (intro exI [of _ "s\<lparr>ml_at := Ended\<rparr>"]) (auto simp: settled_def intro: ml_reaches_step ml_here)
    next
      case False
      let ?t = "s\<lparr>ml_at := Awake, user := effect_of eff m (user s)\<rparr>"
      from False pm hs have 1: "ml_step eff s ?t"
        by (intro ml_handled [OF Handling]) (simp_all add: process_proper)
      from awake_settles [OF ml_step_inv [OF 1 assms(1)]] assms(2) show ?thesis
        by (auto intro: ml_reaches_step [OF 1])
    qed
  next
    case Ended
    with u have "taken s \<noteq> []" "stops (last (taken s))" by (auto simp: user_inv_def)
    with sent_messages [OF q] have "\<exists>p \<in> set (sent s). stops (snd p)"
      by (metis UnCI image_iff last_in_set list.set_map)
    with Ended show ?thesis by (intro exI [of _ s]) (simp add: settled_def ml_here)
  qed (use awake_settles [OF assms] u in \<open>auto simp: user_inv_def\<close>)
qed

section \<open>Properties\<close>


text \<open>A run: a functor is posted and taken, a stop is posted while it is handled, the loop ends.\<close>

definition demo_func :: "nat LoopMessage" where "demo_func = LoopMessage_move (Some 4)"
definition demo_stop :: "nat LoopMessage" where
  "demo_stop = \<lparr>getFunctor = None, what = MSG_TERM, lparam = 0, rparam = 0\<rparr>"

abbreviation demo_ml :: "nat LoopMessage list \<Rightarrow> nat ml_pc \<Rightarrow> nat list \<Rightarrow> (bool \<times> nat LoopMessage) list
    \<Rightarrow> nat LoopMessage list \<Rightarrow> (nat, nat list) ml_sys" where
  "demo_ml q c v ps ms \<equiv> \<lparr>queue = \<lparr>mq = q, has_handler = False\<rparr>, ml_at = c, user = v, sent = ps, taken = ms\<rparr>"

lemma demo_proper: "proper note_effects False demo_func" "proper note_effects False demo_stop"
  by (simp_all add: proper_def served_def stops_def demo_func_def demo_stop_def LoopMessage_move_def
      note_effects_def MSG_TERM_def)

lemma demo_process:
  "process note_effects False demo_func v = Inr (Some (v @ [4]))"
  "process note_effects False demo_stop v = Inr None"
  by (simp_all add: process_def demo_func_def demo_stop_def LoopMessage_move_def unless_posts_def
      note_effects_def MSG_FUNC_def MSG_TERM_def)

lemma demo_ml_run:
  "ml_reaches note_effects (start_ml False []) (demo_ml [demo_func, demo_stop] Awake [] [(False, demo_func), (False, demo_stop)] [])"
  (is "ml_reaches _ ?a ?b")
  "ml_reaches note_effects (start_ml False [])
     (demo_ml [] Ended [4] [(False, demo_func), (False, demo_stop)] [demo_func, demo_stop])"
proof -
  let ?E = note_effects and ?ps = "[(False, demo_func), (False, demo_stop)]"
  have 0: "ml_reaches ?E ?a (demo_ml [] Awake [] [] [])"
    by (simp add: start_ml_def new_MessageLooper_def setHandler_def ml_here)
  have 1: "ml_step ?E (demo_ml [] Awake [] [] []) (demo_ml [demo_func] Awake [] [(False, demo_func)] [])"
    using ml_post [of "demo_ml [] Awake [] [] []" ?E False demo_func]
    by (simp add: mutex_free_def notify_def postMessage_def)
  have 2: "ml_step ?E (demo_ml [demo_func] Awake [] [(False, demo_func)] []) ?b"
    using ml_post [of "demo_ml [demo_func] Awake [] [(False, demo_func)] []" ?E False demo_stop]
    by (simp add: mutex_free_def notify_def postMessage_def)
  show b: "ml_reaches ?E ?a ?b" by (rule ml_more [OF ml_more [OF 0 1] 2])
  have 3: "ml_step ?E ?b (demo_ml [demo_stop] (Handling demo_func) [] ?ps [demo_func])"
    using ml_take [of ?b demo_func "[demo_stop]" ?E] by (simp add: pop_message_def)
  have 4: "ml_step ?E (demo_ml [demo_stop] (Handling demo_func) [] ?ps [demo_func])
      (demo_ml [demo_stop] Awake [4] ?ps [demo_func])"
    using ml_handled [of "demo_ml [demo_stop] (Handling demo_func) [] ?ps [demo_func]" demo_func ?E "[4]"]
    by (simp add: demo_process)
  have 5: "ml_step ?E (demo_ml [demo_stop] Awake [4] ?ps [demo_func])
      (demo_ml [] (Handling demo_stop) [4] ?ps [demo_func, demo_stop])"
    using ml_take [of "demo_ml [demo_stop] Awake [4] ?ps [demo_func]" demo_stop "[]" ?E]
    by (simp add: pop_message_def)
  have 6: "ml_step ?E (demo_ml [] (Handling demo_stop) [4] ?ps [demo_func, demo_stop])
      (demo_ml [] Ended [4] ?ps [demo_func, demo_stop])"
    using ml_end [of "demo_ml [] (Handling demo_stop) [4] ?ps [demo_func, demo_stop]" demo_stop ?E]
    by (simp add: demo_process)
  show "ml_reaches ?E ?a (demo_ml [] Ended [4] ?ps [demo_func, demo_stop])"
    by (rule ml_more [OF ml_more [OF ml_more [OF ml_more [OF b 3] 4] 5] 6])
qed


text \<open>No message is stuck: from every state the threads can get to, the loop thread alone comes to its
  end if a stop has been posted, wherever in the queue, and otherwise handles all messages that were
  posted and goes to sleep.\<close>

theorem messages_all_handled:
  assumes "ml_reaches eff (start_ml hs u) s" and "\<forall>p \<in> set (sent s). proper eff hs (snd p)"
  shows "\<exists>t. ml_reaches eff s t \<and> sent t = sent s
    \<and> (if \<exists>p \<in> set (sent s). stops (snd p) then ml_at t = Ended
       else ml_at t = Asleep \<and> mset (handled t) = mset (map snd (sent s)))"
proof -
  from thread_settles [OF ml_reaches_inv [OF assms(1) start_ml_inv] assms(2)] obtain t where
    t: "ml_reaches eff s t" "sent t = sent s" "settled t" by blast
  then show ?thesis by (intro exI [of _ t]) (simp add: settled_def handled_def split: if_splits)
qed

theorem messages_all_handled_witness:
  "\<exists>t. ml_reaches note_effects (demo_ml [demo_func, demo_stop] Awake [] [(False, demo_func), (False, demo_stop)] []) t
    \<and> ml_at t = Ended"
  using messages_all_handled [OF demo_ml_run(1)]
  by (simp add: demo_proper) (auto simp: stops_def demo_stop_def MSG_TERM_def)

end
