(* ===== verification/ConsumerLooper.thy ===== *)
theory ConsumerLooper
  imports Prelude
begin

text \<open>
  \<^verbatim>\<open>include/ConsumerLooper.hpp\<close>: a queue of weak pointers that one thread consumes. The mutex is
  held from the test of the queue to the end of a round, so a round is one step, and so is each call
  of \<open>produce\<close> and \<open>stopLoop\<close> by another thread. \<open>startLoop\<close> calls a member \<open>top\<close> that \<open>std::queue\<close>
  does not have: which element of the queue its result refers to is a parameter.
\<close>

section \<open>State\<close>

text \<open>
  Where the looping thread is: not in \<open>startLoop\<close>; about to test \<open>_looping\<close>, without the mutex;
  about to test the queue, with it; waiting on the condition variable; out of the loop.
\<close>

datatype loop_place = Not_started | Testing | Inside | Waiting | Left

record 'a consumer =
  resultHandler_set :: bool
  srcQueue :: "'a list"
  looping :: bool
  place :: loop_place
  results :: "('a \<times> int) list"     \<comment> \<open>the calls of \<open>_resultHandler\<close>\<close>

definition new_ConsumerLooper :: "'a consumer" where
  "new_ConsumerLooper =
     \<lparr>resultHandler_set = False, srcQueue = [], looping = True, place = Not_started, results = []\<rparr>"

definition delete_ConsumerLooper :: "'a consumer \<Rightarrow> unit res" where
  "delete_ConsumerLooper c = assert_then (\<not> looping c) (Inr ())"

definition setResultHandler :: "bool \<Rightarrow> 'a consumer \<Rightarrow> 'a consumer" where
  "setResultHandler h c = c\<lparr>resultHandler_set := h\<rparr>"

text \<open>\<open>notify_one\<close>: the only thread that can be waiting is the looping one.\<close>

definition notify_one :: "'a consumer \<Rightarrow> 'a consumer" where
  "notify_one c = (if place c = Waiting then c\<lparr>place := Inside\<rparr> else c)"

definition produce :: "'a \<Rightarrow> 'a consumer \<Rightarrow> 'a consumer" where
  "produce t c = notify_one (c\<lparr>srcQueue := srcQueue c @ [t]\<rparr>)"

definition stopLoop :: "'a consumer \<Rightarrow> 'a consumer" where
  "stopLoop c = notify_one (c\<lparr>looping := False\<rparr>)"

section \<open>The loop\<close>

text \<open>
  The surroundings: the place in the queue that \<open>top()\<close> refers to, whether an object is still alive,
  what consuming it returns, and whether its consumption or the handler calls this looper.
\<close>

record 'a surroundings =
  top_place :: "'a list \<Rightarrow> nat"
  alive :: "'a \<Rightarrow> bool"
  consume :: "'a \<Rightarrow> int"
  calls_back :: "'a \<Rightarrow> bool"

text \<open>
  The second half of a round. \<open>pop\<close> destroys the first element, and \<open>lock\<close> goes through the
  reference taken before it. A call of \<open>produce\<close> or \<open>stopLoop\<close> from here finds the mutex held.
\<close>

definition consume_one :: "'a surroundings \<Rightarrow> 'a consumer \<Rightarrow> 'a consumer res" where
  "consume_one env c = (let i = top_place env (srcQueue c); c' = c\<lparr>srcQueue := tl (srcQueue c)\<rparr> in
     if length (srcQueue c) \<le> i then Inl OutOfBounds
     else if i = 0 then Inl UseAfterFree
     else let t = srcQueue c ! i in
       if \<not> alive env t then Inr c'
       else if calls_back env t then Inl Deadlock
       else Inr (c'\<lparr>results := results c @ [(t, consume env t)]\<rparr>))"

datatype 'a consumer_event = Start_loop | Test_looping | Round | Spurious | Produce 'a | Stop_loop

text \<open>What an event does; \<open>None\<close> where it cannot happen.\<close>

fun consumer_step :: "'a surroundings \<Rightarrow> 'a consumer_event \<Rightarrow> 'a consumer \<Rightarrow> 'a consumer res option" where
  "consumer_step env Start_loop c =
     (if place c = Not_started then Some (assert_then (resultHandler_set c) (Inr (c\<lparr>place := Testing\<rparr>))) else None)"
| "consumer_step env Test_looping c =
     (if place c = Testing then Some (Inr (c\<lparr>place := (if looping c then Inside else Left)\<rparr>)) else None)"
| "consumer_step env Round c =
     (if place c \<noteq> Inside then None
      else if srcQueue c = [] then Some (Inr (c\<lparr>place := Waiting\<rparr>))
      else Some (bind_res (consume_one env c) (\<lambda>c'. Inr (c'\<lparr>place := Testing\<rparr>))))"
| "consumer_step env Spurious c = (if place c = Waiting then Some (Inr (c\<lparr>place := Inside\<rparr>)) else None)"
| "consumer_step env (Produce t) c = Some (Inr (produce t c))"
| "consumer_step env Stop_loop c = Some (Inr (stopLoop c))"

fun run_consumer :: "'a surroundings \<Rightarrow> 'a consumer_event list \<Rightarrow> 'a consumer \<Rightarrow> 'a consumer res option" where
  "run_consumer env [] c = Some (Inr c)"
| "run_consumer env (e # es) c = (case consumer_step env e c of
     None \<Rightarrow> None | Some (Inl x) \<Rightarrow> Some (Inl x) | Some (Inr c') \<Rightarrow> run_consumer env es c')"

section \<open>What the loop does\<close>

lemma run_consumer_invariant:
  assumes "\<And>e c c'. P c \<Longrightarrow> Q e \<Longrightarrow> consumer_step env e c = Some (Inr c') \<Longrightarrow> P c'"
  shows "P c \<Longrightarrow> \<forall>e \<in> set es. Q e \<Longrightarrow> run_consumer env es c = Some (Inr c') \<Longrightarrow> P c'"
proof (induction es arbitrary: c)
  case (Cons e es)
  then obtain c1 where "consumer_step env e c = Some (Inr c1)" "run_consumer env es c1 = Some (Inr c')"
    by (auto split: option.splits sum.splits)
  with Cons show ?case using assms by auto
qed simp

text \<open>The inner loop, once in it with an empty queue, is left by nothing but \<open>produce\<close>.\<close>

definition stuck :: "'a consumer \<Rightarrow> bool" where
  "stuck c \<longleftrightarrow> place c \<in> {Inside, Waiting} \<and> srcQueue c = []"

lemma step_stuck:
  "stuck c \<Longrightarrow> \<forall>t. e \<noteq> Produce t \<Longrightarrow> consumer_step env e c = Some (Inr c') \<Longrightarrow> stuck c'"
  by (cases e) (auto simp: stuck_def stopLoop_def notify_one_def split: if_splits)

lemma looping_stopped:
  "consumer_step env e c = Some (Inr c') \<Longrightarrow> looping c' = (looping c \<and> e \<noteq> Stop_loop)"
  by (cases e) (auto simp: stopLoop_def produce_def notify_one_def assert_then_def consume_one_def Let_def split: if_splits)

lemma run_looping:
  "run_consumer env es c = Some (Inr c') \<Longrightarrow> looping c' = (looping c \<and> Stop_loop \<notin> set es)"
proof (induction es arbitrary: c)
  case (Cons e es)
  then obtain c1 where "consumer_step env e c = Some (Inr c1)" "run_consumer env es c1 = Some (Inr c')"
    by (auto split: option.splits sum.splits)
  with Cons.IH [of c1] looping_stopped show ?case by auto
qed simp

text \<open>\<open>top\<close> taken for the element \<open>pop\<close> removes, as \<open>front\<close> of a queue and \<open>top\<close> of a priority queue are:
  no element is ever consumed, and a round with something in the queue uses a destroyed element.\<close>

lemma popped_reference_dangles:
  assumes "\<forall>q. top_place env q = 0" and "run_consumer env es (setResultHandler h new_ConsumerLooper) = Some (Inr c)"
  shows "results c = []"
    and "place c = Inside \<Longrightarrow> srcQueue c \<noteq> [] \<Longrightarrow> consumer_step env Round c = Some (Inl UseAfterFree)"
proof -
  have "results c' = []" if "results c = []" "consumer_step env e c = Some (Inr c')" for e and c c' :: "'a consumer"
    using that assms(1)
    by (cases e) (auto simp: stopLoop_def produce_def notify_one_def assert_then_def consume_one_def Let_def split: if_splits)
  from run_consumer_invariant [where P = "\<lambda>c. results c = []" and Q = "\<lambda>_. True", OF this _ _ assms(2)]
  show "results c = []" by (simp add: setResultHandler_def new_ConsumerLooper_def)
  show "consumer_step env Round c = Some (Inl UseAfterFree)" if "place c = Inside" "srcQueue c \<noteq> []"
    using that assms(1) by (simp add: consume_one_def Let_def)
qed

section \<open>Properties\<close>

definition sample_surroundings :: "nat surroundings" where
  "sample_surroundings = \<lparr>top_place = (\<lambda>q. 1), alive = (\<lambda>t. True), consume = (\<lambda>t. 0), calls_back = (\<lambda>t. False)\<rparr>"

text \<open>\<open>stopLoop\<close> does not end a loop that has found its queue empty: whatever stops and wake-ups
  follow, the thread goes on waiting until something is produced, although the destructor
  can run once the loop was stopped.\<close>

theorem stopped_consumer_waits:
  assumes "run_consumer env es (setResultHandler True new_ConsumerLooper) = Some (Inr c)"
    and "place c = Inside \<or> place c = Waiting" and "srcQueue c = []"
    and "run_consumer env es' c = Some (Inr c')" and "\<forall>t. Produce t \<notin> set es'"
  shows "(place c' = Inside \<or> place c' = Waiting)
    \<and> delete_ConsumerLooper c' = (if Stop_loop \<in> set es \<union> set es' then Inr () else Inl AssertFail)"
proof
  have "\<forall>e \<in> set es'. \<forall>t. e \<noteq> Produce t" using assms(5) by blast
  moreover have "stuck c" using assms(2,3) by (simp add: stuck_def)
  ultimately have "stuck c'"
    using run_consumer_invariant [where P = stuck and Q = "\<lambda>e. \<forall>t. e \<noteq> Produce t" and es = es' and c = c and c' = c' and env = env]
      step_stuck [where env = env] assms(4) by metis
  then show "place c' = Inside \<or> place c' = Waiting" by (auto simp: stuck_def)
  have "looping c' = (Stop_loop \<notin> set es \<union> set es')"
    using run_looping [OF assms(1)] run_looping [OF assms(4)]
    by (auto simp: setResultHandler_def new_ConsumerLooper_def)
  then show "delete_ConsumerLooper c' = (if Stop_loop \<in> set es \<union> set es' then Inr () else Inl AssertFail)"
    by (simp add: delete_ConsumerLooper_def assert_then_def)
qed

theorem stopped_consumer_waits_witness:
  "\<exists>c c'. run_consumer sample_surroundings [Start_loop, Test_looping, Round] (setResultHandler True new_ConsumerLooper) = Some (Inr c)
    \<and> run_consumer sample_surroundings [Stop_loop, Round, Spurious, Round] c = Some (Inr c')
    \<and> (place c' = Inside \<or> place c' = Waiting) \<and> delete_ConsumerLooper c' = Inr ()"
proof -
  let ?c0 = "setResultHandler True new_ConsumerLooper :: nat consumer"
  obtain c where c: "run_consumer sample_surroundings [Start_loop, Test_looping, Round] ?c0 = Some (Inr c)" "place c = Waiting"
    "srcQueue c = []" by (simp add: setResultHandler_def new_ConsumerLooper_def)
  obtain c' where "run_consumer sample_surroundings [Stop_loop, Round, Spurious, Round] c = Some (Inr c')"
    using c(2,3) by (simp add: stopLoop_def notify_one_def)
  with stopped_consumer_waits [OF c(1) _ c(3) this] c show ?thesis by auto
qed

end
