(* ===== verification/TcpPump.thy ===== *)
theory TcpPump
  imports Prelude
begin

text \<open>
  \<^verbatim>\<open>TcpPump.cpp\<close>: a server socket, an epoll descriptor and two threads whose bodies are empty. The
  header is not in the repository; what the members' own types do, the construction of the socket
  and \<open>listen\<close>, is given as their results, and so is what \<open>epoll_create1\<close> returns.
\<close>

section \<open>State and operations\<close>

text \<open>\<open>_spSender\<close> and \<open>_spReceiver\<close> own the thread started last; both are detached at once.\<close>

record pump =
  pump_epollFd :: int
  srvSock :: int               \<comment> \<open>\<open>_srvSock.getFd()\<close>\<close>
  has_threads :: bool

text \<open>The three constructors differ in what the socket is made from: a port, a descriptor, an address.\<close>

definition new_TcpPump :: "int \<Rightarrow> pump res" where
  "new_TcpPump fd = assert_then (0 \<le> fd) (Inr \<lparr>pump_epollFd = -1, srvSock = fd, has_threads = False\<rparr>)"

text \<open>The descriptor the destructor closes.\<close>

definition delete_TcpPump :: "pump \<Rightarrow> int" where
  "delete_TcpPump p = pump_epollFd p"

text \<open>\<open>startWork\<close> with the results of \<open>listen\<close> and \<open>epoll_create1\<close>.\<close>

definition pump_startWork :: "int \<Rightarrow> int \<Rightarrow> pump \<Rightarrow> pump res" where
  "pump_startWork listened created p =
     assert_then (0 \<le> listened)
       (let p' = p\<lparr>pump_epollFd := created\<rparr> in
        assert_then (0 \<le> created) (Inr (p'\<lparr>has_threads := True\<rparr>)))"

section \<open>The epoll descriptors\<close>

fun start_often :: "(int \<times> int) list \<Rightarrow> pump \<Rightarrow> pump res" where
  "start_often [] p = Inr p"
| "start_often ((l, e) # rs) p = bind_res (pump_startWork l e p) (start_often rs)"

text \<open>
  A pump that is started more than once loses all its epoll descriptors but the last: that one is
  the only one the destructor closes. One that never started closes \<open>-1\<close>.
\<close>

lemma start_often_eq:
  "start_often rs p = (if \<forall>(l, e) \<in> set rs. 0 \<le> l \<and> 0 \<le> e
     then Inr (if rs = [] then p else p\<lparr>pump_epollFd := snd (last rs), has_threads := True\<rparr>)
     else Inl AssertFail)"
  by (induction rs p rule: start_often.induct) (auto simp: pump_startWork_def assert_then_def Let_def)

lemma pump_closes_last:
  assumes "new_TcpPump fd = Inr p" and "start_often rs p = Inr p'"
  shows "delete_TcpPump p' = (if rs = [] then -1 else snd (last rs))"
  using assms by (auto simp: new_TcpPump_def assert_then_def start_often_eq delete_TcpPump_def split: if_splits)

lemma pump_loses_descriptors:
  assumes "new_TcpPump fd = Inr p" and "start_often rs p = Inr p'" and "distinct (map snd rs)" and "x \<in> set (butlast rs)"
  shows "snd x \<noteq> delete_TcpPump p'"
  using assms(3,4) pump_closes_last [OF assms(1,2)] by (cases rs rule: rev_cases) force+

end
