(* ===== verification/Daemon.thy ===== *)
theory Daemon
  imports MessageLooper
begin

text \<open>
  \<^verbatim>\<open>include/Daemon.hpp\<close> and \<^verbatim>\<open>Daemon.cpp\<close>: the frame of a server process. \<open>init\<close> sets
  signal handlers, the signal mask and resource limits of the process; the daemon then runs a
  message loop until a handler stops it. The system calls act on the state of the process;
  \<open>setrlimit\<close>, which the system may refuse, is an argument.
\<close>

section \<open>The process\<close>

datatype signal = SIGINT | SIGTERM | SIGQUIT | SIGSEGV | SIGBUS | SIGABRT | SIGILL | SIGCHLD | SIGFPE
  | SIGPIPE | Other_signal nat

datatype resource = RLIMIT_NOFILE | RLIMIT_CORE

text \<open>A limit is a soft and a hard one; \<open>None\<close> is \<open>RLIM_INFINITY\<close>.\<close>

type_synonym rlimit = "nat option \<times> nat option"

record 'h process =
  disposition :: "signal \<Rightarrow> 'h option"      \<comment> \<open>\<open>None\<close> is the default action\<close>
  blocked :: "signal \<Rightarrow> bool"
  limits :: "resource \<Rightarrow> rlimit"

type_synonym setrlimit = "resource \<Rightarrow> rlimit \<Rightarrow> rlimit \<Rightarrow> int \<times> rlimit"

definition sigaction :: "signal \<Rightarrow> 'h \<Rightarrow> 'h process \<Rightarrow> 'h process" where
  "sigaction s h p = p\<lparr>disposition := (disposition p)(s := Some h)\<rparr>"

definition unblocked_signals :: "signal list" where
  "unblocked_signals = [SIGSEGV, SIGBUS, SIGABRT, SIGILL, SIGCHLD, SIGFPE]"

definition setupSignal :: "'h \<Rightarrow> 'h process \<Rightarrow> 'h process" where
  "setupSignal termcb p =
     (let p1 = sigaction SIGQUIT termcb (sigaction SIGTERM termcb (sigaction SIGINT termcb p))
      in p1\<lparr>blocked := (\<lambda>s. blocked p1 s \<and> s \<notin> set unblocked_signals)\<rparr>)"

text \<open>The results of \<open>setrlimit\<close> are not looked at.\<close>

definition set_limit :: "setrlimit \<Rightarrow> resource \<Rightarrow> rlimit \<Rightarrow> 'h process \<Rightarrow> 'h process" where
  "set_limit sys r v p = p\<lparr>limits := (limits p)(r := snd (sys r v (limits p r)))\<rparr>"

definition setupRLimit :: "setrlimit \<Rightarrow> 'h process \<Rightarrow> 'h process" where
  "setupRLimit sys p =
     set_limit sys RLIMIT_CORE (None, None) (set_limit sys RLIMIT_NOFILE (Some 65535, Some 65535) p)"

definition daemon_init :: "setrlimit \<Rightarrow> 'h \<Rightarrow> 'h process \<Rightarrow> 'h process" where
  "daemon_init sys termcb p = setupSignal termcb (setupRLimit sys p)"

section \<open>The daemon\<close>

record 'f daemon =
  msgLooper :: "'f msg_looper"

definition new_Daemon :: "'f daemon" where
  "new_Daemon = \<lparr>msgLooper = new_MessageLooper\<rparr>"

definition daemon_startWork ::
  "('f, 's) effects \<Rightarrow> 'f daemon \<Rightarrow> 's \<Rightarrow> ('s \<times> 'f daemon \<times> loop_end) res" where
  "daemon_startWork eff d s = bind_res (ml_startLoop eff (msgLooper d) s)
     (\<lambda>(s', l, e). Inr (s', d\<lparr>msgLooper := l\<rparr>, e))"

text \<open>\<open>stopLoop\<close> with its default argument: the message is put at the end of the queue.\<close>

definition daemon_stopWork :: "'f daemon \<Rightarrow> 'f daemon res" where
  "daemon_stopWork d = bind_res (ml_stopLoop False (msgLooper d)) (\<lambda>l. Inr (d\<lparr>msgLooper := l\<rparr>))"

section \<open>Properties\<close>

text \<open>\<open>setrlimit(2)\<close> for a value whose soft limit is within its hard one: a process without
  privileges cannot raise a hard limit, and a refused call changes nothing.\<close>

definition within :: "nat option \<Rightarrow> nat option \<Rightarrow> bool" where
  "within a b \<longleftrightarrow> (case b of None \<Rightarrow> True | Some y \<Rightarrow> (case a of None \<Rightarrow> False | Some x \<Rightarrow> x \<le> y))"

definition setrlimit_documented :: "bool \<Rightarrow> setrlimit \<Rightarrow> bool" where
  "setrlimit_documented privileged sys \<longleftrightarrow> (\<forall>r v old. within (fst v) (snd v) \<longrightarrow>
     sys r v old = (if privileged \<or> within (snd v) (snd old) then (0, v) else (- 1, old)))"

definition sample_setrlimit :: "bool \<Rightarrow> setrlimit" where
  "sample_setrlimit privileged r v old =
     (if privileged \<or> within (snd v) (snd old) then (0, v) else (- 1, old))"

lemma sample_setrlimit_documented: "setrlimit_documented privileged (sample_setrlimit privileged)"
  by (simp add: setrlimit_documented_def sample_setrlimit_def)

text \<open>After \<open>init\<close> exactly the three termination signals have the given handler and the signals
  of a crash are not blocked; nothing else about signals changes, so \<open>SIGPIPE\<close> keeps the default
  action that ends the process when a connection it writes to is gone. The number of descriptors
  is 65535 if the process may set that, and is left as it was, silently, if its hard limit
  is lower and it may not raise it.\<close>

lemma daemon_init_effect:
  assumes "setrlimit_documented privileged sys"
  shows "disposition (daemon_init sys termcb p) s
      = (if s \<in> {SIGINT, SIGTERM, SIGQUIT} then Some termcb else disposition p s)"
    and "blocked (daemon_init sys termcb p) s \<longleftrightarrow> blocked p s \<and> s \<notin> set unblocked_signals"
    and "limits (daemon_init sys termcb p) RLIMIT_NOFILE
      = (if privileged \<or> within (Some 65535) (snd (limits p RLIMIT_NOFILE)) then (Some 65535, Some 65535)
         else limits p RLIMIT_NOFILE)"
proof -
  have "within (fst (Some 65535, Some 65535)) (snd (Some 65535, Some (65535 :: nat)))"
    by (simp add: within_def)
  with assms have c: "sys RLIMIT_NOFILE (Some 65535, Some 65535) old
      = (if privileged \<or> within (Some 65535) (snd old) then (0, (Some 65535, Some 65535)) else (- 1, old))"
    for old unfolding setrlimit_documented_def by (metis snd_conv)
  show "disposition (daemon_init sys termcb p) s
      = (if s \<in> {SIGINT, SIGTERM, SIGQUIT} then Some termcb else disposition p s)"
    and "blocked (daemon_init sys termcb p) s \<longleftrightarrow> blocked p s \<and> s \<notin> set unblocked_signals"
    by (auto simp: daemon_init_def setupSignal_def setupRLimit_def set_limit_def sigaction_def)
  show "limits (daemon_init sys termcb p) RLIMIT_NOFILE
      = (if privileged \<or> within (Some 65535) (snd (limits p RLIMIT_NOFILE)) then (Some 65535, Some 65535)
         else limits p RLIMIT_NOFILE)"
    by (simp add: daemon_init_def setupSignal_def setupRLimit_def set_limit_def sigaction_def c)
qed

text \<open>A daemon works until it is stopped, and not before.\<close>

lemma daemon_waits: "daemon_startWork eff new_Daemon s = Inr (s, new_Daemon, Waits)"
  by (simp add: daemon_startWork_def new_Daemon_def ml_startLoop_def new_MessageLooper_def)

lemma daemon_stops:
  "\<exists>d d'. daemon_stopWork new_Daemon = Inr d \<and> daemon_startWork eff d s = Inr (s, d', Stopped)"
  by (simp add: daemon_stopWork_def daemon_startWork_def new_Daemon_def ml_startLoop_def
      new_MessageLooper_def ml_stopLoop_def post_what_def LoopMessage_what_def MSG_FUNC_def MSG_TERM_def
      process_def)

end
