(* ===== verification/FileUtil.thy ===== *)
theory FileUtil
  imports Prelude
begin

text \<open>\<^verbatim>\<open>FileUtil.cpp\<close>: the two tests of a directory, which look at nothing.\<close>

definition dirReadable :: "string \<Rightarrow> bool" where
  "dirReadable path = True"

definition dirWrittable :: "string \<Rightarrow> bool" where
  "dirWrittable path = True"

end
