(* ===== verification/Spec2Isabelle.thy ===== *)
theory Spec2Isabelle
  imports ConnectionRemoval SessionService WheelCalls SessionUsers TimeoutStates UdpDispatch LoopConnection TcpServer TcpClient
    FixedBuffer LogStamp CacheThreads MessageThreads ConsumerLooper TcpPump Daemon FileUtil
begin

text \<open>
  A verification library for netio, a C++ library of TCP and UDP servers on \<open>epoll\<close>. The code is
  in \<^verbatim>\<open>src/\<close>; paths below are relative to it.

  \<^bold>\<open>The program.\<close> A \<open>MultiplexLooper\<close> is a thread around one epoll instance. Everything that
  owns a descriptor owns a \<open>Channel\<close>, which registers it with a looper and carries the callbacks
  the looper calls: the connections (\<open>TcpConnection\<close>, \<open>UdpEndpoint\<close>), the listening and the
  connecting socket (\<open>TcpAcceptor\<close>, \<open>TcpConnector\<close>), the timer (\<open>TimerWrap\<close>) and the eventfd
  through which other threads hand runnables to the loop. \<open>TcpServer\<close> spreads the connections it
  accepts over the loopers of a \<open>LooperPool\<close>. A connection reads into a \<open>VecBuffer\<close>, whose
  storage may be shared by several buffers, and hands it to a handler; a
  \<open>NetPackDispatcher<FLNPack>\<close> as that handler cuts the bytes into packets
  (\<open>FieldLenNetPack\<close>) and calls the handlers registered for their commands. \<open>SessionManager\<close>
  turns heartbeats into sessions that end when a \<open>HashedWheelTimer\<close> finds them idle. The
  \<open>Logger\<close> formats lines into a \<open>SingleCache\<close>, which passes blocks to the writer thread of a
  \<open>DailyLogFile\<close>. \<open>FixedBuffer\<close> allocates equal cells through a \<open>BitmapTree\<close>;
  \<open>MessageLooper\<close> is a queue of messages with one consumer.

  \<^bold>\<open>The theories.\<close>
  \<^item> \<^verbatim>\<open>Prelude\<close>: machine types; the faults of C++ as values of \<open>'a res\<close> (a failed \<open>ASSERT\<close>,
    undefined behaviour, exceptions, deadlock), their sequencing \<open>bind_res\<close>; \<open>size_t\<close>.
  \<^item> \<^verbatim>\<open>Endian\<close> (\<^verbatim>\<open>include/Endian.hpp\<close>), \<^verbatim>\<open>VecBuffer\<close> (\<^verbatim>\<open>include/VecBuffer.hpp\<close>): a store \<open>mem\<close> of
    vectors and buffers, by address; every operation takes and returns it. Lemmas: the window of
    a buffer stays inside its vector; a buffer split off is isolated from its parent.
  \<^item> \<^verbatim>\<open>FieldLenNetPack\<close>, \<^verbatim>\<open>Dispatcher\<close> (\<^verbatim>\<open>netpack/FieldLenNetPack.hpp\<close>, \<^verbatim>\<open>netpack/Dispatcher.hpp\<close>,
    \<^verbatim>\<open>netpack/NetPackDispatcher.hpp\<close>): the codec, against an abstract format \<open>next_frame\<close> on byte
    lists; the registry; the read loop, once for every packet format that meets the locale
    \<open>netpack\<close>, of which FLNPack is the interpretation \<open>flnp\<close>: what it calls, what it leaves in the
    buffer, the room it makes, on one stretch of bytes and on a stream cut into pieces.
  \<^item> \<^verbatim>\<open>Channel\<close>, \<^verbatim>\<open>MultiplexLooper\<close> (\<^verbatim>\<open>Channel.cpp\<close>, \<^verbatim>\<open>MultiplexLooper.cpp\<close> and headers): masks,
    callbacks, registration; event dispatch; the queue of runnables and stopping as an inductive
    step relation of posting threads, stopping threads and loop thread, with its invariant. The
    steps that finish what is begun (\<open>work_step\<close>) come to an end by a lexicographic measure; where
    they end everything posted has run, or the loop has left if it was told to stop.
  \<^item> \<^verbatim>\<open>TcpConnection\<close>, \<^verbatim>\<open>UdpEndpoint\<close>, \<^verbatim>\<open>InetSock\<close> (files of these names, and \<^verbatim>\<open>InetAddr\<close>): the handlers
    for read, write and close. \<^verbatim>\<open>Source\<close> (\<^verbatim>\<open>netpack/Dispatcher.hpp\<close>): what a handler answers to.
    \<^verbatim>\<open>TcpDispatch\<close> and \<^verbatim>\<open>UdpDispatch\<close> put a connection and an endpoint together with the dispatcher,
    from the socket to the handlers; \<^verbatim>\<open>LoopConnection\<close> a connection with its loop.
  \<^item> \<^verbatim>\<open>TcpServer\<close>, \<^verbatim>\<open>TcpClient\<close> (\<^verbatim>\<open>TcpAcceptor.cpp\<close>, \<^verbatim>\<open>TcpServer.cpp\<close>, \<^verbatim>\<open>TcpConnector.cpp\<close>,
    \<^verbatim>\<open>TcpClient.cpp\<close>): servers over a pool of loopers, each with its own interest list, an invariant
    that ties the lists to the connections, preserved by every step; clients. \<^verbatim>\<open>ConnectionLife\<close>: the
    references to a connection, who holds only its bare pointer, and the interleavings of loop and
    threads in which it is never used after it was destroyed; \<^verbatim>\<open>ConnectionRemoval\<close>: those in
    which it is.
  \<^item> \<^verbatim>\<open>MessageLooper\<close> (\<^verbatim>\<open>MessageLooper.cpp\<close>, \<^verbatim>\<open>include/LooperPool.hpp\<close>), \<^verbatim>\<open>Daemon\<close> (\<^verbatim>\<open>Daemon.cpp\<close>);
    \<^verbatim>\<open>MessageThreads\<close>: the loop and the threads that post to it as a step relation over the mutex and the
    condition variable, with its invariants and the proof that the loop works off what is queued.
  \<^item> \<^verbatim>\<open>ConsumerLooper\<close> (\<^verbatim>\<open>include/ConsumerLooper.hpp\<close>), \<^verbatim>\<open>TcpPump\<close> (\<^verbatim>\<open>TcpPump.cpp\<close>): two unfinished parts
    that nothing uses. The first calls a member of \<open>std::queue\<close> that does not exist, the second has
    no header; what is missing is a parameter.
  \<^item> \<^verbatim>\<open>HashedWheelTimer\<close>, \<^verbatim>\<open>TimerWrap\<close>, \<^verbatim>\<open>Session\<close> (\<^verbatim>\<open>HashedWheelTimer.cpp\<close>, \<^verbatim>\<open>include/TimerWrap.hpp\<close>,
    \<^verbatim>\<open>netpack/Session.hpp\<close>): the wheel refines the locale \<open>timer\<close> (each armed timeout has a number of
    ticks left), and the sessions rest on that contract only. \<^verbatim>\<open>SessionTimer\<close> puts a manager on its
    loop, a simulation that makes a run of events a run of the manager; \<^verbatim>\<open>SessionServer\<close> puts it
    behind a connection, from bytes to sessions; \<^verbatim>\<open>SessionService\<close> puts both together, many
    connections and the timer on one loop, by a second simulation. \<^verbatim>\<open>TimeoutStates\<close>: the order of
    a timeout's states (an instance of \<open>linorder\<close>), along which every operation moves. \<^verbatim>\<open>SessionUsers\<close>:
    the invariant of the map from users to sessions. \<open>WheelTasks\<close>: the bucket visit with the tasks
    run inside it; that \<open>tick\<close> without them is right for tasks beside the wheel, such as the removal of
    sessions, and what tasks that arm themselves again come to. \<open>WheelCalls\<close>: tasks that add and cancel
    timeouts, which of them run in a tick and what stands afterwards.
  \<^item> \<^verbatim>\<open>BitmapTree\<close>, \<^verbatim>\<open>FixedBuffer\<close> (files of these names): the tree refines a set of free indexes, and
    it and the pool are allocators of indexes (locale \<open>index_allocator\<close>). Runs of a pool keep the list
    of the cells its users hold; their invariant needs only that the layers of the tree fit one
    another (\<open>chain_ok\<close>), as giving back at position 32 of a word breaks the rest.
  \<^item> \<^verbatim>\<open>TimeUtil\<close>, \<^verbatim>\<open>SingleCache\<close>, \<^verbatim>\<open>LogFile\<close>, \<^verbatim>\<open>Logger\<close> (files of these names): the cache for any output stream (locale
    \<open>output_stream\<close>), the writer thread as a step relation, the lines. \<open>LogStamp\<close>: the stamps of the lines from
    the clock, with the calendar of \<open>gmtime_r\<close>, and that they sort as the times do. \<^verbatim>\<open>CacheThreads\<close>: threads that
    append to one cache, the copy of \<open>append\<close> outside the mutex, and the writer thread (locale
    \<open>moving_stream\<close>): what is kept when no flush interrupts an append, and what is lost otherwise.

  \<^bold>\<open>The outside.\<close> The kernel and libc are parameters or inputs. \<open>epoll_ctl\<close> is an argument, and
  \<open>epoll_documented\<close> is what its manual says; \<open>sample_ctl\<close> is an instance. What \<open>readv\<close>,
  \<open>writev\<close>, \<open>recvfrom\<close>, \<open>sendto\<close>, \<open>epoll_wait\<close>, \<open>accept\<close>, \<open>connect\<close> return is a list of results
  given to the handler that calls them; a handler whose list is used up is where it would make the
  next call, so nothing is claimed about it beyond that. User callbacks are functions on
  the state they can reach. Logging calls inside the components are left out.

  \<^bold>\<open>Loops and bounds.\<close> The read loop of the dispatcher, the draining of the log queue and the
  visit of a bucket with its tasks are \<open>partial_function (option)\<close>: \<open>None\<close> is a loop that does not end, and that they end is part of
  the theorems. The constructor of \<open>BitmapTree\<close> has fuel 64: a layer has a 64th of the words of the
  one below it, so a \<open>size_t\<close> is used up in 11 rounds; the theorems on trees are for at most
  \<open>2 ^ 31\<close> indexes, where the conversions of the code to \<open>int\<close> are exact. The shift loop of the
  wheel ends because a shift of 32 or more is a fault. Sizes are natural numbers whose sums and
  differences wrap at \<open>2 ^ 64\<close> (\<open>sz_add\<close>, \<open>sz_sub\<close>); \<open>max_vec\<close> is \<open>max_size()\<close> of a byte vector.

  \<^bold>\<open>Not modelled.\<close> Reference
  counts of shared pointers other than those to connections (destructors are operations of their
  own); the mutexes around single operations, except where their absence or their extent matters
  (\<open>SingleCache\<close>, \<open>MessageLooper\<close>); data races on fields the code does not protect. Pointers the caller must pass non-null are
  given as what they point to, so the \<open>ASSERT\<close> on the content pointer of \<open>writeMessage\<close> has no counterpart;
  neither have the checks of \<open>fcntl\<close> in \<open>setNonblocking\<close>, which is taken to succeed. The handlers of a
  dispatcher change the client's state only: they do not call the dispatcher or touch the buffer. In
  the step relation of \<open>TcpServer\<close> a connection that is removed is not destroyed, so its descriptor
  is not used again; \<open>ConnectionLife\<close> has the destruction. The interest lists hold descriptors that are open, and
  \<open>EPOLLONESHOT\<close> is a bit of the mask without its effect. The
  member \<open>send\<close> of \<open>Session\<close> that \<open>sendToUin\<close> calls does not exist; it is a parameter.
\<close>

end
